(* ===== verification/OW_Prelude.thy ===== *)
theory OW_Prelude
  imports Main "HOL-Library.AList" "HOL-Library.Word" "HOL-Library.Sublist" "HOL-Library.Multiset"
begin

unbundle bit_operations_syntax

text \<open>
  Shared vocabulary of the development: the machine types, the result type of fallible
  operations, the operations of the Rust standard library that several components use
  (strings, big-endian byte order, hash maps), the locales that state the contracts of those
  operations, and the generic lemmas on lists, options and words.

  A Rust \<^verbatim>\<open>String\<close> is the list of its UTF-8 bytes, each byte a \<^typ>\<open>char\<close>, so that \<^verbatim>\<open>len\<close>,
  \<^verbatim>\<open>split\<close> on an ASCII character, \<^verbatim>\<open>ends_with\<close> and \<^verbatim>\<open>contains\<close> are the corresponding list
  operations.  Case folding and white space are modelled on the ASCII range only: the bytes of
  characters beyond ASCII are left alone.
\<close>

section \<open>Types\<close>

type_synonym byte = "8 word"
type_synonym u16 = "16 word"
type_synonym u32 = "32 word"
type_synonym u64 = "64 word"
type_synonym u128 = "128 word"
type_synonym ('e, 'a) result = "'e + 'a"
type_synonym ('k, 'v) hashmap = "('k \<times> 'v) list"

named_theorems codec_simps \<open>round trips and lengths of the byte codecs\<close>
named_theorems hm_simps \<open>lookup after update of hash maps\<close>
named_theorems inv_intros \<open>preservation of component invariants\<close>
named_theorems str_simps \<open>string operations\<close>

section \<open>Results\<close>

fun is_ok :: "('e, 'a) result \<Rightarrow> bool" where
  "is_ok (Inr _) = True"
| "is_ok (Inl _) = False"

section \<open>Strings\<close>

definition to_lower_char :: "char \<Rightarrow> char" where
  "to_lower_char c = (let n = (of_char c :: nat) in if 65 \<le> n \<and> n \<le> 90 then char_of (n + 32) else c)"

definition to_lowercase :: "string \<Rightarrow> string" where
  "to_lowercase s = map to_lower_char s"

definition is_ws :: "char \<Rightarrow> bool" where
  "is_ws c = (let n = (of_char c :: nat) in n = 32 \<or> (9 \<le> n \<and> n \<le> 13))"

definition trim :: "string \<Rightarrow> string" where
  "trim s = rev (dropWhile is_ws (rev (dropWhile is_ws s)))"

fun split_on :: "char \<Rightarrow> string \<Rightarrow> string list" where
  "split_on d [] = [[]]"
| "split_on d (c # cs) =
     (if c = d then [] # split_on d cs
      else (case split_on d cs of [] \<Rightarrow> [[c]] | w # ws \<Rightarrow> (c # w) # ws))"

fun join_with :: "string \<Rightarrow> string list \<Rightarrow> string" where
  "join_with d [] = []"
| "join_with d [w] = w"
| "join_with d (w # v # ws) = w @ d @ join_with d (v # ws)"

definition starts_with :: "string \<Rightarrow> string \<Rightarrow> bool" where
  "starts_with s p = (take (length p) s = p)"

definition ends_with :: "string \<Rightarrow> string \<Rightarrow> bool" where
  "ends_with s p = (length p \<le> length s \<and> drop (length s - length p) s = p)"

fun str_contains :: "string \<Rightarrow> string \<Rightarrow> bool" where
  "str_contains [] p = (p = [])"
| "str_contains (c # cs) p = (starts_with (c # cs) p \<or> str_contains cs p)"

definition strip_prefix :: "string \<Rightarrow> string \<Rightarrow> string option" where
  "strip_prefix s p = (if starts_with s p then Some (drop (length p) s) else None)"

text \<open>\<^verbatim>\<open>str::lines\<close>: lines end with a newline, a carriage return before it is dropped, and the empty
  rest after a final newline is no line.\<close>

definition strip_cr :: "string \<Rightarrow> string" where
  "strip_cr s = (if s \<noteq> [] \<and> last s = CHR 0x0D then butlast s else s)"

definition str_lines :: "string \<Rightarrow> string list" where
  "str_lines s =
     (let ws = split_on CHR 0x0A s
      in map strip_cr (butlast ws) @ (if last ws = [] then [] else [last ws]))"

text \<open>\<^verbatim>\<open>split_whitespace\<close>: the maximal runs of other characters.\<close>

fun split_ws :: "string \<Rightarrow> string \<Rightarrow> string list" where
  "split_ws acc [] = (if acc = [] then [] else [rev acc])"
| "split_ws acc (c # cs) =
     (if is_ws c then (if acc = [] then split_ws [] cs else rev acc # split_ws [] cs)
      else split_ws (c # acc) cs)"

definition split_whitespace :: "string \<Rightarrow> string list" where
  "split_whitespace s = split_ws [] s"

definition trim_matches :: "char \<Rightarrow> string \<Rightarrow> string" where
  "trim_matches c s = rev (dropWhile ((=) c) (rev (dropWhile ((=) c) s)))"

definition to_upper_char :: "char \<Rightarrow> char" where
  "to_upper_char c = (let n = (of_char c :: nat) in if 97 \<le> n \<and> n \<le> 122 then char_of (n - 32) else c)"

definition to_uppercase :: "string \<Rightarrow> string" where
  "to_uppercase s = map to_upper_char s"

definition eq_ignore_ascii_case :: "string \<Rightarrow> string \<Rightarrow> bool" where
  "eq_ignore_ascii_case s t = (to_lowercase s = to_lowercase t)"

text \<open>Collecting an iterator of results: the first error wins.\<close>

fun collect_results :: "('a \<Rightarrow> ('e, 'b) result) \<Rightarrow> 'a list \<Rightarrow> ('e, 'b list) result" where
  "collect_results f [] = Inr []"
| "collect_results f (x # xs) =
     (case f x of
        Inl e \<Rightarrow> Inl e
      | Inr y \<Rightarrow> (case collect_results f xs of Inl e \<Rightarrow> Inl e | Inr ys \<Rightarrow> Inr (y # ys)))"

text \<open>\<^verbatim>\<open>split_once\<close>, and \<^verbatim>\<open>splitn(2, ..)\<close> with exactly two parts.\<close>

fun split_once :: "char \<Rightarrow> string \<Rightarrow> (string \<times> string) option" where
  "split_once d [] = None"
| "split_once d (c # cs) =
     (if c = d then Some ([], cs) else map_option (\<lambda>(a, b). (c # a, b)) (split_once d cs))"

definition is_digit :: "char \<Rightarrow> bool" where
  "is_digit c = (let n = (of_char c :: nat) in 48 \<le> n \<and> n \<le> 57)"

definition digit_char :: "nat \<Rightarrow> char" where
  "digit_char n = char_of (if n < 10 then 48 + n else 87 + n)"

fun show_nat_base :: "nat \<Rightarrow> nat \<Rightarrow> string" where
  "show_nat_base b n =
     (if b < 2 \<or> n < b then [digit_char n] else show_nat_base b (n div b) @ [digit_char (n mod b)])"

declare show_nat_base.simps [simp del]

definition show_nat :: "nat \<Rightarrow> string" where
  "show_nat n = show_nat_base 10 n"

definition digits_value :: "string \<Rightarrow> nat" where
  "digits_value s = foldl (\<lambda>acc c. 10 * acc + (of_char c - 48)) 0 s"

text \<open>\<^verbatim>\<open>str::parse\<close> for an unsigned integer type with maximal value \<^term>\<open>m\<close>: an optional plus
  sign, then at least one digit, and no overflow.\<close>

definition parse_uint :: "nat \<Rightarrow> string \<Rightarrow> nat option" where
  "parse_uint m s =
     (let ds = (case s of c # cs \<Rightarrow> if c = CHR ''+'' then cs else s | [] \<Rightarrow> [])
      in if ds \<noteq> [] \<and> list_all is_digit ds \<and> digits_value ds \<le> m then Some (digits_value ds)
         else None)"

section \<open>UTF-8\<close>

definition cont_byte :: "byte \<Rightarrow> bool" where
  "cont_byte b = (128 \<le> b \<and> b \<le> 191)"

text \<open>The validation of \<^verbatim>\<open>String::from_utf8\<close>: the well-formed sequences of the Unicode standard,
  without overlong forms and surrogates.\<close>

fun valid_utf8 :: "byte list \<Rightarrow> bool" where
  "valid_utf8 [] = True"
| "valid_utf8 (a # bs) =
     (if a < 128 then valid_utf8 bs
      else if 194 \<le> a \<and> a \<le> 223 then
        (case bs of b # r \<Rightarrow> cont_byte b \<and> valid_utf8 r | _ \<Rightarrow> False)
      else if 224 \<le> a \<and> a \<le> 239 then
        (case bs of b # c # r \<Rightarrow>
            cont_byte b \<and> cont_byte c \<and> (a = 224 \<longrightarrow> 160 \<le> b) \<and> (a = 237 \<longrightarrow> b \<le> 159) \<and> valid_utf8 r
         | _ \<Rightarrow> False)
      else if 240 \<le> a \<and> a \<le> 244 then
        (case bs of b # c # d # r \<Rightarrow>
            cont_byte b \<and> cont_byte c \<and> cont_byte d \<and> (a = 240 \<longrightarrow> 144 \<le> b) \<and> (a = 244 \<longrightarrow> b \<le> 143)
            \<and> valid_utf8 r
         | _ \<Rightarrow> False)
      else False)"

definition as_bytes :: "string \<Rightarrow> byte list" where
  "as_bytes s = map (\<lambda>c. word_of_nat (of_char c)) s"

definition from_utf8 :: "byte list \<Rightarrow> string option" where
  "from_utf8 bs = (if valid_utf8 bs then Some (map (\<lambda>b. char_of (unat b)) bs) else None)"

section \<open>Byte order\<close>

fun to_be :: "nat \<Rightarrow> 'a::len word \<Rightarrow> byte list" where
  "to_be 0 w = []"
| "to_be (Suc n) w = to_be n (drop_bit 8 w) @ [ucast w]"

definition from_be :: "byte list \<Rightarrow> 'a::len word" where
  "from_be bs = foldl (\<lambda>acc b. push_bit 8 acc OR ucast b) 0 bs"

definition to_le :: "nat \<Rightarrow> 'a::len word \<Rightarrow> byte list" where
  "to_le n w = rev (to_be n w)"

definition from_le :: "byte list \<Rightarrow> 'a::len word" where
  "from_le bs = from_be (rev bs)"

text \<open>The bits of a byte, most significant first.\<close>

definition byte_bits :: "byte \<Rightarrow> bool list" where
  "byte_bits b = map (bit b) (rev [0..<8])"

section \<open>Hash maps\<close>

text \<open>A hash map is an association list with distinct keys; \<^const>\<open>AList.update\<close> replaces in place
  or appends.  Where the code iterates over a map the order of the list is one of the orders the
  code may see.\<close>

definition hm_get :: "('k, 'v) hashmap \<Rightarrow> 'k \<Rightarrow> 'v option" where
  "hm_get m k = map_of m k"

definition hm_insert :: "'k \<Rightarrow> 'v \<Rightarrow> ('k, 'v) hashmap \<Rightarrow> ('k, 'v) hashmap" where
  "hm_insert k v m = AList.update k v m"

definition hm_remove :: "'k \<Rightarrow> ('k, 'v) hashmap \<Rightarrow> ('k, 'v) hashmap" where
  "hm_remove k m = filter (\<lambda>e. fst e \<noteq> k) m"

definition hm_retain :: "('k \<Rightarrow> 'v \<Rightarrow> bool) \<Rightarrow> ('k, 'v) hashmap \<Rightarrow> ('k, 'v) hashmap" where
  "hm_retain P m = filter (\<lambda>(k, v). P k v) m"

definition hm_wf :: "('k, 'v) hashmap \<Rightarrow> bool" where
  "hm_wf m = distinct (map fst m)"

section \<open>Options\<close>

text \<open>The accumulation \<^verbatim>\<open>acc.map(|cur| cur.min(v)).unwrap_or(v)\<close>.\<close>

fun omin :: "nat option \<Rightarrow> nat option \<Rightarrow> nat option" where
  "omin None y = y"
| "omin (Some x) None = Some x"
| "omin (Some x) (Some y) = Some (min x y)"

section \<open>Contracts\<close>

text \<open>A finite map as its clients see it.\<close>

locale finite_table =
  fixes get :: "'m \<Rightarrow> 'k \<Rightarrow> 'v option"
    and ins :: "'k \<Rightarrow> 'v \<Rightarrow> 'm \<Rightarrow> 'm"
    and del :: "'k \<Rightarrow> 'm \<Rightarrow> 'm"
    and size_of :: "'m \<Rightarrow> nat"
    and wf :: "'m \<Rightarrow> bool"
  assumes get_ins: "get (ins k v m) k' = (if k' = k then Some v else get m k')"
    and get_del: "wf m \<Longrightarrow> get (del k m) k' = (if k' = k then None else get m k')"
    and wf_ins: "wf m \<Longrightarrow> wf (ins k v m)"
    and wf_del: "wf m \<Longrightarrow> wf (del k m)"
    and size_ins: "wf m \<Longrightarrow> size_of (ins k v m) = (if get m k = None then Suc (size_of m) else size_of m)"
    and size_del: "wf m \<Longrightarrow> size_of (del k m) = (if get m k = None then size_of m else size_of m - 1)"
    and size_pos: "get m k \<noteq> None \<Longrightarrow> 0 < size_of m"
begin

lemma ins_fresh_del:
  "wf m \<Longrightarrow> get m k = None \<Longrightarrow> get (del k (ins k v m)) = get m"
  by (rule ext) (simp add: get_del get_ins wf_ins)

lemma ins_commute:
  "k \<noteq> k' \<Longrightarrow> get (ins k v (ins k' v' m)) = get (ins k' v' (ins k v m))"
  by (rule ext) (auto simp: get_ins)

lemma size_replace:
  "wf m \<Longrightarrow> get m k \<noteq> None \<Longrightarrow> size_of (ins k v (del k m)) = size_of m"
  using size_pos [of m k] by (simp add: size_ins size_del get_del wf_del)

lemma size_ins_le:
  "wf m \<Longrightarrow> size_of (ins k v m) \<le> Suc (size_of m)"
  by (simp add: size_ins)

end

text \<open>A fixed-width codec: every value is encoded by \<^term>\<open>width\<close> bytes and decoded from them.\<close>

locale fixed_codec =
  fixes enc :: "'a \<Rightarrow> byte list"
    and dec :: "byte list \<Rightarrow> 'a"
    and width :: nat
  assumes enc_width: "length (enc x) = width"
    and dec_enc: "dec (enc x) = x"
    and enc_dec: "length bs = width \<Longrightarrow> enc (dec bs) = bs"
begin

lemma dec_take_enc: "dec (take width (enc x @ r)) = x"
  by (simp add: enc_width dec_enc)

lemma drop_enc: "drop width (enc x @ r) = r"
  by (simp add: enc_width)

lemma enc_inj: "enc x = enc y \<longleftrightarrow> x = y"
  by (metis dec_enc)

end

text \<open>A component whose operations are given as a labelled transition function: an invariant of
  the initial state that every operation keeps holds after every sequence of operations.\<close>

locale preserved =
  fixes apply_op :: "'op \<Rightarrow> 's \<Rightarrow> 's"
    and inv :: "'s \<Rightarrow> bool"
  assumes step_inv: "inv s \<Longrightarrow> inv (apply_op x s)"
begin

lemma run_inv: "inv s \<Longrightarrow> inv (fold apply_op xs s)"
  by (induction xs arbitrary: s) (simp_all add: step_inv)

end

section \<open>Lemmas\<close>

subsection \<open>Hash maps\<close>

lemma hm_get_Nil [simp]: "hm_get [] k = None"
  by (simp add: hm_get_def)

lemma hm_get_insert [simp, hm_simps]:
  "hm_get (hm_insert k v m) k' = (if k' = k then Some v else hm_get m k')"
  by (simp add: hm_get_def hm_insert_def update_conv')

lemma hm_insert_same [simp]: "hm_get m k = Some v \<Longrightarrow> hm_insert k v m = m"
  unfolding hm_get_def hm_insert_def by (induction m) (auto split: if_splits)

lemma hm_get_filter:
  "hm_wf m \<Longrightarrow> hm_get (filter (\<lambda>(k, v). P k v) m) k =
     (case hm_get m k of Some v \<Rightarrow> if P k v then Some v else None | None \<Rightarrow> None)"
  unfolding hm_get_def hm_wf_def
  by (induction m) (auto split: option.splits simp: map_of_eq_None_iff image_iff)

lemma hm_get_retain [hm_simps]:
  "hm_wf m \<Longrightarrow> hm_get (hm_retain P m) k =
     (case hm_get m k of Some v \<Rightarrow> if P k v then Some v else None | None \<Rightarrow> None)"
  unfolding hm_retain_def by (rule hm_get_filter)

lemma hm_get_remove [simp, hm_simps]:
  "hm_get (hm_remove k m) k' = (if k' = k then None else hm_get m k')"
  unfolding hm_get_def hm_remove_def by (induction m) auto

lemma hm_remove_absent [simp]: "k \<notin> fst ` set m \<Longrightarrow> hm_remove k m = m"
  unfolding hm_remove_def by (rule filter_True) auto

lemma hm_wf_Nil [simp]: "hm_wf []"
  by (simp add: hm_wf_def)

lemma hm_wf_insert [simp, intro, inv_intros]: "hm_wf m \<Longrightarrow> hm_wf (hm_insert k v m)"
  by (simp add: hm_wf_def hm_insert_def distinct_update)

lemma hm_wf_filter [simp, intro, inv_intros]: "hm_wf m \<Longrightarrow> hm_wf (filter P m)"
  unfolding hm_wf_def by (rule distinct_map_filter)

lemma hm_wf_remove [simp, intro, inv_intros]: "hm_wf m \<Longrightarrow> hm_wf (hm_remove k m)"
  by (simp add: hm_remove_def hm_wf_filter)

lemma hm_wf_retain [simp, intro, inv_intros]: "hm_wf m \<Longrightarrow> hm_wf (hm_retain P m)"
  by (simp add: hm_retain_def hm_wf_filter)

lemma hm_get_eq_None: "hm_get m k = None \<longleftrightarrow> k \<notin> fst ` set m"
  by (simp add: hm_get_def map_of_eq_None_iff)

lemma hm_get_SomeD: "hm_get m k = Some v \<Longrightarrow> (k, v) \<in> set m"
  by (simp add: hm_get_def map_of_SomeD)

lemma hm_get_in_set: "hm_wf m \<Longrightarrow> (k, v) \<in> set m \<longleftrightarrow> hm_get m k = Some v"
  by (simp add: hm_get_def hm_wf_def)

lemma hm_length_insert:
  "length (hm_insert k v m) = (if hm_get m k = None then Suc (length m) else length m)"
  unfolding hm_insert_def hm_get_def by (induction m) (auto simp: map_of_eq_None_iff)

lemma hm_length_remove:
  "hm_wf m \<Longrightarrow> length (hm_remove k m) = (if hm_get m k = None then length m else length m - 1)"
proof (induction m)
  case (Cons e m)
  have "hm_get m (fst e) = None"
    using Cons.prems by (simp add: hm_get_eq_None hm_wf_def)
  moreover have "hm_get m k \<noteq> None \<Longrightarrow> 0 < length m"
    by (cases m) simp_all
  ultimately show ?case
    using Cons by (cases e) (auto simp: hm_remove_def hm_get_def hm_wf_def)
qed (simp add: hm_remove_def)

lemma hm_get_map_values: "hm_get (map (\<lambda>(k, v). (k, f v)) m) k = map_option f (hm_get m k)"
  by (simp add: hm_get_def map_of_map)

lemma hm_wf_map_values: "hm_wf (map (\<lambda>(k, v). (k, f v)) m) = hm_wf m"
  by (simp add: hm_wf_def comp_def case_prod_unfold)

text \<open>The entries of a map as a multiset: an insertion replaces the entry of its key.\<close>

lemma hm_mset_get: "hm_wf m \<Longrightarrow> hm_get m k = Some v \<Longrightarrow> mset m = add_mset (k, v) (mset (hm_remove k m))"
proof (induction m)
  case (Cons e m)
  show ?case
  proof (cases "fst e = k")
    case True
    with Cons.prems have "hm_remove k m = m" "e = (k, v)"
      by (cases e, auto simp: hm_wf_def hm_get_def)+
    then show ?thesis by (simp add: hm_remove_def)
  qed (use Cons in \<open>auto simp: hm_wf_def hm_get_def hm_remove_def add_mset_commute\<close>)
qed simp

lemma hm_remove_insert: "hm_remove k (hm_insert k v m) = hm_remove k m"
  unfolding hm_remove_def hm_insert_def by (induction m) auto

lemma hm_mset_insert: "hm_wf m \<Longrightarrow> mset (hm_insert k v m) = add_mset (k, v) (mset (hm_remove k m))"
  using hm_mset_get [of "hm_insert k v m" k v] by (simp add: hm_remove_insert)

interpretation hm: finite_table hm_get hm_insert hm_remove length hm_wf
proof (unfold_locales, goal_cases)
  case (7 m k)
  then show ?case by (cases m) simp_all
qed (simp_all add: hm_length_insert hm_length_remove)

subsection \<open>Byte order\<close>

lemma length_to_be [simp, codec_simps]: "length (to_be n w) = n"
  by (induction n w rule: to_be.induct) simp_all

lemma from_be_Nil [simp]: "from_be [] = 0"
  by (simp add: from_be_def)

lemma from_be_snoc: "from_be (bs @ [b]) = push_bit 8 (from_be bs) OR ucast b"
  by (simp add: from_be_def)

lemma from_be_to_be_take:
  fixes w :: "'a::len word"
  shows "from_be (to_be n w) = take_bit (8 * n) w"
proof (induction n w rule: to_be.induct)
  case (2 n w)
  show ?case
    unfolding to_be.simps from_be_snoc "2.IH"
    by (rule bit_word_eqI) (auto simp: bit_simps)
qed simp

lemma from_be_to_be [codec_simps]:
  fixes w :: "'a::len word"
  shows "LENGTH('a) \<le> 8 * n \<Longrightarrow> from_be (to_be n w) = w"
  by (simp add: from_be_to_be_take take_bit_word_eq_self)

lemma bit_from_be_bound:
  "bit (from_be bs :: 'a::len word) i \<Longrightarrow> i < 8 * length bs"
proof (induction bs arbitrary: i rule: rev_induct)
  case (snoc b bs)
  show ?case
  proof (cases "i < 8")
    case False
    with snoc.prems have "bit (from_be bs :: 'a word) (i - 8)"
      by (auto simp: from_be_snoc bit_simps dest: bit_imp_le_length)
    from snoc.IH [OF this] False show ?thesis by simp
  qed simp
qed simp

lemma to_be_from_be [codec_simps]:
  "8 * length bs \<le> LENGTH('a) \<Longrightarrow> to_be (length bs) (from_be bs :: 'a::len word) = bs"
proof (induction bs rule: rev_induct)
  case (snoc b bs)
  have "drop_bit 8 (push_bit 8 (from_be bs) OR ucast b) = (from_be bs :: 'a word)"
  proof (rule bit_word_eqI)
    fix i assume "i < LENGTH('a)"
    show "bit (drop_bit 8 (push_bit 8 (from_be bs) OR ucast b) :: 'a word) i = bit (from_be bs :: 'a word) i"
      using snoc.prems bit_from_be_bound [of bs i, where 'a = 'a]
      by (auto simp: bit_simps dest: bit_imp_le_length)
  qed
  moreover have "ucast (push_bit 8 (from_be bs) OR ucast b :: 'a word) = b"
    using snoc.prems by (intro bit_word_eqI) (auto simp: bit_simps)
  ultimately show ?case
    using snoc by (simp add: from_be_snoc)
qed simp

interpretation be16: fixed_codec "to_be 2 :: u16 \<Rightarrow> byte list" from_be 2
proof (unfold_locales, goal_cases)
  case (3 bs)
  then show ?case using to_be_from_be [of bs, where 'a = 16] by simp
qed (simp_all add: from_be_to_be)

interpretation be32: fixed_codec "to_be 4 :: u32 \<Rightarrow> byte list" from_be 4
proof (unfold_locales, goal_cases)
  case (3 bs)
  then show ?case using to_be_from_be [of bs, where 'a = 32] by simp
qed (simp_all add: from_be_to_be)

interpretation be128: fixed_codec "to_be 16 :: u128 \<Rightarrow> byte list" from_be 16
proof (unfold_locales, goal_cases)
  case (3 bs)
  then show ?case using to_be_from_be [of bs, where 'a = 128] by simp
qed (simp_all add: from_be_to_be)

interpretation le32: fixed_codec "to_le 4 :: u32 \<Rightarrow> byte list" from_le 4
proof (unfold_locales, goal_cases)
  case (3 bs)
  then show ?case
    using be32.enc_dec [of "rev bs"] by (simp add: to_le_def from_le_def)
qed (simp_all add: to_le_def from_le_def from_be_to_be)

subsection \<open>Strings\<close>

lemma as_bytes_Nil [simp]: "as_bytes [] = []"
  by (simp add: as_bytes_def)

lemma length_as_bytes [simp, codec_simps]: "length (as_bytes s) = length s"
  by (simp add: as_bytes_def)

lemma unat_of_char [simp]: "unat (word_of_nat (of_char c) :: byte) = of_char c"
  by (simp add: unat_of_nat)

lemma from_utf8_as_bytes [codec_simps]:
  "valid_utf8 (as_bytes s) \<Longrightarrow> from_utf8 (as_bytes s) = Some s"
  by (simp add: from_utf8_def as_bytes_def comp_def)

lemma unat_byte_less [simp]: "unat (b :: byte) < 256"
  using unsigned_less [of b, where 'a = nat] by simp

lemma unat_byte_le [simp]: "unat (b :: byte) \<le> 255"
  using unat_byte_less [of b] by (simp del: unat_byte_less)

lemma unat_byte_mod [simp]: "unat (b :: byte) mod 256 = unat b"
  by (rule mod_less) simp

lemma from_utf8_Some:
  "from_utf8 bs = Some d \<Longrightarrow> as_bytes d = bs \<and> length d = length bs \<and> valid_utf8 bs"
  by (auto simp: from_utf8_def as_bytes_def comp_def split: if_splits)

lemma split_on_not_Nil [simp]: "split_on d s \<noteq> []"
  by (induction s) (auto split: list.splits)

lemma join_split_on [str_simps]: "join_with [d] (split_on d s) = s"
proof (induction s)
  case (Cons c cs)
  then show ?case
    by (cases "split_on d cs" rule: list.exhaust)
       (auto split: list.splits, metis append_Cons join_with.simps(2,3) neq_Nil_conv)
qed simp

lemma split_on_no_sep: "w \<in> set (split_on d s) \<Longrightarrow> d \<notin> set w"
  by (induction s arbitrary: w) (auto split: list.splits if_splits)

lemma to_lowercase_length [simp]: "length (to_lowercase s) = length s"
  by (simp add: to_lowercase_def)

lemma starts_with_prefix: "starts_with s p \<longleftrightarrow> prefix p s"
proof
  assume "starts_with s p"
  then have "s = p @ drop (length p) s"
    by (metis append_take_drop_id starts_with_def)
  then show "prefix p s" by (rule prefixI)
qed (auto simp: starts_with_def prefix_def)

lemma ends_with_suffix: "ends_with s p \<longleftrightarrow> suffix p s"
proof
  assume "ends_with s p"
  then have "s = take (length s - length p) s @ p"
    by (metis append_take_drop_id ends_with_def)
  then show "suffix p s" by (rule suffixI)
qed (auto simp: ends_with_def suffix_def)

lemma str_contains_sublist: "str_contains s p \<longleftrightarrow> sublist p s"
  by (induction s) (auto simp: starts_with_prefix sublist_Cons_right)

lemma collect_results_cong [fundef_cong]:
  "xs = ys \<Longrightarrow> (\<And>x. x \<in> set ys \<Longrightarrow> f x = g x) \<Longrightarrow> collect_results f xs = collect_results g ys"
proof (induction xs arbitrary: ys)
  case (Cons x xs)
  from Cons.IH [of xs] Cons.prems show ?case by (auto split: sum.splits)
qed simp

lemma collect_results_ok:
  "collect_results f xs = Inr ys \<longleftrightarrow> list_all2 (\<lambda>x y. f x = Inr y) xs ys"
proof (induction xs arbitrary: ys)
  case (Cons x xs)
  show ?case
    by (auto simp: list_all2_Cons1 Cons.IH [symmetric] split: sum.splits)
qed auto

subsection \<open>Lists\<close>

lemma find_snoc:
  "find P (xs @ [x]) = (case find P xs of Some y \<Rightarrow> Some y | None \<Rightarrow> if P x then Some x else None)"
  by (induction xs) simp_all

lemma find_filter: "find P (filter Q xs) = find (\<lambda>x. Q x \<and> P x) xs"
  by (induction xs) simp_all

lemma find_in_set: "find P xs = Some x \<Longrightarrow> x \<in> set xs \<and> P x"
  by (induction xs) (auto split: if_splits)

subsection \<open>Options\<close>

lemma omin_None_right [simp]: "omin x None = x"
  by (cases x) simp_all

lemma omin_assoc: "omin (omin x y) z = omin x (omin y z)"
  by (cases x; cases y; cases z) (simp_all add: min.assoc)

lemma omin_commute: "omin x y = omin y x"
  by (cases x; cases y) (simp_all add: min.commute)

lemma omin_eq_None [simp]: "omin x y = None \<longleftrightarrow> x = None \<and> y = None"
  by (cases x; cases y) simp_all

end
