(* ===== verification/Addr.thy ===== *)
theory Addr
  imports OW_Prelude
begin

text \<open>
  Target addresses, \<^verbatim>\<open>src/src/common/addr.rs\<close>: the type \<^verbatim>\<open>Address\<close>, its SOCKS5 and VLESS
  encodings, the two SOCKS5 decoders, the textual forms and the resolution with an optional
  custom resolver.  The IP address types of the standard library are words, their octets are the
  big-endian bytes, and their \<^verbatim>\<open>Display\<close> instances are written out (for IPv6 with the zero-run
  compression).  The lemmas show that the decoder inverts the encoder and accepts nothing else.
\<close>

section \<open>Definitions\<close>

datatype ip_addr = V4 u32 | V6 u128

text \<open>\<^verbatim>\<open>SocketAddrV6\<close> carries a flow label and a scope id besides address and port.\<close>

datatype socket_addr = SockV4 u32 u16 | SockV6 u128 u16 u32 u32

datatype address = Ip socket_addr | Domain string u16

datatype addr_error =
    EmptyData
  | InsufficientData byte
  | InvalidUtf8
  | UnsupportedAtyp byte
  | InvalidLength byte
  | ResolverError string
  | ResolutionFailed string u16

definition v4_octets :: "u32 \<Rightarrow> byte list" where
  "v4_octets a = to_be 4 a"

definition v6_octets :: "u128 \<Rightarrow> byte list" where
  "v6_octets a = to_be 16 a"

definition sock_new :: "ip_addr \<Rightarrow> u16 \<Rightarrow> socket_addr" where
  "sock_new ip p = (case ip of V4 a \<Rightarrow> SockV4 a p | V6 a \<Rightarrow> SockV6 a p 0 0)"

fun sock_ip :: "socket_addr \<Rightarrow> ip_addr" where
  "sock_ip (SockV4 a _) = V4 a"
| "sock_ip (SockV6 a _ _ _) = V6 a"

fun sock_port :: "socket_addr \<Rightarrow> u16" where
  "sock_port (SockV4 _ p) = p"
| "sock_port (SockV6 _ p _ _) = p"

fun port :: "address \<Rightarrow> u16" where
  "port (Ip a) = sock_port a"
| "port (Domain _ p) = p"

subsection \<open>Textual forms\<close>

definition show_byte :: "byte \<Rightarrow> string" where
  "show_byte b = show_nat (unat b)"

definition show_v4 :: "u32 \<Rightarrow> string" where
  "show_v4 a = join_with ''.'' (map show_byte (v4_octets a))"

fun be_pairs :: "byte list \<Rightarrow> nat list" where
  "be_pairs (a # b # r) = (256 * unat a + unat b) # be_pairs r"
| "be_pairs _ = []"

definition v6_segments :: "u128 \<Rightarrow> nat list" where
  "v6_segments a = be_pairs (v6_octets a)"

text \<open>The scan for the longest run of zero segments: index, current run, longest run so far.\<close>

fun zero_span :: "nat \<Rightarrow> nat \<times> nat \<Rightarrow> nat \<times> nat \<Rightarrow> nat list \<Rightarrow> nat \<times> nat" where
  "zero_span i cur best [] = best"
| "zero_span i (cs, cl) (bs, bl) (x # xs) =
     (if x = 0 then
        (let cs' = (if cl = 0 then i else cs); cl' = Suc cl
         in zero_span (Suc i) (cs', cl') (if cl' > bl then (cs', cl') else (bs, bl)) xs)
      else zero_span (Suc i) (0, 0) (bs, bl) xs)"

definition show_segments :: "nat list \<Rightarrow> string" where
  "show_segments xs = join_with '':'' (map (show_nat_base 16) xs)"

definition show_v6 :: "u128 \<Rightarrow> string" where
  "show_v6 a =
     (let segs = v6_segments a in
      if take 6 segs = [0, 0, 0, 0, 0, 65535] then
        ''::ffff:'' @ join_with ''.'' (map show_byte (drop 12 (v6_octets a)))
      else (case zero_span 0 (0, 0) (0, 0) segs of (start, len) \<Rightarrow>
        if len > 1 then show_segments (take start segs) @ ''::'' @ show_segments (drop (start + len) segs)
        else show_segments segs))"

fun show_ip :: "ip_addr \<Rightarrow> string" where
  "show_ip (V4 a) = show_v4 a"
| "show_ip (V6 a) = show_v6 a"

fun show_sock :: "socket_addr \<Rightarrow> string" where
  "show_sock (SockV4 a p) = show_v4 a @ '':'' @ show_nat (unat p)"
| "show_sock (SockV6 a p _ scope) =
     ''['' @ show_v6 a @ (if scope = 0 then [] else ''%'' @ show_nat (unat scope)) @ '']:'' @ show_nat (unat p)"

fun host :: "address \<Rightarrow> string" where
  "host (Ip a) = show_ip (sock_ip a)"
| "host (Domain d _) = d"

fun to_hysteria2_addr_string :: "address \<Rightarrow> string" where
  "to_hysteria2_addr_string (Ip a) = show_sock a"
| "to_hysteria2_addr_string (Domain d p) = d @ '':'' @ show_nat (unat p)"

fun show_address :: "address \<Rightarrow> string" where
  "show_address (Ip a) = show_sock a"
| "show_address (Domain d p) = d @ '':'' @ show_nat (unat p)"

subsection \<open>Encoders\<close>

text \<open>\<^verbatim>\<open>domain.len() as u8\<close> keeps the low eight bits of the length.\<close>

fun encode_vless :: "address \<Rightarrow> byte list \<Rightarrow> byte list" where
  "encode_vless (Ip (SockV4 a _)) buf = buf @ [1] @ v4_octets a"
| "encode_vless (Ip (SockV6 a _ _ _)) buf = buf @ [3] @ v6_octets a"
| "encode_vless (Domain d _) buf = buf @ [2, word_of_nat (length d)] @ as_bytes d"

fun encode_socks5 :: "address \<Rightarrow> byte list \<Rightarrow> byte list" where
  "encode_socks5 (Ip (SockV4 a p)) buf = buf @ [1] @ v4_octets a @ to_be 2 p"
| "encode_socks5 (Ip (SockV6 a p _ _)) buf = buf @ [4] @ v6_octets a @ to_be 2 p"
| "encode_socks5 (Domain d p) buf = buf @ [3, word_of_nat (length d)] @ as_bytes d @ to_be 2 p"

subsection \<open>Decoders\<close>

definition parse_socks5_udp_addr :: "byte list \<Rightarrow> (addr_error, address \<times> nat) result" where
  "parse_socks5_udp_addr data =
     (case data of
        [] \<Rightarrow> Inl EmptyData
      | atyp # _ \<Rightarrow>
        if atyp = 1 then
          if length data < 7 then Inl (InsufficientData 1)
          else Inr (Ip (sock_new (V4 (from_be (take 4 (drop 1 data)))) (from_be [data ! 5, data ! 6])), 7)
        else if atyp = 3 then
          if length data < 2 then Inl (InsufficientData 3)
          else let domain_len = unat (data ! 1); total = 2 + domain_len + 2 in
            if length data < total then Inl (InsufficientData 3)
            else (case from_utf8 (take domain_len (drop 2 data)) of
                None \<Rightarrow> Inl InvalidUtf8
              | Some d \<Rightarrow> Inr (Domain d (from_be [data ! (2 + domain_len), data ! (3 + domain_len)]), total))
        else if atyp = 4 then
          if length data < 19 then Inl (InsufficientData 4)
          else Inr (Ip (sock_new (V6 (from_be (take 16 (drop 1 data)))) (from_be [data ! 17, data ! 18])), 19)
        else Inl (UnsupportedAtyp atyp))"

definition from_socks5 :: "byte \<Rightarrow> byte list \<Rightarrow> u16 \<Rightarrow> (addr_error, address) result" where
  "from_socks5 atyp data p =
     (if atyp = 1 then
        if length data < 4 then Inl (InvalidLength 1)
        else Inr (Ip (sock_new (V4 (from_be (take 4 data))) p))
      else if atyp = 3 then
        (case from_utf8 data of None \<Rightarrow> Inl InvalidUtf8 | Some d \<Rightarrow> Inr (Domain d p))
      else if atyp = 4 then
        if length data < 16 then Inl (InvalidLength 4)
        else Inr (Ip (sock_new (V6 (from_be (take 16 data))) p))
      else Inl (UnsupportedAtyp atyp))"

subsection \<open>Resolution\<close>

text \<open>\<^term>\<open>os\<close> is the operating system's resolver (\<^verbatim>\<open>to_socket_addrs\<close>), \<^term>\<open>resolver\<close> the
  custom one; both are parameters.\<close>

definition resolve_with ::
  "(string \<Rightarrow> (string, socket_addr list) result) \<Rightarrow> (string \<Rightarrow> (string, ip_addr list) result) option
     \<Rightarrow> address \<Rightarrow> (addr_error, socket_addr) result" where
  "resolve_with os resolver addr =
     (case addr of
        Ip a \<Rightarrow> Inr a
      | Domain d p \<Rightarrow>
        (case resolver of
           Some r \<Rightarrow>
             (case r d of
                Inl e \<Rightarrow> Inl (ResolverError e)
              | Inr [] \<Rightarrow> Inl (ResolutionFailed d p)
              | Inr (ip # _) \<Rightarrow> Inr (sock_new ip p))
         | None \<Rightarrow>
             (case os (d @ '':'' @ show_nat (unat p)) of
                Inl e \<Rightarrow> Inl (ResolverError e)
              | Inr [] \<Rightarrow> Inl (ResolutionFailed d p)
              | Inr (s # _) \<Rightarrow> Inr s)))"

definition resolve ::
  "(string \<Rightarrow> (string, socket_addr list) result) \<Rightarrow> address \<Rightarrow> (addr_error, socket_addr) result" where
  "resolve os addr = resolve_with os None addr"

text \<open>The addresses the SOCKS5 format can carry: a domain is valid UTF-8 (as every Rust string
  is) of at most 255 bytes; the format has no room for an IPv6 flow label or scope.\<close>

fun socks5_encodable :: "address \<Rightarrow> bool" where
  "socks5_encodable (Ip (SockV4 _ _)) = True"
| "socks5_encodable (Ip (SockV6 _ _ fl sc)) = (fl = 0 \<and> sc = 0)"
| "socks5_encodable (Domain d _) = (length d \<le> 255 \<and> valid_utf8 (as_bytes d))"

section \<open>Lemmas\<close>

lemma length_v4_octets [simp, codec_simps]: "length (v4_octets a) = 4"
  by (simp add: v4_octets_def)

lemma length_v6_octets [simp, codec_simps]: "length (v6_octets a) = 16"
  by (simp add: v6_octets_def)

lemma from_be_v4_octets [simp, codec_simps]: "from_be (v4_octets a) = a"
  by (simp add: v4_octets_def be32.dec_enc)

lemma from_be_v6_octets [simp, codec_simps]: "from_be (v6_octets a) = a"
  by (simp add: v6_octets_def be128.dec_enc)

lemma v4_octets_from_be: "length bs = 4 \<Longrightarrow> v4_octets (from_be bs) = bs"
  by (simp add: v4_octets_def be32.enc_dec)

lemma v6_octets_from_be: "length bs = 16 \<Longrightarrow> v6_octets (from_be bs) = bs"
  by (simp add: v6_octets_def be128.enc_dec)

text \<open>Reading a port at an offset: two bytes are a chunk of width two.\<close>

lemma nth_pair_take: "Suc n < length bs \<Longrightarrow> [bs ! n, bs ! Suc n] = take 2 (drop n bs)"
  by (simp add: Cons_nth_drop_Suc [symmetric] numeral_2_eq_2 Suc_lessD)

lemma port_at_offset:
  "length pre = n \<Longrightarrow> from_be [(pre @ to_be 2 p @ r) ! n, (pre @ to_be 2 p @ r) ! Suc n] = (p :: u16)"
  by (subst nth_pair_take) (simp_all add: be16.dec_enc)

lemma unat_length_byte: "length d \<le> 255 \<Longrightarrow> unat (word_of_nat (length d) :: byte) = length d"
  by (simp add: unat_of_nat)

lemma encode_socks5_append: "encode_socks5 a buf = buf @ encode_socks5 a []"
  by (cases "(a, buf)" rule: encode_socks5.cases) simp_all

lemma encode_vless_append: "encode_vless a buf = buf @ encode_vless a []"
  by (cases "(a, buf)" rule: encode_vless.cases) simp_all

lemma nth_port [simp]:
  "length pre = n \<Longrightarrow> from_be [(x # pre @ to_be 2 p @ r) ! Suc n, (x # pre @ to_be 2 p @ r) ! Suc (Suc n)] = (p :: u16)"
  using port_at_offset [of "x # pre" "Suc n" p r] by simp

lemma parse_encode_v4:
  "parse_socks5_udp_addr (encode_socks5 (Ip (SockV4 a p)) [] @ r) = Inr (Ip (SockV4 a p), 7)"
  using port_at_offset [of "1 # v4_octets a" 5 p r]
  by (simp add: parse_socks5_udp_addr_def sock_new_def numeral_eq_Suc [of "Num.num.One"])

lemma parse_encode_v6:
  "parse_socks5_udp_addr (encode_socks5 (Ip (SockV6 a p 0 0)) [] @ r) = Inr (Ip (SockV6 a p 0 0), 19)"
  using port_at_offset [of "4 # v6_octets a" 17 p r]
  by (simp add: parse_socks5_udp_addr_def sock_new_def)

lemma parse_encode_domain:
  assumes "length d \<le> 255" and "valid_utf8 (as_bytes d)"
  shows "parse_socks5_udp_addr (encode_socks5 (Domain d p) [] @ r) = Inr (Domain d p, 4 + length d)"
  using assms port_at_offset [of "[3, word_of_nat (length d)] @ as_bytes d" "2 + length d" p r]
  by (simp add: parse_socks5_udp_addr_def from_utf8_as_bytes unat_length_byte)

lemma parse_encode_socks5:
  "socks5_encodable a \<Longrightarrow>
     parse_socks5_udp_addr (encode_socks5 a [] @ r) = Inr (a, length (encode_socks5 a []))"
  by (cases a rule: socks5_encodable.cases)
     (simp_all only: parse_encode_v4 parse_encode_v6 parse_encode_domain socks5_encodable.simps, simp_all)

text \<open>What the decoder accepts is the encoding of what it returns: the converse direction.\<close>

lemma take_Suc_chunks:
  assumes "m + 2 < length bs"
  shows "take (m + 3) bs = take 1 bs @ take m (drop 1 bs) @ [bs ! (m + 1), bs ! (m + 2)]"
proof -
  have "take (1 + (m + 2)) bs = take 1 bs @ take m (drop 1 bs) @ take 2 (drop m (drop 1 bs))"
    by (simp only: take_add)
  moreover have "[bs ! (m + 1), bs ! (m + 2)] = take 2 (drop (m + 1) bs)"
    using nth_pair_take [of "m + 1" bs] assms by simp
  ultimately show ?thesis
    by (simp add: add.commute numeral_3_eq_3)
qed

lemma parse_sound_v4:
  "7 \<le> length data \<Longrightarrow> data ! 0 = 1 \<Longrightarrow>
     take 7 data = encode_socks5 (Ip (SockV4 (from_be (take 4 (drop 1 data))) (from_be [data ! 5, data ! 6]))) []"
  using take_Suc_chunks [of 4 data]
  by (cases data) (simp_all add: v4_octets_from_be be16.enc_dec)

lemma parse_sound_v6:
  "19 \<le> length data \<Longrightarrow> data ! 0 = 4 \<Longrightarrow>
     take 19 data = encode_socks5 (Ip (SockV6 (from_be (take 16 (drop 1 data))) (from_be [data ! 17, data ! 18]) 0 0)) []"
  using take_Suc_chunks [of 16 data]
  by (cases data) (simp_all add: v6_octets_from_be be16.enc_dec)

lemma parse_sound_domain:
  assumes "4 + unat (data ! 1) \<le> length data" and "data ! 0 = 3"
    and "from_utf8 (take (unat (data ! 1)) (drop 2 data)) = Some d"
  shows "take (4 + unat (data ! 1)) data =
     encode_socks5 (Domain d (from_be [data ! (2 + unat (data ! 1)), data ! (3 + unat (data ! 1))])) []"
proof -
  define n where "n = unat (data ! 1)"
  obtain x y r where data: "data = x # y # r"
    using assms(1) by (metis Suc_le_length_iff add.commute add_leD2 numeral_2_eq_2 numeral_Bit0)
  then have d: "as_bytes d = take n r" "length d = n" "n = unat y" "n + 2 \<le> length r"
    using assms from_utf8_Some [OF assms(3)] by (auto simp: n_def)
  have "take (n + 2) r = take n r @ [r ! n, r ! Suc n]"
    using d(4) nth_pair_take [of n r] by (simp only: take_add)
  moreover have "take (4 + n) data = x # y # take (n + 2) r"
    using data by (simp add: take_Cons')
  ultimately show ?thesis
    using assms(2) d data by (simp add: be16.enc_dec)
qed

lemma parse_sound:
  assumes "parse_socks5_udp_addr data = Inr (a, n)"
  shows "n \<le> length data \<and> take n data = encode_socks5 a [] \<and> socks5_encodable a"
proof (cases data)
  case (Cons x r)
  consider "x = 1" | "x = 3" | "x = 4" | "x \<noteq> 1 \<and> x \<noteq> 3 \<and> x \<noteq> 4" by blast
  then show ?thesis
  proof cases
    case 1
    then show ?thesis
      using assms Cons parse_sound_v4 [of data]
      by (auto simp: parse_socks5_udp_addr_def sock_new_def split: if_splits)
  next
    case 2
    with assms Cons obtain d where d: "from_utf8 (take (unat (data ! 1)) (drop 2 data)) = Some d"
      "4 + unat (data ! 1) \<le> length data" "n = 4 + unat (data ! 1)"
      "a = Domain d (from_be [data ! (2 + unat (data ! 1)), data ! (3 + unat (data ! 1))])"
      by (auto simp: parse_socks5_udp_addr_def Let_def not_less split: if_splits option.splits)
    then have "take n data = encode_socks5 a []"
      using parse_sound_domain [of data d] Cons 2 by simp
    moreover have "socks5_encodable a"
      using from_utf8_Some [OF d(1)] d(4) by (simp add: min.coboundedI2)
    ultimately show ?thesis
      using d by simp
  next
    case 3
    then show ?thesis
      using assms Cons parse_sound_v6 [of data]
      by (auto simp: parse_socks5_udp_addr_def sock_new_def split: if_splits)
  next
    case 4
    then show ?thesis
      using assms Cons by (simp add: parse_socks5_udp_addr_def)
  qed
qed (use assms in \<open>simp add: parse_socks5_udp_addr_def\<close>)

section \<open>Properties\<close>

text \<open>C3. Decoding is the inverse of encoding: for every address the SOCKS5 format can carry,
  \<^verbatim>\<open>parse_socks5_udp_addr\<close> applied to the encoding followed by any payload returns that address
  and exactly the number of bytes of the encoding, and applied to any proper prefix of the
  encoding it reports an error instead of a wrong address.\<close>

theorem socks5_round_trip:
  assumes "socks5_encodable a"
  shows "parse_socks5_udp_addr (encode_socks5 a [] @ payload) = Inr (a, length (encode_socks5 a [])) \<and>
     (\<forall>k < length (encode_socks5 a []). \<not> is_ok (parse_socks5_udp_addr (take k (encode_socks5 a []))))"
proof (intro conjI allI impI)
  show "parse_socks5_udp_addr (encode_socks5 a [] @ payload) = Inr (a, length (encode_socks5 a []))"
    by (rule parse_encode_socks5 [OF assms])
next
  fix k
  let ?e = "encode_socks5 a []"
  assume k: "k < length ?e"
  show "\<not> is_ok (parse_socks5_udp_addr (take k ?e))"
  proof
    assume "is_ok (parse_socks5_udp_addr (take k ?e))"
    then obtain b n where p: "parse_socks5_udp_addr (take k ?e) = Inr (b, n)"
      by (cases "parse_socks5_udp_addr (take k ?e)") auto
    from parse_sound [OF p] k have n: "n < length ?e" and b: "socks5_encodable b"
      and tb: "encode_socks5 b [] = take n ?e"
      by auto
    then have "?e = encode_socks5 b [] @ drop n ?e" and "length (encode_socks5 b []) \<noteq> length ?e"
      by simp_all
    with parse_encode_socks5 [OF b, of "drop n ?e"] parse_encode_socks5 [OF assms, of "[]"]
    show False by simp
  qed
qed

theorem socks5_round_trip_witness:
  "parse_socks5_udp_addr ([3, 4, 97, 46, 105, 111, 1, 187] @ [9, 9]) = Inr (Domain ''a.io'' 443, 8) \<and>
   \<not> is_ok (parse_socks5_udp_addr [3, 4, 97, 46, 105])"
proof -
  have enc: "encode_socks5 (Domain ''a.io'' 443) [] = [3, 4, 97, 46, 105, 111, 1, 187]"
    by code_simp
  have "socks5_encodable (Domain ''a.io'' 443)"
    by code_simp
  from socks5_round_trip [OF this, of "[9, 9]", unfolded enc] show ?thesis
    by (auto dest: spec [of _ 5])
qed

text \<open>The decoder accepts canonical encodings only: whenever it returns an address and a
  length, that many bytes were available and they are the SOCKS5 encoding of the returned address,
  which the format can carry.\<close>

theorem socks5_parse_sound:
  "parse_socks5_udp_addr data = Inr (a, n) \<Longrightarrow>
     n \<le> length data \<and> take n data = encode_socks5 a [] \<and> socks5_encodable a"
  by (rule parse_sound)

theorem socks5_parse_sound_witness:
  "take 7 [1, 8, 8, 4, 4, 0, 53, 255] = encode_socks5 (Ip (SockV4 134743044 53)) []"
  using socks5_parse_sound [of "[1, 8, 8, 4, 4, 0, 53, 255]" "Ip (SockV4 134743044 53)" 7]
  by code_simp

end
