(* ===== verification/IpNet.thy ===== *)
theory IpNet
  imports Addr
begin

text \<open>
  IP networks.  The type \<^verbatim>\<open>IpNet\<close> of the \<^verbatim>\<open>ipnet\<close> crate is modelled by its two accessors, the
  address as it was written and the prefix length.  Parsing and membership belong to the crate:
  the operations that need them take them as arguments, and \<^term>\<open>contains_spec\<close> states the
  documented behaviour of \<^verbatim>\<open>IpNet::contains\<close> (the address lies in the network: same family and the
  same first \<^verbatim>\<open>prefix_len\<close> bits).
\<close>

datatype ip_net = NetV4 u32 nat | NetV6 u128 nat

fun net_addr :: "ip_net \<Rightarrow> ip_addr" where
  "net_addr (NetV4 a _) = V4 a"
| "net_addr (NetV6 a _) = V6 a"

fun net_prefix_len :: "ip_net \<Rightarrow> nat" where
  "net_prefix_len (NetV4 _ n) = n"
| "net_prefix_len (NetV6 _ n) = n"

text \<open>The constructors of the crate reject longer prefixes.\<close>

fun net_wf :: "ip_net \<Rightarrow> bool" where
  "net_wf (NetV4 _ n) = (n \<le> 32)"
| "net_wf (NetV6 _ n) = (n \<le> 128)"

definition ipv4_net_new :: "u32 \<Rightarrow> nat \<Rightarrow> ip_net option" where
  "ipv4_net_new a n = (if n \<le> 32 then Some (NetV4 a n) else None)"

definition ipv6_net_new :: "u128 \<Rightarrow> nat \<Rightarrow> ip_net option" where
  "ipv6_net_new a n = (if n \<le> 128 then Some (NetV6 a n) else None)"

definition octets_to_bits :: "byte list \<Rightarrow> bool list" where
  "octets_to_bits bs = concat (map byte_bits bs)"

fun ip_bits :: "ip_addr \<Rightarrow> bool list" where
  "ip_bits (V4 a) = octets_to_bits (v4_octets a)"
| "ip_bits (V6 a) = octets_to_bits (v6_octets a)"

fun same_family :: "ip_addr \<Rightarrow> ip_addr \<Rightarrow> bool" where
  "same_family (V4 _) (V4 _) = True"
| "same_family (V6 _) (V6 _) = True"
| "same_family _ _ = False"

definition net_covers :: "ip_net \<Rightarrow> ip_addr \<Rightarrow> bool" where
  "net_covers net ip =
     (same_family (net_addr net) ip \<and>
      take (net_prefix_len net) (ip_bits (net_addr net)) = take (net_prefix_len net) (ip_bits ip))"

definition contains_spec :: "(ip_net \<Rightarrow> ip_addr \<Rightarrow> bool) \<Rightarrow> bool" where
  "contains_spec contains = (\<forall>net ip. net_wf net \<longrightarrow> contains net ip = net_covers net ip)"

lemma length_byte_bits [simp]: "length (byte_bits b) = 8"
  by (simp add: byte_bits_def)

lemma length_octets_to_bits [simp]: "length (octets_to_bits bs) = 8 * length bs"
  by (induction bs) (simp_all add: octets_to_bits_def)

lemma contains_spec_net_covers: "contains_spec net_covers"
  by (simp add: contains_spec_def)

lemma byte_bits_inj: "byte_bits a = byte_bits b \<longleftrightarrow> a = b"
proof
  assume "byte_bits a = byte_bits b"
  then have "\<forall>i < 8. bit a i = bit b i"
    by (auto simp: byte_bits_def)
  then show "a = b" by (intro bit_word_eqI) simp
qed simp

text \<open>Prefixes of whole bytes are prefixes of the octets.\<close>

lemma octets_to_bits_inj:
  "length as = length bs \<Longrightarrow> octets_to_bits as = octets_to_bits bs \<longleftrightarrow> as = bs"
  by (induction as bs rule: list_induct2) (auto simp: octets_to_bits_def byte_bits_inj)

text \<open>A full-length prefix covers exactly its own address.\<close>

lemma net_covers_host_v4: "net_covers (NetV4 a 32) (V4 b) \<longleftrightarrow> a = b"
  using octets_to_bits_inj [of "v4_octets a" "v4_octets b"]
  by (auto simp: net_covers_def) (metis from_be_v4_octets)

lemma net_covers_host_v6: "net_covers (NetV6 a 128) (V6 b) \<longleftrightarrow> a = b"
  using octets_to_bits_inj [of "v6_octets a" "v6_octets b"]
  by (auto simp: net_covers_def) (metis from_be_v6_octets)

text \<open>The bits of an address are those of the word, most significant first.\<close>

lemma byte_bits_ucast: "byte_bits (ucast (w :: 'a::len word)) = map (bit w) (rev [0..<8])"
  by (auto simp: byte_bits_def bit_simps dest: bit_imp_le_length)

lemma octets_to_bits_append: "octets_to_bits (as @ bs) = octets_to_bits as @ octets_to_bits bs"
  by (simp add: octets_to_bits_def)

lemma octets_to_bits_to_be: "octets_to_bits (to_be k w) = map (bit w) (rev [0..<8 * k])"
proof (induction k w rule: to_be.induct)
  case (2 k w)
  have "[0..<8 * Suc k] = [0..<8] @ map ((+) 8) [0..<8 * k]"
    by (rule nth_equalityI) (simp_all add: nth_append)
  moreover have "octets_to_bits (to_be (Suc k) w) = map (bit (drop_bit 8 w)) (rev [0..<8 * k]) @ byte_bits (ucast w)"
    by (simp add: octets_to_bits_append 2) (simp add: octets_to_bits_def)
  ultimately show ?case
    by (simp add: byte_bits_ucast rev_map bit_simps comp_def del: upt_Suc)
qed (simp add: octets_to_bits_def)

lemma ip_bits_v4: "ip_bits (V4 a) = map (bit a) (rev [0..<32])"
  by (simp add: v4_octets_def octets_to_bits_to_be del: upt_Suc)

lemma ip_bits_v6: "ip_bits (V6 a) = map (bit a) (rev [0..<128])"
  by (simp add: v6_octets_def octets_to_bits_to_be del: upt_Suc)

lemma take_rev_upt: "p \<le> n \<Longrightarrow> take p (rev [0..<n]) = rev [n - p..<n]"
  by (simp add: take_rev)

lemma take_bits_eq:
  fixes f t :: "'a::len word"
  assumes "p \<le> LENGTH('a)"
  shows "take p (map (bit f) (rev [0..<LENGTH('a)])) = take p (map (bit t) (rev [0..<LENGTH('a)])) \<longleftrightarrow>
     drop_bit (LENGTH('a) - p) f = drop_bit (LENGTH('a) - p) t"
proof -
  have "take p (map (bit f) (rev [0..<LENGTH('a)])) = take p (map (bit t) (rev [0..<LENGTH('a)])) \<longleftrightarrow>
      (\<forall>i \<in> {LENGTH('a) - p..<LENGTH('a)}. bit f i = bit t i)"
    using assms by (auto simp: take_map take_rev_upt)
  also have "\<dots> \<longleftrightarrow> drop_bit (LENGTH('a) - p) f = drop_bit (LENGTH('a) - p) t"
  proof
    assume a: "\<forall>i \<in> {LENGTH('a) - p..<LENGTH('a)}. bit f i = bit t i"
    then have "bit f i = bit t i" if "LENGTH('a) - p \<le> i" for i
      using that by (metis atLeastLessThan_iff bit_imp_le_length)
    then show "drop_bit (LENGTH('a) - p) f = drop_bit (LENGTH('a) - p) t"
      by (intro bit_word_eqI) (simp add: bit_simps)
  next
    assume "drop_bit (LENGTH('a) - p) f = drop_bit (LENGTH('a) - p) t"
    then have "bit f (LENGTH('a) - p + j) = bit t (LENGTH('a) - p + j)" for j
      by (metis bit_drop_bit_eq comp_apply)
    then show "\<forall>i \<in> {LENGTH('a) - p..<LENGTH('a)}. bit f i = bit t i"
      by (metis atLeastLessThan_iff le_add_diff_inverse)
  qed
  finally show ?thesis .
qed

lemma drop_bit_between:
  fixes f t x :: "'a::len word"
  assumes "f \<le> x" and "x \<le> t" and "drop_bit h f = drop_bit h t"
  shows "drop_bit h x = drop_bit h f"
proof -
  have mono: "a \<le> b \<Longrightarrow> drop_bit h a \<le> drop_bit h b" for a b :: "'a word"
    unfolding word_le_nat_alt unat_drop_bit_eq by (simp add: drop_bit_eq_div div_le_mono)
  show ?thesis
    using mono [OF assms(1)] mono [OF assms(2)] assms(3) by simp
qed

end
