(* ===== verification/RuleSet.thy ===== *)
theory RuleSet
  imports IpNet
begin

text \<open>
  Rule sets, the data and the file formats of \<^verbatim>\<open>src/src/router/provider.rs\<close>: matching of domains and
  addresses, the three text formats (domain, ipcidr, classical) and the binary format OWRS with its
  serialiser and deserialiser.  Parsing and membership of networks belong to the \<^verbatim>\<open>ipnet\<close> crate and
  are arguments.  The lemmas show that the binary format loses nothing: deserialising a serialised
  rule set, with any bytes behind it, returns that rule set.
\<close>

section \<open>Definitions\<close>

datatype domain_rule = RFull string | RSuffix string | RKeyword string

record rule_set_data =
  domain_rules :: "domain_rule list"
  ip_cidrs :: "ip_net list"

datatype ruleset_error =
    InvalidCidr string
  | BadMagic
  | UnsupportedVersion byte
  | Truncated
  | BadUtf8
  | UnknownDomainType byte
  | UnknownFamily byte
  | BadPrefixLen nat

fun domain_rule_matches :: "string \<Rightarrow> domain_rule \<Rightarrow> bool" where
  "domain_rule_matches dl (RFull d) = (dl = d)"
| "domain_rule_matches dl (RSuffix s) = (dl = s \<or> ends_with dl (CHR ''.'' # s))"
| "domain_rule_matches dl (RKeyword k) = str_contains dl k"

definition ruleset_matches_domain :: "rule_set_data \<Rightarrow> string \<Rightarrow> bool" where
  "ruleset_matches_domain data d =
     (let dl = to_lowercase d in list_ex (domain_rule_matches dl) (domain_rules data))"

definition ruleset_matches_ip :: "(ip_net \<Rightarrow> ip_addr \<Rightarrow> bool) \<Rightarrow> rule_set_data \<Rightarrow> ip_addr \<Rightarrow> bool" where
  "ruleset_matches_ip contains data ip = list_ex (\<lambda>net. contains net ip) (ip_cidrs data)"

subsection \<open>Text formats\<close>

text \<open>The part the three parsers share: blank lines, comments and the YAML header are skipped, the
  YAML list marker and quotes are removed.\<close>

definition clean_line :: "string \<Rightarrow> string option" where
  "clean_line raw =
     (let line = trim raw in
      if line = [] \<or> starts_with line ''#'' \<or> line = ''payload:'' then None
      else
        let line1 = (case strip_prefix line ''- '' of Some r \<Rightarrow> r | None \<Rightarrow> line);
            line2 = trim_matches CHR 0x22 (trim_matches CHR 0x27 line1)
        in if line2 = [] then None else Some line2)"

definition parse_domain_line :: "string \<Rightarrow> domain_rule" where
  "parse_domain_line line =
     (case strip_prefix line ''domain:'' of Some d \<Rightarrow> RFull (to_lowercase d) | None \<Rightarrow>
     (case strip_prefix line ''domain_suffix:'' of Some s \<Rightarrow> RSuffix (to_lowercase s) | None \<Rightarrow>
     (case strip_prefix line ''domain_keyword:'' of Some k \<Rightarrow> RKeyword (to_lowercase k) | None \<Rightarrow>
     (case strip_prefix line ''+.'' of Some s \<Rightarrow> RSuffix (to_lowercase s) | None \<Rightarrow>
      RSuffix (to_lowercase line)))))"

definition parse_domain_rules :: "string \<Rightarrow> (ruleset_error, rule_set_data) result" where
  "parse_domain_rules content =
     Inr \<lparr>domain_rules = map parse_domain_line (List.map_filter clean_line (str_lines content)), ip_cidrs = []\<rparr>"

definition parse_cidr :: "(string \<Rightarrow> ip_net option) \<Rightarrow> string \<Rightarrow> (ruleset_error, ip_net) result" where
  "parse_cidr parse_net s = (case parse_net s of Some n \<Rightarrow> Inr n | None \<Rightarrow> Inl (InvalidCidr s))"

definition parse_ipcidr_rules ::
  "(string \<Rightarrow> ip_net option) \<Rightarrow> string \<Rightarrow> (ruleset_error, rule_set_data) result" where
  "parse_ipcidr_rules parse_net content =
     (case collect_results (parse_cidr parse_net) (List.map_filter clean_line (str_lines content)) of
        Inl e \<Rightarrow> Inl e
      | Inr ns \<Rightarrow> Inr \<lparr>domain_rules = [], ip_cidrs = ns\<rparr>)"

definition first_field :: "string \<Rightarrow> string" where
  "first_field v = hd (split_on CHR '','' v)"

text \<open>One line of the classical format; \<^term>\<open>None\<close> is a rule type that is skipped.\<close>

definition parse_classical_line ::
  "(string \<Rightarrow> ip_net option) \<Rightarrow> string \<Rightarrow> (ruleset_error, (domain_rule + ip_net) option) result" where
  "parse_classical_line parse_net line =
     (case strip_prefix line ''DOMAIN-SUFFIX,'' of
        Some v \<Rightarrow> Inr (Some (Inl (RSuffix (to_lowercase (first_field v))))) | None \<Rightarrow>
     (case strip_prefix line ''DOMAIN-KEYWORD,'' of
        Some v \<Rightarrow> Inr (Some (Inl (RKeyword (to_lowercase (first_field v))))) | None \<Rightarrow>
     (case strip_prefix line ''DOMAIN,'' of
        Some v \<Rightarrow> Inr (Some (Inl (RFull (to_lowercase (first_field v))))) | None \<Rightarrow>
     (case strip_prefix line ''IP-CIDR,'' of
        Some v \<Rightarrow> (case parse_cidr parse_net (first_field v) of Inl e \<Rightarrow> Inl e | Inr n \<Rightarrow> Inr (Some (Inr n))) | None \<Rightarrow>
     (case strip_prefix line ''IP-CIDR6,'' of
        Some v \<Rightarrow> (case parse_cidr parse_net (first_field v) of Inl e \<Rightarrow> Inl e | Inr n \<Rightarrow> Inr (Some (Inr n))) | None \<Rightarrow>
      Inr None)))))"

fun lefts :: "('a + 'b) option list \<Rightarrow> 'a list" where
  "lefts [] = []"
| "lefts (Some (Inl x) # r) = x # lefts r"
| "lefts (_ # r) = lefts r"

fun rights :: "('a + 'b) option list \<Rightarrow> 'b list" where
  "rights [] = []"
| "rights (Some (Inr x) # r) = x # rights r"
| "rights (_ # r) = rights r"

definition parse_classical_rules ::
  "(string \<Rightarrow> ip_net option) \<Rightarrow> string \<Rightarrow> (ruleset_error, rule_set_data) result" where
  "parse_classical_rules parse_net content =
     (case collect_results (parse_classical_line parse_net) (List.map_filter clean_line (str_lines content)) of
        Inl e \<Rightarrow> Inl e
      | Inr xs \<Rightarrow> Inr \<lparr>domain_rules = lefts xs, ip_cidrs = rights xs\<rparr>)"

subsection \<open>Binary format\<close>

definition BINARY_MAGIC :: "byte list" where
  "BINARY_MAGIC = as_bytes ''OWRS''"

definition BINARY_VERSION :: byte where
  "BINARY_VERSION = 1"

fun serialize_domain_rule :: "domain_rule \<Rightarrow> byte list" where
  "serialize_domain_rule (RFull v) = 0 # to_le 2 (word_of_nat (length v) :: u16) @ as_bytes v"
| "serialize_domain_rule (RSuffix v) = 1 # to_le 2 (word_of_nat (length v) :: u16) @ as_bytes v"
| "serialize_domain_rule (RKeyword v) = 2 # to_le 2 (word_of_nat (length v) :: u16) @ as_bytes v"

fun serialize_cidr :: "ip_net \<Rightarrow> byte list" where
  "serialize_cidr (NetV4 a n) = 4 # word_of_nat n # v4_octets a"
| "serialize_cidr (NetV6 a n) = 6 # word_of_nat n # v6_octets a"

definition serialize_ruleset_binary :: "rule_set_data \<Rightarrow> byte list" where
  "serialize_ruleset_binary data =
     BINARY_MAGIC @ [BINARY_VERSION]
     @ to_le 4 (word_of_nat (length (domain_rules data)) :: u32)
     @ to_le 4 (word_of_nat (length (ip_cidrs data)) :: u32)
     @ concat (map serialize_domain_rule (domain_rules data))
     @ concat (map serialize_cidr (ip_cidrs data))"

definition deserialize_domain_rule :: "byte list \<Rightarrow> (ruleset_error, domain_rule \<times> byte list) result" where
  "deserialize_domain_rule data =
     (if length data < 3 then Inl Truncated
      else
        let tag = data ! 0; len = unat (from_le (take 2 (drop 1 data)) :: u16); rest = drop 3 data in
        if length rest < len then Inl Truncated
        else (case from_utf8 (take len rest) of
            None \<Rightarrow> Inl BadUtf8
          | Some v \<Rightarrow>
              if tag = 0 then Inr (RFull v, drop len rest)
              else if tag = 1 then Inr (RSuffix v, drop len rest)
              else if tag = 2 then Inr (RKeyword v, drop len rest)
              else Inl (UnknownDomainType tag)))"

definition deserialize_cidr :: "byte list \<Rightarrow> (ruleset_error, ip_net \<times> byte list) result" where
  "deserialize_cidr data =
     (if length data < 2 then Inl Truncated
      else
        let family = data ! 0; prefix_len = unat (data ! 1); rest = drop 2 data in
        if family = 4 then
          if length rest < 4 then Inl Truncated
          else (case ipv4_net_new (from_be (take 4 rest)) prefix_len of
              None \<Rightarrow> Inl (BadPrefixLen prefix_len) | Some n \<Rightarrow> Inr (n, drop 4 rest))
        else if family = 6 then
          if length rest < 16 then Inl Truncated
          else (case ipv6_net_new (from_be (take 16 rest)) prefix_len of
              None \<Rightarrow> Inl (BadPrefixLen prefix_len) | Some n \<Rightarrow> Inr (n, drop 16 rest))
        else Inl (UnknownFamily family))"

text \<open>The counted loops: the element parser is run \<^term>\<open>n\<close> times on what the previous run left.\<close>

fun repeat_parse ::
  "(byte list \<Rightarrow> (ruleset_error, 'a \<times> byte list) result) \<Rightarrow> nat \<Rightarrow> byte list
     \<Rightarrow> (ruleset_error, 'a list \<times> byte list) result" where
  "repeat_parse p 0 data = Inr ([], data)"
| "repeat_parse p (Suc n) data =
     (case p data of
        Inl e \<Rightarrow> Inl e
      | Inr (x, rest) \<Rightarrow>
          (case repeat_parse p n rest of Inl e \<Rightarrow> Inl e | Inr (xs, rest') \<Rightarrow> Inr (x # xs, rest')))"

definition deserialize_ruleset_binary :: "byte list \<Rightarrow> (ruleset_error, rule_set_data) result" where
  "deserialize_ruleset_binary data =
     (if length data < 13 \<or> take 4 data \<noteq> BINARY_MAGIC then Inl BadMagic
      else if data ! 4 \<noteq> BINARY_VERSION then Inl (UnsupportedVersion (data ! 4))
      else
        let domain_count = unat (from_le (take 4 (drop 5 data)) :: u32);
            cidr_count = unat (from_le (take 4 (drop 9 data)) :: u32)
        in case repeat_parse deserialize_domain_rule domain_count (drop 13 data) of
             Inl e \<Rightarrow> Inl e
           | Inr (ds, rest) \<Rightarrow>
               (case repeat_parse deserialize_cidr cidr_count rest of
                  Inl e \<Rightarrow> Inl e
                | Inr (cs, _) \<Rightarrow> Inr \<lparr>domain_rules = ds, ip_cidrs = cs\<rparr>))"

text \<open>What the format can carry: 16-bit string lengths, 32-bit counts; strings are valid UTF-8 and
  prefix lengths in range by their types.\<close>

fun domain_rule_value :: "domain_rule \<Rightarrow> string" where
  "domain_rule_value (RFull v) = v"
| "domain_rule_value (RSuffix v) = v"
| "domain_rule_value (RKeyword v) = v"

definition ruleset_encodable :: "rule_set_data \<Rightarrow> bool" where
  "ruleset_encodable data =
     (length (domain_rules data) < 2 ^ 32 \<and> length (ip_cidrs data) < 2 ^ 32 \<and>
      list_all (\<lambda>r. length (domain_rule_value r) < 2 ^ 16 \<and> valid_utf8 (as_bytes (domain_rule_value r))) (domain_rules data) \<and>
      list_all net_wf (ip_cidrs data))"

section \<open>Lemmas\<close>

lemma le16_length [simp, codec_simps]: "length (to_le 2 (w :: u16)) = 2"
  by (simp add: to_le_def)

lemma from_le_to_le16 [simp, codec_simps]: "from_le (to_le 2 w) = (w :: u16)"
  by (simp add: to_le_def from_le_def be16.dec_enc)

lemma le32_length [simp, codec_simps]: "length (to_le 4 (w :: u32)) = 4"
  by (simp add: le32.enc_width)

lemma from_le_to_le32 [simp, codec_simps]: "from_le (to_le 4 w) = (w :: u32)"
  by (simp add: le32.dec_enc)

lemma deserialize_serialize_domain:
  assumes "length (domain_rule_value r) < 2 ^ 16" and "valid_utf8 (as_bytes (domain_rule_value r))"
  shows "deserialize_domain_rule (serialize_domain_rule r @ rest) = Inr (r, rest)"
  using assms
  by (cases r) (simp_all add: deserialize_domain_rule_def unat_of_nat from_utf8_as_bytes Let_def)

lemma deserialize_serialize_cidr:
  "net_wf n \<Longrightarrow> deserialize_cidr (serialize_cidr n @ rest) = Inr (n, rest)"
  by (cases n) (simp_all add: deserialize_cidr_def ipv4_net_new_def ipv6_net_new_def unat_of_nat Let_def)

lemma repeat_parse_concat:
  assumes "\<And>x rest. x \<in> set xs \<Longrightarrow> p (s x @ rest) = Inr (x, rest)"
  shows "repeat_parse p (length xs) (concat (map s xs) @ rest) = Inr (xs, rest)"
  using assms by (induction xs) simp_all

lemma header_length: "length BINARY_MAGIC = 4"
  by (simp add: BINARY_MAGIC_def)

lemma ruleset_deserialize:
  assumes "ruleset_encodable data"
  shows "deserialize_ruleset_binary (serialize_ruleset_binary data @ trailing) = Inr data"
proof -
  let ?ds = "concat (map serialize_domain_rule (domain_rules data))"
  let ?cs = "concat (map serialize_cidr (ip_cidrs data))"
  let ?bytes = "serialize_ruleset_binary data @ trailing"
  have counts: "unat (word_of_nat (length (domain_rules data)) :: u32) = length (domain_rules data)"
    "unat (word_of_nat (length (ip_cidrs data)) :: u32) = length (ip_cidrs data)"
    using assms by (simp_all add: ruleset_encodable_def unat_of_nat)
  have header: "\<not> length ?bytes < 13" "take 4 ?bytes = BINARY_MAGIC" "?bytes ! 4 = BINARY_VERSION"
    "take 4 (drop 5 ?bytes) = to_le 4 (word_of_nat (length (domain_rules data)) :: u32)"
    "take 4 (drop 9 ?bytes) = to_le 4 (word_of_nat (length (ip_cidrs data)) :: u32)"
    "drop 13 ?bytes = ?ds @ ?cs @ trailing"
    by (simp_all add: serialize_ruleset_binary_def header_length nth_append)
  have ds: "repeat_parse deserialize_domain_rule (length (domain_rules data)) (?ds @ ?cs @ trailing) =
      Inr (domain_rules data, ?cs @ trailing)"
    using assms deserialize_serialize_domain
    by (intro repeat_parse_concat) (auto simp: ruleset_encodable_def list_all_iff)
  have cs: "repeat_parse deserialize_cidr (length (ip_cidrs data)) (?cs @ trailing) =
      Inr (ip_cidrs data, trailing)"
    using assms deserialize_serialize_cidr
    by (intro repeat_parse_concat) (auto simp: ruleset_encodable_def list_all_iff)
  show ?thesis
    unfolding deserialize_ruleset_binary_def header Let_def from_le_to_le32 counts ds
    using header(1) by (simp add: cs)
qed

section \<open>Properties\<close>

text \<open>C4. The binary rule-set format is lossless: for every rule set whose counts fit 32 bits and whose
  strings fit 16 bits, deserialising the serialised bytes, with any bytes behind them, gives back the
  same domain rules and networks in the same order.\<close>

theorem ruleset_binary_round_trip:
  assumes "ruleset_encodable data"
  shows "deserialize_ruleset_binary (serialize_ruleset_binary data @ trailing) = Inr data"
  by (rule ruleset_deserialize [OF assms])

theorem ruleset_binary_round_trip_witness:
  "deserialize_ruleset_binary
     (serialize_ruleset_binary \<lparr>domain_rules = [RSuffix ''a.io'', RKeyword ''x''], ip_cidrs = [NetV4 0x0A000000 8]\<rparr> @ [7])
   = Inr \<lparr>domain_rules = [RSuffix ''a.io'', RKeyword ''x''], ip_cidrs = [NetV4 0x0A000000 8]\<rparr>"
  by (rule ruleset_binary_round_trip) (simp add: ruleset_encodable_def as_bytes_def)

end
