(* ===== verification/Srs.thy ===== *)
theory Srs
  imports RuleSet
begin

text \<open>
  The sing-box rule-set format, \<^verbatim>\<open>src/src/router/srs.rs\<close>.  The cursor over the decompressed body is
  the list of the bytes not yet read; a reader returns its value and the rest, or an error.  Zlib
  decompression and the parser of network literals are arguments (\<^verbatim>\<open>flate2\<close> and \<^verbatim>\<open>ipnet\<close>).  A
  requested capacity beyond \<^verbatim>\<open>isize::MAX\<close> bytes makes \<^verbatim>\<open>Vec\<close> panic, which is the error
  \<^term>\<open>CapacityOverflow\<close>.  Logical rules nest, so the readers of rules carry fuel; the number of bytes
  bounds the nesting, and the fuel that \<^term>\<open>parse_srs\<close> gives is shown to be enough.
\<close>

section \<open>Definitions\<close>

datatype srs_error =
    SrsTooShort
  | SrsBadMagic
  | SrsVersion byte
  | SrsInflate
  | UnexpectedEof
  | UvarintOverflow
  | SrsUtf8
  | UnknownRuleType byte
  | CapacityOverflow
  | OutOfFuel

type_synonym 'a reader = "byte list \<Rightarrow> (srs_error, 'a \<times> byte list) result"

definition SRS_MAGIC :: "byte list" where
  "SRS_MAGIC = [0x53, 0x52, 0x53]"

definition is_srs_format :: "byte list \<Rightarrow> bool" where
  "is_srs_format data = (4 \<le> length data \<and> take 3 data = SRS_MAGIC)"

definition read_u8 :: "byte reader" where
  "read_u8 cur = (case cur of [] \<Rightarrow> Inl UnexpectedEof | b # r \<Rightarrow> Inr (b, r))"

definition read_exact :: "nat \<Rightarrow> byte list reader" where
  "read_exact n cur = (if length cur < n then Inl UnexpectedEof else Inr (take n cur, drop n cur))"

fun then_read :: "('a, 'x) result \<Rightarrow> ('x \<Rightarrow> ('a, 'y) result) \<Rightarrow> ('a, 'y) result" where
  "then_read (Inl e) f = Inl e"
| "then_read (Inr x) f = f x"

text \<open>The shift stays below 64, so at most ten bytes are read.  A shift by 63 keeps one bit of the
  tenth byte.\<close>

function read_uvarint_loop :: "u64 \<Rightarrow> nat \<Rightarrow> u64 reader" where
  "read_uvarint_loop acc shift cur =
     (case read_u8 cur of
        Inl e \<Rightarrow> Inl e
      | Inr (b, r) \<Rightarrow>
          (let acc' = acc OR push_bit shift (ucast (b AND 0x7F)) in
           if b AND 0x80 = 0 then Inr (acc', r)
           else if 64 \<le> shift + 7 then Inl UvarintOverflow
           else read_uvarint_loop acc' (shift + 7) r))"
  by pat_completeness auto
termination
  by (relation "measure (\<lambda>(acc, shift, cur). 64 - shift)") auto

declare read_uvarint_loop.simps [simp del]

definition read_uvarint :: "u64 reader" where
  "read_uvarint cur = read_uvarint_loop 0 0 cur"

definition isize_max :: nat where
  "isize_max = 9223372036854775807"

text \<open>\<^verbatim>\<open>vec![0u8; len]\<close> panics beyond \<^verbatim>\<open>isize::MAX\<close>.\<close>

definition read_bytes :: "nat \<Rightarrow> byte list reader" where
  "read_bytes len cur = (if isize_max < len then Inl CapacityOverflow else read_exact len cur)"

definition read_string :: "string reader" where
  "read_string cur =
     then_read (read_uvarint cur) (\<lambda>(len, r).
     then_read (read_bytes (unat len) r) (\<lambda>(buf, r').
       (case from_utf8 buf of None \<Rightarrow> Inl SrsUtf8 | Some s \<Rightarrow> Inr (s, r'))))"

fun read_n :: "'a reader \<Rightarrow> nat \<Rightarrow> 'a list reader" where
  "read_n p 0 cur = Inr ([], cur)"
| "read_n p (Suc n) cur =
     then_read (p cur) (\<lambda>(x, r). then_read (read_n p n r) (\<lambda>(xs, r'). Inr (x # xs, r')))"

text \<open>\<^verbatim>\<open>Vec::with_capacity(count)\<close> for strings of 24 bytes each.\<close>

definition read_string_list :: "string list reader" where
  "read_string_list cur =
     then_read (read_uvarint cur) (\<lambda>(count, r).
       if isize_max < 24 * unat count then Inl CapacityOverflow else read_n read_string (unat count) r)"

definition read_domain_matcher :: "(string list \<times> string list) reader" where
  "read_domain_matcher cur =
     then_read (read_string_list cur) (\<lambda>(domains, r).
     then_read (read_string_list r) (\<lambda>(suffixes, r'). Inr ((domains, suffixes), r')))"

definition leading_zeros :: "'a::len word \<Rightarrow> nat" where
  "leading_zeros w = length (takeWhile Not (map (bit w) (rev [0..<LENGTH('a)])))"

definition range_to_cidr_v4 :: "(string \<Rightarrow> ip_net option) \<Rightarrow> byte list \<Rightarrow> byte list \<Rightarrow> ip_net option" where
  "range_to_cidr_v4 parse_net from to =
     (let from_u32 = from_be from :: u32; to_u32 = from_be to :: u32 in
      if from_u32 > to_u32 then None
      else
        let diff = from_u32 XOR to_u32;
            host_bits = (if diff = 0 then 0 else 32 - leading_zeros diff);
            prefix = 32 - host_bits
        in parse_net (show_v4 from_u32 @ ''/'' @ show_nat prefix))"

definition range_to_cidr_v6 :: "(string \<Rightarrow> ip_net option) \<Rightarrow> byte list \<Rightarrow> byte list \<Rightarrow> ip_net option" where
  "range_to_cidr_v6 parse_net from to =
     (let from_u128 = from_be from :: u128; to_u128 = from_be to :: u128 in
      if from_u128 > to_u128 then None
      else
        let diff = from_u128 XOR to_u128;
            host_bits = (if diff = 0 then 0 else 128 - leading_zeros diff);
            prefix = 128 - host_bits
        in parse_net (show_v6 from_u128 @ ''/'' @ show_nat prefix))"

definition read_range :: "(string \<Rightarrow> ip_net option) \<Rightarrow> ip_net option reader" where
  "read_range parse_net cur =
     then_read (read_u8 cur) (\<lambda>(is_ipv6, r).
       let w = (if is_ipv6 \<noteq> 0 then 16 else 4) in
       then_read (read_exact w r) (\<lambda>(from, r1).
       then_read (read_exact w r1) (\<lambda>(to, r2).
         Inr (if is_ipv6 \<noteq> 0 then range_to_cidr_v6 parse_net from to
              else range_to_cidr_v4 parse_net from to, r2))))"

definition read_ip_set :: "(string \<Rightarrow> ip_net option) \<Rightarrow> ip_net list reader" where
  "read_ip_set parse_net cur =
     then_read (read_uvarint cur) (\<lambda>(count, r).
     then_read (read_n (read_range parse_net) (unat count) r) (\<lambda>(cs, r').
       Inr (List.map_filter id cs, r')))"

definition skip_string :: "unit reader" where
  "skip_string cur =
     then_read (read_uvarint cur) (\<lambda>(len, r).
     then_read (read_bytes (unat len) r) (\<lambda>(_, r'). Inr ((), r')))"

definition skip_unknown_item :: "byte \<Rightarrow> unit reader" where
  "skip_unknown_item item_type cur =
     (if item_type = 18 \<or> item_type = 19 then Inr ((), cur)
      else then_read (read_uvarint cur) (\<lambda>(count, r).
        then_read (read_n skip_string (unat count) r) (\<lambda>(_, r'). Inr ((), r'))))"

type_synonym rules_acc = "domain_rule list \<times> ip_net list"

text \<open>One item of a default rule; the flag tells whether it was the final one.\<close>

definition read_item :: "(string \<Rightarrow> ip_net option) \<Rightarrow> (bool \<times> rules_acc) reader" where
  "read_item parse_net cur =
     then_read (read_u8 cur) (\<lambda>(item_type, r).
       if item_type = 0xFF then
         then_read (read_u8 r) (\<lambda>(_, r'). Inr ((True, [], []), r'))
       else if item_type = 2 then
         then_read (read_domain_matcher r) (\<lambda>((ds, ss), r').
           Inr ((False, map RFull ds @ map RSuffix ss, []), r'))
       else if item_type = 3 \<or> item_type = 4 then
         then_read (read_string_list r) (\<lambda>(ks, r'). Inr ((False, map RKeyword ks, []), r'))
       else if item_type = 5 \<or> item_type = 6 then
         then_read (read_ip_set parse_net r) (\<lambda>(cs, r'). Inr ((False, [], cs), r'))
       else then_read (skip_unknown_item item_type r) (\<lambda>(_, r'). Inr ((False, [], []), r')))"

fun read_default_rule :: "nat \<Rightarrow> (string \<Rightarrow> ip_net option) \<Rightarrow> rules_acc reader" where
  "read_default_rule 0 parse_net cur = Inl OutOfFuel"
| "read_default_rule (Suc fuel) parse_net cur =
     then_read (read_item parse_net cur) (\<lambda>((final, ds, cs), r).
       if final then Inr ((ds, cs), r)
       else then_read (read_default_rule fuel parse_net r) (\<lambda>((ds', cs'), r'). Inr ((ds @ ds', cs @ cs'), r')))"

function read_rule :: "nat \<Rightarrow> (string \<Rightarrow> ip_net option) \<Rightarrow> rules_acc reader"
  and read_rules :: "nat \<Rightarrow> (string \<Rightarrow> ip_net option) \<Rightarrow> nat \<Rightarrow> rules_acc reader" where
  "read_rule 0 parse_net cur = Inl OutOfFuel"
| "read_rule (Suc fuel) parse_net cur =
     then_read (read_u8 cur) (\<lambda>(rule_type, r).
       if rule_type = 0 then read_default_rule (Suc (length r)) parse_net r
       else if rule_type = 1 then
         then_read (read_u8 r) (\<lambda>(_, r1).
         then_read (read_uvarint r1) (\<lambda>(count, r2).
         then_read (read_rules fuel parse_net (unat count) r2) (\<lambda>(acc, r3).
         then_read (read_u8 r3) (\<lambda>(_, r4). Inr (acc, r4)))))
       else Inl (UnknownRuleType rule_type))"
| "read_rules fuel parse_net 0 cur = Inr (([], []), cur)"
| "read_rules fuel parse_net (Suc n) cur =
     then_read (read_rule fuel parse_net cur) (\<lambda>((ds, cs), r).
     then_read (read_rules fuel parse_net n r) (\<lambda>((ds', cs'), r'). Inr ((ds @ ds', cs @ cs'), r')))"
  by pat_completeness auto
termination
  by (relation "inv_image (less_than <*lex*> less_than)
       (\<lambda>x. case x of Inl (fuel, _, _) \<Rightarrow> (2 * fuel, 0) | Inr (fuel, _, n, _) \<Rightarrow> (Suc (2 * fuel), n))") auto

definition parse_srs ::
  "(byte list \<Rightarrow> byte list option) \<Rightarrow> (string \<Rightarrow> ip_net option) \<Rightarrow> byte list
     \<Rightarrow> (srs_error, rule_set_data) result" where
  "parse_srs inflate parse_net data =
     (if length data < 4 then Inl SrsTooShort
      else if take 3 data \<noteq> SRS_MAGIC then Inl SrsBadMagic
      else if data ! 3 > 3 then Inl (SrsVersion (data ! 3))
      else (case inflate (drop 4 data) of
          None \<Rightarrow> Inl SrsInflate
        | Some body \<Rightarrow>
            then_read (read_uvarint body) (\<lambda>(rule_count, r).
            then_read (read_rules (Suc (length body)) parse_net (unat rule_count) r) (\<lambda>((ds, cs), _).
              Inr \<lparr>domain_rules = ds, ip_cidrs = cs\<rparr>))))"

section \<open>Readers consume their input\<close>

lemma then_read_Inr: "then_read x f = Inr z \<longleftrightarrow> (\<exists>y. x = Inr y \<and> f y = Inr z)"
  by (cases x) simp_all

lemma then_read_Inl: "then_read x f = Inl e \<longleftrightarrow> x = Inl e \<or> (\<exists>y. x = Inr y \<and> f y = Inl e)"
  by (cases x) simp_all

lemmas reader_simps = then_read_Inr then_read_Inl

text \<open>The contract of a reader: on success it has consumed at least \<^term>\<open>n\<close> bytes, and it never reports
  exhausted fuel.\<close>

locale reader =
  fixes p :: "'a reader" and n :: nat
  assumes shrinks: "p cur = Inr (x, r) \<Longrightarrow> length r + n \<le> length cur"
    and total: "p cur \<noteq> Inl OutOfFuel"
begin

lemma read_n_shrinks: "read_n p k cur = Inr (xs, r) \<Longrightarrow> length r + k * n \<le> length cur"
proof (induction k arbitrary: cur xs)
  case (Suc k)
  then obtain y s ys where "p cur = Inr (y, s)" "read_n p k s = Inr (ys, r)"
    by (auto simp: reader_simps)
  with Suc.IH [of s ys] shrinks [of cur y s] show ?case by simp
qed simp

lemma read_n_total: "read_n p k cur \<noteq> Inl OutOfFuel"
  by (induction k arbitrary: cur) (auto simp: reader_simps total)

end

interpretation u8: reader read_u8 1
  by unfold_locales (auto simp: read_u8_def split: list.splits)

lemma read_exact_facts:
  "read_exact k cur = Inr (x, r) \<Longrightarrow> length r + k = length cur"
  "read_exact k cur \<noteq> Inl OutOfFuel"
  by (auto simp: read_exact_def split: if_splits)

lemma read_uvarint_loop_shrinks: "read_uvarint_loop acc shift cur = Inr (x, r) \<Longrightarrow> length r + 1 \<le> length cur"
proof (induction acc shift cur rule: read_uvarint_loop.induct)
  case (1 acc shift cur)
  from "1.prems" obtain b s where b: "read_u8 cur = Inr (b, s)"
    by (subst (asm) read_uvarint_loop.simps) (auto split: sum.splits)
  with "1.prems" "1.IH" [OF b refl refl] u8.shrinks [OF b] show ?case
    by (subst (asm) read_uvarint_loop.simps) (auto simp: Let_def split: if_splits)
qed

lemma read_uvarint_loop_total: "read_uvarint_loop acc shift cur \<noteq> Inl OutOfFuel"
proof (induction acc shift cur rule: read_uvarint_loop.induct)
  case (1 acc shift cur)
  show ?case
  proof (cases "read_u8 cur")
    case (Inl e)
    with u8.total [of cur] show ?thesis by (subst read_uvarint_loop.simps) auto
  next
    case (Inr y)
    then obtain b s where y: "read_u8 cur = Inr (b, s)" by (cases y) simp
    from "1.IH" [OF y refl refl] y show ?thesis
      by (subst read_uvarint_loop.simps) (auto simp: Let_def)
  qed
qed

interpretation uvarint: reader read_uvarint 1
  by unfold_locales
     (auto simp: read_uvarint_def read_uvarint_loop_total dest: read_uvarint_loop_shrinks)

lemma read_bytes_facts:
  "read_bytes k cur = Inr (x, r) \<Longrightarrow> length r \<le> length cur"
  "read_bytes k cur \<noteq> Inl OutOfFuel"
  by (auto simp: read_bytes_def read_exact_def split: if_splits)

interpretation str: reader read_string 1
proof (unfold_locales, goal_cases)
  case (1 cur x r)
  then show ?case
    by (auto simp: read_string_def reader_simps split: option.splits
        dest!: uvarint.shrinks read_bytes_facts(1))
next
  case (2 cur)
  then show ?case
    by (auto simp: read_string_def reader_simps uvarint.total read_bytes_facts(2) split: option.splits)
qed

lemma read_string_list_facts:
  "read_string_list cur = Inr (x, r) \<Longrightarrow> length r + 1 \<le> length cur"
  "read_string_list cur \<noteq> Inl OutOfFuel"
  by (auto simp: read_string_list_def reader_simps uvarint.total str.read_n_total split: if_splits
      dest!: uvarint.shrinks str.read_n_shrinks)

lemma read_range_facts:
  "read_range pn cur = Inr (x, r) \<Longrightarrow> length r + 1 \<le> length cur"
  "read_range pn cur \<noteq> Inl OutOfFuel"
  by (auto simp: read_range_def reader_simps u8.total read_exact_facts(2) Let_def split: if_splits
      dest!: u8.shrinks read_exact_facts(1))

interpretation range: reader "read_range pn" 1 for pn
  using read_range_facts by unfold_locales

lemma read_ip_set_facts:
  "read_ip_set pn cur = Inr (x, r) \<Longrightarrow> length r + 1 \<le> length cur"
  "read_ip_set pn cur \<noteq> Inl OutOfFuel"
  by (auto simp: read_ip_set_def reader_simps uvarint.total range.read_n_total
      dest!: uvarint.shrinks range.read_n_shrinks)

interpretation skip: reader skip_string 1
  by unfold_locales
     (auto simp: skip_string_def reader_simps uvarint.total read_bytes_facts(2)
      dest!: uvarint.shrinks read_bytes_facts(1))

lemma skip_unknown_facts:
  "skip_unknown_item ty cur = Inr (x, r) \<Longrightarrow> length r \<le> length cur"
  "skip_unknown_item ty cur \<noteq> Inl OutOfFuel"
  by (auto simp: skip_unknown_item_def reader_simps uvarint.total skip.read_n_total split: if_splits
      dest!: uvarint.shrinks skip.read_n_shrinks)

lemma read_domain_matcher_facts:
  "read_domain_matcher cur = Inr (x, r) \<Longrightarrow> length r \<le> length cur"
  "read_domain_matcher cur \<noteq> Inl OutOfFuel"
  by (auto simp: read_domain_matcher_def reader_simps read_string_list_facts(2) dest!: read_string_list_facts(1))

lemma read_item_shrinks: "read_item pn cur = Inr (x, r) \<Longrightarrow> length r + 1 \<le> length cur"
  by (auto simp: read_item_def reader_simps split: if_splits
      dest!: u8.shrinks read_domain_matcher_facts(1) read_string_list_facts(1) read_ip_set_facts(1) skip_unknown_facts(1))

lemma read_item_total: "read_item pn cur \<noteq> Inl OutOfFuel"
  by (auto simp: read_item_def reader_simps u8.total read_domain_matcher_facts(2) read_string_list_facts(2)
      read_ip_set_facts(2) skip_unknown_facts(2) split: if_splits)

interpretation item: reader "read_item pn" 1 for pn
  using read_item_shrinks read_item_total by unfold_locales

lemma read_default_rule_shrinks:
  "read_default_rule fuel pn cur = Inr (x, r) \<Longrightarrow> length r + 1 \<le> length cur"
proof (induction fuel arbitrary: cur x)
  case (Suc fuel)
  then show ?case
    by (fastforce simp: reader_simps split: if_splits prod.splits dest: item.shrinks)
qed simp

lemma read_default_rule_total:
  "length cur < fuel \<Longrightarrow> read_default_rule fuel pn cur \<noteq> Inl OutOfFuel"
proof (induction fuel arbitrary: cur)
  case (Suc fuel)
  show ?case
  proof
    assume "read_default_rule (Suc fuel) pn cur = Inl OutOfFuel"
    then obtain y s where i: "read_item pn cur = Inr (y, s)" and "read_default_rule fuel pn s = Inl OutOfFuel"
      by (auto simp: reader_simps item.total split: if_splits)
    with Suc.IH [of s] Suc.prems item.shrinks [OF i] show False by simp
  qed
qed simp

text \<open>A run over several rules inherits both facts from the single rule.\<close>

lemma read_rules_shrinks_of:
  assumes "\<And>cur x r. read_rule fuel pn cur = Inr (x, r) \<Longrightarrow> length r \<le> length cur"
  shows "read_rules fuel pn k cur = Inr (x, r) \<Longrightarrow> length r \<le> length cur"
proof (induction k arbitrary: cur x)
  case (Suc k)
  then obtain y s z where "read_rule fuel pn cur = Inr (y, s)" "read_rules fuel pn k s = Inr (z, r)"
    by (auto simp: reader_simps)
  with assms [of cur y s] Suc.IH [of s z] show ?case by simp
qed simp

lemma read_rule_shrinks: "read_rule fuel pn cur = Inr (x, r) \<Longrightarrow> length r \<le> length cur"
proof (induction fuel arbitrary: cur x r)
  case (Suc fuel)
  have rules: "read_rules fuel pn k c = Inr (y, s) \<Longrightarrow> length s \<le> length c" for k c y s
    using read_rules_shrinks_of Suc.IH by blast
  from Suc.prems show ?case
    by (auto simp: reader_simps simp del: read_default_rule.simps split: if_splits
        dest!: u8.shrinks uvarint.shrinks read_default_rule_shrinks rules)
qed simp

lemma read_rules_total_of:
  assumes "\<And>cur. length cur < fuel \<Longrightarrow> read_rule fuel pn cur \<noteq> Inl OutOfFuel"
  shows "length cur < fuel \<Longrightarrow> read_rules fuel pn k cur \<noteq> Inl OutOfFuel"
proof (induction k arbitrary: cur)
  case (Suc k)
  show ?case
  proof
    assume "read_rules fuel pn (Suc k) cur = Inl OutOfFuel"
    then obtain y s where i: "read_rule fuel pn cur = Inr (y, s)" and "read_rules fuel pn k s = Inl OutOfFuel"
      using assms [OF Suc.prems] by (auto simp: reader_simps)
    with Suc.IH [of s] Suc.prems read_rule_shrinks [OF i] show False by simp
  qed
qed simp

lemma read_rule_total: "length cur < fuel \<Longrightarrow> read_rule fuel pn cur \<noteq> Inl OutOfFuel"
proof (induction fuel arbitrary: cur)
  case (Suc fuel)
  have rules: "length c < fuel \<Longrightarrow> read_rules fuel pn k c \<noteq> Inl OutOfFuel" for k c
    using read_rules_total_of Suc.IH by blast
  show ?case
  proof
    assume "read_rule (Suc fuel) pn cur = Inl OutOfFuel"
    then obtain c1 c2 c3 :: "byte list" and n where "length c1 + 1 \<le> length cur" "length c2 + 1 \<le> length c1" "length c3 + 1 \<le> length c2"
      and "read_rules fuel pn n c3 = Inl OutOfFuel"
      by (auto simp: reader_simps u8.total uvarint.total read_default_rule_total
          simp del: read_default_rule.simps split: if_splits dest!: u8.shrinks uvarint.shrinks)
    with rules [of c3 n] Suc.prems show False by simp
  qed
qed simp

lemma read_rules_total: "length cur < fuel \<Longrightarrow> read_rules fuel pn k cur \<noteq> Inl OutOfFuel"
  using read_rules_total_of read_rule_total by blast

section \<open>Ranges\<close>

lemma take_eq_iff_takeWhile:
  "length xs = length ys \<Longrightarrow> n \<le> length xs \<Longrightarrow>
     take n xs = take n ys \<longleftrightarrow> n \<le> length (takeWhile (\<lambda>(a, b). a = b) (zip xs ys))"
proof (induction xs ys arbitrary: n rule: list_induct2)
  case (Cons x xs y ys)
  then show ?case by (cases n) auto
qed simp

lemma leading_zeros_xor:
  fixes f t :: "'a::len word"
  shows "leading_zeros (f XOR t) =
     length (takeWhile (\<lambda>(a, b). a = b) (zip (map (bit f) (rev [0..<LENGTH('a)])) (map (bit t) (rev [0..<LENGTH('a)]))))"
proof -
  have "map (bit (f XOR t)) is = map (\<lambda>(a, b). a \<noteq> b) (zip (map (bit f) is) (map (bit t) is))" for "is"
    by (induction "is") (auto simp: bit_simps)
  then show ?thesis
    unfolding leading_zeros_def by (simp add: takeWhile_map comp_def case_prod_unfold del: upt_Suc)
qed

lemma leading_zeros_le: "leading_zeros (w :: 'a::len word) \<le> LENGTH('a)"
  unfolding leading_zeros_def using length_takeWhile_le [of Not "map (bit w) (rev [0..<LENGTH('a)])"] by simp

lemma leading_zeros_0: "leading_zeros (0 :: 'a::len word) = LENGTH('a)"
  by (simp add: leading_zeros_def takeWhile_eq_all_conv [THEN iffD2])

text \<open>The prefix length that the code computes is the length of the common prefix of the two bounds.\<close>

lemma common_prefix:
  fixes f t :: "'a::len word"
  assumes "n \<le> LENGTH('a)"
  shows "take n (map (bit f) (rev [0..<LENGTH('a)])) = take n (map (bit t) (rev [0..<LENGTH('a)])) \<longleftrightarrow>
     n \<le> leading_zeros (f XOR t)"
  using assms by (simp add: take_eq_iff_takeWhile leading_zeros_xor del: upt_Suc)

lemma range_prefix_v4:
  fixes f t :: u32
  assumes "f \<le> t"
  defines "n \<equiv> leading_zeros (f XOR t)"
  shows "f \<le> x \<Longrightarrow> x \<le> t \<Longrightarrow> net_covers (NetV4 f n) (V4 x)"
    and "m \<le> 32 \<Longrightarrow> net_covers (NetV4 f m) (V4 t) \<Longrightarrow> m \<le> n"
proof -
  have n: "n \<le> 32"
    using leading_zeros_le [of "f XOR t"] by (simp add: n_def)
  have eq: "take n (ip_bits (V4 f)) = take n (ip_bits (V4 t))"
    using common_prefix [of n f t] n by (simp add: n_def ip_bits_v4 del: upt_Suc ip_bits.simps)
  show "net_covers (NetV4 f n) (V4 x)" if "f \<le> x" "x \<le> t"
  proof -
    have "drop_bit (32 - n) f = drop_bit (32 - n) t"
      using take_bits_eq [of n f t] n eq by (simp add: ip_bits_v4 del: upt_Suc ip_bits.simps)
    from drop_bit_between [OF that this] show ?thesis
      using take_bits_eq [of n f x] n by (simp add: net_covers_def ip_bits_v4 del: upt_Suc ip_bits.simps)
  qed
  show "m \<le> n" if "m \<le> 32" "net_covers (NetV4 f m) (V4 t)"
    using that common_prefix [of m f t] by (simp add: net_covers_def n_def ip_bits_v4 del: upt_Suc ip_bits.simps)
qed

lemma range_to_cidr_v4_eq:
  "from_be lo \<le> (from_be hi :: u32) \<Longrightarrow>
     range_to_cidr_v4 pn lo hi =
     pn (show_v4 (from_be lo) @ ''/'' @ show_nat (leading_zeros (from_be lo XOR from_be hi :: u32)))"
  using leading_zeros_le [of "from_be lo XOR from_be hi :: u32"]
  by (auto simp: range_to_cidr_v4_def Let_def leading_zeros_0)

section \<open>Properties\<close>


text \<open>The network an SRS address range becomes contains the whole range, and it is the smallest
  network at the lower bound that does: given that the network parser reads back the literal that is
  built from the lower bound and the computed prefix, every address of the range is covered, and a
  longer prefix at the lower bound would lose the upper bound.\<close>

theorem range_to_cidr_v4_covers:
  fixes lo hi :: "byte list"
  defines "f \<equiv> from_be lo :: u32" and "t \<equiv> from_be hi :: u32"
  defines "n \<equiv> leading_zeros (f XOR t)"
  assumes "f \<le> t" and "parse_net (show_v4 f @ ''/'' @ show_nat n) = Some (NetV4 f n)"
  shows "range_to_cidr_v4 parse_net lo hi = Some (NetV4 f n) \<and>
    (\<forall>x. f \<le> x \<and> x \<le> t \<longrightarrow> net_covers (NetV4 f n) (V4 x)) \<and>
    (\<forall>m. n < m \<and> m \<le> 32 \<longrightarrow> \<not> net_covers (NetV4 f m) (V4 t))"
proof (intro conjI allI impI)
  show "range_to_cidr_v4 parse_net lo hi = Some (NetV4 f n)"
    using assms(4,5) range_to_cidr_v4_eq [of lo hi parse_net] by (simp add: f_def t_def n_def)
  show "net_covers (NetV4 f n) (V4 x)" if "f \<le> x \<and> x \<le> t" for x
    using range_prefix_v4(1) [OF assms(4)] that by (simp add: n_def)
  show "\<not> net_covers (NetV4 f m) (V4 t)" if "n < m \<and> m \<le> 32" for m
    using range_prefix_v4(2) [OF assms(4), of m] that by (auto simp: n_def)
qed

theorem range_to_cidr_v4_covers_witness:
  "range_to_cidr_v4 (\<lambda>s. if s = ''10.0.0.0/30'' then Some (NetV4 0x0A000000 30) else None)
     [10, 0, 0, 0] [10, 0, 0, 2] = Some (NetV4 0x0A000000 30) \<and>
   net_covers (NetV4 0x0A000000 30) (V4 0x0A000001)"
proof -
  let ?pn = "\<lambda>s. if s = ''10.0.0.0/30'' then Some (NetV4 0x0A000000 30) else None"
  have v: "from_be [10, 0, 0, 0] = (0x0A000000 :: u32)" "from_be [10, 0, 0, 2] = (0x0A000002 :: u32)"
    "leading_zeros (0x0A000000 XOR 0x0A000002 :: u32) = 30"
    "?pn (show_v4 0x0A000000 @ ''/'' @ show_nat 30) = Some (NetV4 0x0A000000 30)"
    by code_simp+
  show ?thesis
    using range_to_cidr_v4_covers [of "[10, 0, 0, 0]" "[10, 0, 0, 2]" ?pn, unfolded v] by simp
qed

text \<open>The reader of variable-length integers accepts an encoding that overflows 64 bits: its tenth
  byte is shifted by 63, so every bit of it but the lowest is lost without an error.  Nine continuation
  bytes followed by the byte 2 are read as 0.\<close>

theorem read_uvarint_tenth_byte:
  "read_uvarint ([0x80, 0x80, 0x80, 0x80, 0x80, 0x80, 0x80, 0x80, 0x80, 2] @ r) = Inr (0, r)"
  by (simp add: read_uvarint_def read_uvarint_loop.simps read_u8_def Let_def)

end
