(* ===== verification/Provider.thy ===== *)
theory Provider
  imports Srs
begin

text \<open>
  Rule providers, the stateful part of \<^verbatim>\<open>src/src/router/provider.rs\<close>: loading from a local file,
  downloading with a cache file as fallback, lazy loading at the first match, and the binary cache of
  compiled rule sets.  The file system is explicit state (content and modification time per path); the
  HTTP server, the clock, the permission to write and the libraries for decompression and network
  literals are the fields of the record \<^verbatim>\<open>io_env\<close>.  A poisoned lock needs a panic inside a critical section,
  which none of the sections contains, so locks do not appear.
\<close>

section \<open>Definitions\<close>

record disk_file =
  f_bytes :: "byte list"
  f_mtime :: "nat option"

type_synonym fs = "(string, disk_file) hashmap"

text \<open>A response has a status, the \<^verbatim>\<open>Last-Modified\<close> header if it is text, and the body unless
  reading it fails.\<close>

datatype http_outcome = SendFailed | Response nat "string option" "string option"

record io_env =
  io_now :: nat
  io_http :: "string \<Rightarrow> string option \<Rightarrow> http_outcome"
  io_can_write :: "string \<Rightarrow> bool"
  io_inflate :: "byte list \<Rightarrow> byte list option"
  io_parse_net :: "string \<Rightarrow> ip_net option"
  io_contains :: "ip_net \<Rightarrow> ip_addr \<Rightarrow> bool"

record rule_provider_config =
  pc_provider_type :: string
  pc_behavior :: string
  pc_path :: string
  pc_url :: "string option"
  pc_interval :: nat
  pc_lazy :: bool

record rule_provider =
  rp_name :: string
  rp_config :: rule_provider_config
  rp_rules :: rule_set_data
  rp_loaded :: bool
  rp_last_modified :: "string option"

datatype provider_error =
    MissingUrl string
  | RequestFailed
  | HttpStatus nat
  | BodyFailed
  | WriteFailed string
  | ReadFailed string
  | NotUtf8 string
  | UnsupportedBehavior string
  | RuleSetError ruleset_error
  | SrsError srs_error
  | DownloadFailed provider_error

definition empty_rules :: rule_set_data where
  "empty_rules = \<lparr>domain_rules = [], ip_cidrs = []\<rparr>"

definition provider_new :: "string \<Rightarrow> rule_provider_config \<Rightarrow> rule_provider" where
  "provider_new name cfg =
     \<lparr>rp_name = name, rp_config = cfg, rp_rules = empty_rules, rp_loaded = False, rp_last_modified = None\<rparr>"

definition should_periodic_refresh :: "rule_provider \<Rightarrow> bool" where
  "should_periodic_refresh p = (pc_provider_type (rp_config p) = ''http'' \<and> pc_interval (rp_config p) > 0)"

fun map_error :: "('e \<Rightarrow> 'f) \<Rightarrow> ('e, 'a) result \<Rightarrow> ('f, 'a) result" where
  "map_error f (Inl e) = Inl (f e)"
| "map_error f (Inr x) = Inr x"

definition parse_behavior ::
  "io_env \<Rightarrow> string \<Rightarrow> string \<Rightarrow> (provider_error, rule_set_data) result" where
  "parse_behavior env beh content =
     (if beh = ''domain'' then map_error RuleSetError (parse_domain_rules content)
      else if beh = ''ipcidr'' then map_error RuleSetError (parse_ipcidr_rules (io_parse_net env) content)
      else if beh = ''classical'' then map_error RuleSetError (parse_classical_rules (io_parse_net env) content)
      else Inl (UnsupportedBehavior beh))"

definition parse_content :: "io_env \<Rightarrow> rule_provider \<Rightarrow> string \<Rightarrow> (provider_error, rule_set_data) result" where
  "parse_content env p content = parse_behavior env (pc_behavior (rp_config p)) content"

definition replace_rules :: "rule_set_data \<Rightarrow> rule_provider \<Rightarrow> bool \<times> rule_provider" where
  "replace_rules parsed p = (rp_rules p \<noteq> parsed, p\<lparr>rp_rules := parsed\<rparr>)"

text \<open>The operations return the result, the provider and the file system.\<close>

type_synonym 'a step = "(provider_error, 'a) result \<times> rule_provider \<times> fs"

definition write_file :: "io_env \<Rightarrow> string \<Rightarrow> byte list \<Rightarrow> fs \<Rightarrow> fs" where
  "write_file env pth bs files = hm_insert pth \<lparr>f_bytes = bs, f_mtime = Some (io_now env)\<rparr> files"

definition refresh_http_provider :: "io_env \<Rightarrow> rule_provider \<Rightarrow> fs \<Rightarrow> bool step" where
  "refresh_http_provider env p files =
     (if pc_provider_type (rp_config p) \<noteq> ''http'' then (Inr False, p, files)
      else (case pc_url (rp_config p) of
        None \<Rightarrow> (Inl (MissingUrl (rp_name p)), p, files)
      | Some u \<Rightarrow>
        (case io_http env u (rp_last_modified p) of
          SendFailed \<Rightarrow> (Inl RequestFailed, p, files)
        | Response status remote_lm body \<Rightarrow>
          if status = 304 then (Inr False, p, files)
          else if \<not> (200 \<le> status \<and> status < 300) then (Inl (HttpStatus status), p, files)
          else (case body of
            None \<Rightarrow> (Inl BodyFailed, p, files)
          | Some content \<Rightarrow>
            let pth = pc_path (rp_config p) in
            if \<not> io_can_write env pth then (Inl (WriteFailed pth), p, files)
            else
              let files' = write_file env pth (as_bytes content) files in
              (case parse_content env p content of
                Inl e \<Rightarrow> (Inl e, p, files')
              | Inr parsed \<Rightarrow>
                (case replace_rules parsed p of (changed, p1) \<Rightarrow>
                  let p2 = (case remote_lm of Some lm \<Rightarrow> p1\<lparr>rp_last_modified := Some lm\<rparr> | None \<Rightarrow> p1)
                  in (Inr changed, p2\<lparr>rp_loaded := True\<rparr>, files')))))))"

definition decode_file :: "io_env \<Rightarrow> rule_provider \<Rightarrow> byte list \<Rightarrow> (provider_error, rule_set_data) result" where
  "decode_file env p raw =
     (if is_srs_format raw then map_error SrsError (parse_srs (io_inflate env) (io_parse_net env) raw)
      else (case from_utf8 raw of
          None \<Rightarrow> Inl (NotUtf8 (rp_name p))
        | Some content \<Rightarrow> parse_content env p content))"

definition load_from_local_file :: "io_env \<Rightarrow> rule_provider \<Rightarrow> fs \<Rightarrow> bool step" where
  "load_from_local_file env p files =
     (case hm_get files (pc_path (rp_config p)) of
        None \<Rightarrow> (Inl (ReadFailed (pc_path (rp_config p))), p, files)
      | Some f \<Rightarrow>
        (case decode_file env p (f_bytes f) of
           Inl e \<Rightarrow> (Inl e, p, files)
         | Inr parsed \<Rightarrow> (case replace_rules parsed p of (changed, p') \<Rightarrow> (Inr changed, p', files))))"

text \<open>A modification time in the future gives the elapsed time 0.\<close>

definition should_update_cache :: "io_env \<Rightarrow> rule_provider \<Rightarrow> fs \<Rightarrow> bool" where
  "should_update_cache env p files =
     (case hm_get files (pc_path (rp_config p)) of
        Some f \<Rightarrow> (case f_mtime f of Some m \<Rightarrow> io_now env - m > pc_interval (rp_config p) | None \<Rightarrow> True)
      | None \<Rightarrow> True)"

definition load_http_with_cache_fallback :: "io_env \<Rightarrow> rule_provider \<Rightarrow> fs \<Rightarrow> bool step" where
  "load_http_with_cache_fallback env p files =
     (case pc_url (rp_config p) of
        None \<Rightarrow> (Inl (MissingUrl (rp_name p)), p, files)
      | Some _ \<Rightarrow>
        let has_cache = (hm_get files (pc_path (rp_config p)) \<noteq> None) in
        if should_update_cache env p files then
          (case refresh_http_provider env p files of
             (Inr changed, p', files') \<Rightarrow> (Inr changed, p', files')
           | (Inl e, p', files') \<Rightarrow>
               if has_cache then load_from_local_file env p' files'
               else (Inl (DownloadFailed e), p', files'))
        else load_from_local_file env p files)"

definition load_once :: "io_env \<Rightarrow> rule_provider \<Rightarrow> fs \<Rightarrow> unit step" where
  "load_once env p files =
     (if rp_loaded p then (Inr (), p, files)
      else
        (case (if pc_provider_type (rp_config p) = ''http'' then load_http_with_cache_fallback env p files
               else load_from_local_file env p files) of
           (Inl e, p', files') \<Rightarrow> (Inl e, p', files')
         | (Inr _, p', files') \<Rightarrow> (Inr (), p'\<lparr>rp_loaded := True\<rparr>, files')))"

definition init_load_if_needed :: "io_env \<Rightarrow> rule_provider \<Rightarrow> fs \<Rightarrow> unit step" where
  "init_load_if_needed env p files =
     (if pc_lazy (rp_config p) then (Inr (), p, files) else load_once env p files)"

text \<open>A failed lazy load is logged and the provider keeps its rules.\<close>

definition ensure_loaded_for_match :: "io_env \<Rightarrow> rule_provider \<Rightarrow> fs \<Rightarrow> rule_provider \<times> fs" where
  "ensure_loaded_for_match env p files =
     (if \<not> pc_lazy (rp_config p) \<or> rp_loaded p then (p, files)
      else snd (load_once env p files))"

definition provider_matches_domain :: "io_env \<Rightarrow> string \<Rightarrow> rule_provider \<Rightarrow> fs \<Rightarrow> bool \<times> rule_provider \<times> fs" where
  "provider_matches_domain env d p files =
     (case ensure_loaded_for_match env p files of (p', files') \<Rightarrow>
        (ruleset_matches_domain (rp_rules p') d, p', files'))"

definition provider_matches_ip :: "io_env \<Rightarrow> ip_addr \<Rightarrow> rule_provider \<Rightarrow> fs \<Rightarrow> bool \<times> rule_provider \<times> fs" where
  "provider_matches_ip env ip p files =
     (case ensure_loaded_for_match env p files of (p', files') \<Rightarrow>
        (ruleset_matches_ip (io_contains env) (rp_rules p') ip, p', files'))"

definition load_provider ::
  "io_env \<Rightarrow> string \<Rightarrow> rule_provider_config \<Rightarrow> fs \<Rightarrow> (provider_error, rule_provider) result \<times> fs" where
  "load_provider env name cfg files =
     (case init_load_if_needed env (provider_new name cfg) files of
        (Inl e, _, files') \<Rightarrow> (Inl e, files')
      | (Inr _, p, files') \<Rightarrow> (Inr p, files'))"

fun load_providers ::
  "io_env \<Rightarrow> (string \<times> rule_provider_config) list \<Rightarrow> (string, rule_provider) hashmap \<Rightarrow> fs
     \<Rightarrow> (provider_error, (string, rule_provider) hashmap) result \<times> fs" where
  "load_providers env [] acc files = (Inr acc, files)"
| "load_providers env ((name, cfg) # cs) acc files =
     (case load_provider env name cfg files of
        (Inl e, files') \<Rightarrow> (Inl e, files')
      | (Inr p, files') \<Rightarrow> load_providers env cs (hm_insert name p acc) files')"

definition load_all_providers ::
  "io_env \<Rightarrow> (string, rule_provider_config) hashmap \<Rightarrow> fs
     \<Rightarrow> (provider_error, (string, rule_provider) hashmap) result \<times> fs" where
  "load_all_providers env configs files = load_providers env configs [] files"

subsection \<open>Binary cache\<close>

definition read_to_string :: "string \<Rightarrow> fs \<Rightarrow> (provider_error, string) result" where
  "read_to_string pth files =
     (case hm_get files pth of
        None \<Rightarrow> Inl (ReadFailed pth)
      | Some f \<Rightarrow> (case from_utf8 (f_bytes f) of None \<Rightarrow> Inl (NotUtf8 pth) | Some s \<Rightarrow> Inr s))"

definition compile_ruleset_to_binary ::
  "io_env \<Rightarrow> string \<Rightarrow> string \<Rightarrow> string \<Rightarrow> fs \<Rightarrow> (provider_error, unit) result \<times> fs" where
  "compile_ruleset_to_binary env text_path binary_path beh files =
     (case read_to_string text_path files of
        Inl e \<Rightarrow> (Inl e, files)
      | Inr content \<Rightarrow>
        (case parse_behavior env beh content of
           Inl e \<Rightarrow> (Inl e, files)
         | Inr data \<Rightarrow>
             if io_can_write env binary_path
             then (Inr (), write_file env binary_path (serialize_ruleset_binary data) files)
             else (Inl (WriteFailed binary_path), files)))"

definition mtime_of :: "string \<Rightarrow> fs \<Rightarrow> nat option" where
  "mtime_of pth files = (case hm_get files pth of Some f \<Rightarrow> f_mtime f | None \<Rightarrow> None)"

definition binary_cache_hit :: "string \<Rightarrow> fs \<Rightarrow> rule_set_data option" where
  "binary_cache_hit text_path files =
     (case (mtime_of text_path files, mtime_of (text_path @ ''.bin'') files) of
        (Some text_t, Some bin_t) \<Rightarrow>
          if text_t \<le> bin_t then
            (case hm_get files (text_path @ ''.bin'') of
               Some f \<Rightarrow> (case deserialize_ruleset_binary (f_bytes f) of Inr data \<Rightarrow> Some data | Inl _ \<Rightarrow> None)
             | None \<Rightarrow> None)
          else None
      | _ \<Rightarrow> None)"

definition load_ruleset_with_binary_cache ::
  "io_env \<Rightarrow> string \<Rightarrow> string \<Rightarrow> fs \<Rightarrow> (provider_error, rule_set_data) result \<times> fs" where
  "load_ruleset_with_binary_cache env text_path beh files =
     (case binary_cache_hit text_path files of
        Some data \<Rightarrow> (Inr data, files)
      | None \<Rightarrow>
        (case read_to_string text_path files of
           Inl e \<Rightarrow> (Inl e, files)
         | Inr content \<Rightarrow>
           (case parse_behavior env beh content of
              Inl e \<Rightarrow> (Inl e, files)
            | Inr data \<Rightarrow>
              (Inr data,
               if io_can_write env (text_path @ ''.bin'')
               then write_file env (text_path @ ''.bin'') (serialize_ruleset_binary data) files
               else files))))"

subsection \<open>Invariant\<close>

text \<open>A provider that has not been loaded has no rules and no validator for conditional requests.\<close>

definition provider_inv :: "rule_provider \<Rightarrow> bool" where
  "provider_inv p = (rp_loaded p \<or> rp_rules p = empty_rules \<and> rp_last_modified p = None)"

text \<open>An HTTP server that answers \<^verbatim>\<open>304 Not Modified\<close> to conditional requests only.\<close>

definition honest_server :: "io_env \<Rightarrow> bool" where
  "honest_server env = (\<forall>u lm body. io_http env u None \<noteq> Response 304 lm body)"

text \<open>The rules a file content stands for: a downloaded body is parsed as text, a file that is read
  from disk may also be in the SRS format.\<close>

definition rules_of_file :: "io_env \<Rightarrow> rule_provider \<Rightarrow> byte list \<Rightarrow> rule_set_data \<Rightarrow> bool" where
  "rules_of_file env p raw R =
     (decode_file env p raw = Inr R \<or> (\<exists>c. raw = as_bytes c \<and> parse_content env p c = Inr R))"

section \<open>Lemmas\<close>

lemma parse_content_config: "rp_config p = rp_config q \<Longrightarrow> parse_content env p = parse_content env q"
  by (rule ext) (simp add: parse_content_def)

lemma decode_file_config:
  "rp_config p = rp_config q \<Longrightarrow> rp_name p = rp_name q \<Longrightarrow> decode_file env p = decode_file env q"
  by (rule ext) (simp add: decode_file_def parse_content_config [of p q] split: option.splits)

lemma refresh_error_keeps_provider:
  "refresh_http_provider env p files = (Inl e, p', files') \<Longrightarrow> p' = p"
  by (auto simp: refresh_http_provider_def replace_rules_def Let_def
      split: if_splits option.splits http_outcome.splits sum.splits)

lemma refresh_success:
  assumes "refresh_http_provider env p files = (Inr changed, p', files')"
    and "pc_provider_type (rp_config p) = ''http''" and "rp_last_modified p = None" and "honest_server env"
  shows "rp_loaded p' \<and> rp_config p' = rp_config p \<and> rp_name p' = rp_name p \<and>
    (\<exists>f. hm_get files' (pc_path (rp_config p)) = Some f \<and> rules_of_file env p (f_bytes f) (rp_rules p'))"
  using assms
  by (auto simp: refresh_http_provider_def replace_rules_def Let_def honest_server_def rules_of_file_def write_file_def
      split: if_splits option.splits http_outcome.splits sum.splits)

lemma local_load_success:
  assumes "load_from_local_file env p files = (Inr changed, p', files')"
  shows "files' = files \<and> rp_config p' = rp_config p \<and> rp_name p' = rp_name p \<and> rp_loaded p' = rp_loaded p \<and>
    (\<exists>f. hm_get files (pc_path (rp_config p)) = Some f \<and> rules_of_file env p (f_bytes f) (rp_rules p'))"
  using assms by (auto simp: load_from_local_file_def replace_rules_def rules_of_file_def split: option.splits sum.splits)

lemma local_load_error:
  "load_from_local_file env p files = (Inl e, p', files') \<Longrightarrow> p' = p \<and> files' = files"
  by (auto simp: load_from_local_file_def replace_rules_def split: option.splits sum.splits)

lemma load_once_error:
  "load_once env p files = (Inl e, p', files') \<Longrightarrow> p' = p"
  by (auto simp: load_once_def load_http_with_cache_fallback_def Let_def
      split: if_splits option.splits sum.splits prod.splits
      dest!: refresh_error_keeps_provider local_load_error)

lemma load_once_success:
  assumes "load_once env p files = (Inr u, p', files')" and "\<not> rp_loaded p"
    and "provider_inv p" and "honest_server env"
  shows "rp_loaded p' \<and> (\<exists>f. hm_get files' (pc_path (rp_config p)) = Some f \<and> rules_of_file env p (f_bytes f) (rp_rules p'))"
proof (cases "pc_provider_type (rp_config p) = ''http''")
  case False
  with assms(1,2) obtain c q where "load_from_local_file env p files = (Inr c, q, files')"
    and "p' = q\<lparr>rp_loaded := True\<rparr>"
    by (auto simp: load_once_def split: prod.splits sum.splits)
  with local_load_success show ?thesis by fastforce
next
  case True
  have lm: "rp_last_modified p = None"
    using assms(2,3) by (simp add: provider_inv_def)
  from True assms(1,2) obtain c q where l: "load_http_with_cache_fallback env p files = (Inr c, q, files')"
    and p': "p' = q\<lparr>rp_loaded := True\<rparr>"
    by (auto simp: load_once_def split: prod.splits sum.splits)
  from l consider "refresh_http_provider env p files = (Inr c, q, files')"
    | e p1 files1 where "refresh_http_provider env p files = (Inl e, p1, files1)"
        "load_from_local_file env p1 files1 = (Inr c, q, files')"
    | "load_from_local_file env p files = (Inr c, q, files')"
    by (auto simp: load_http_with_cache_fallback_def Let_def split: if_splits option.splits prod.splits sum.splits)
  then show ?thesis
  proof cases
    case 1
    from refresh_success [OF this True lm assms(4)] p' show ?thesis by simp
  next
    case 2
    with refresh_error_keeps_provider [OF 2(1)] local_load_success [OF 2(2)] p' show ?thesis by simp
  next
    case 3
    from local_load_success [OF this] p' show ?thesis by simp
  qed
qed

lemma ensure_loaded_settled:
  "\<not> pc_lazy (rp_config p) \<or> rp_loaded p \<Longrightarrow> ensure_loaded_for_match env p files = (p, files)"
  by (auto simp: ensure_loaded_for_match_def)

lemma ruleset_matches_empty [simp]: "\<not> ruleset_matches_domain empty_rules d" "\<not> ruleset_matches_ip c empty_rules ip"
  by (simp_all add: ruleset_matches_domain_def ruleset_matches_ip_def empty_rules_def)

lemma append_bin_neq [simp]: "(pth :: string) @ ''.bin'' \<noteq> pth" "pth \<noteq> pth @ ''.bin''"
  by simp_all

lemma cache_hit_after_write:
  assumes "mtime_of text_path files = Some t" and "t \<le> io_now env" and "ruleset_encodable data"
  shows "binary_cache_hit text_path
     (write_file env (text_path @ ''.bin'') (serialize_ruleset_binary data) files) = Some data"
  using assms ruleset_deserialize [OF assms(3), of "[]"]
  by (simp add: binary_cache_hit_def write_file_def mtime_of_def)

section \<open>Properties\<close>

text \<open>The first match against a lazy provider loads it: either the load succeeds, and then the
  answer is that of the rules of the file now on disk and every later match leaves provider and disk
  alone, or it fails, and then the provider is unchanged and nothing matches.\<close>

theorem lazy_provider_match:
  assumes "provider_matches_domain env d p files = (b, p', files')"
    and "pc_lazy (rp_config p)" and "\<not> rp_loaded p" and "provider_inv p" and "honest_server env"
  shows "(rp_loaded p' \<and> b = ruleset_matches_domain (rp_rules p') d \<and>
      (\<exists>f. hm_get files' (pc_path (rp_config p)) = Some f \<and> rules_of_file env p (f_bytes f) (rp_rules p')) \<and>
      (\<forall>env2 d2 files2. provider_matches_domain env2 d2 p' files2 = (ruleset_matches_domain (rp_rules p') d2, p', files2)))
    \<or> (p' = p \<and> \<not> b)"
proof -
  obtain r q files1 where l: "load_once env p files = (r, q, files1)"
    by (metis prod_cases3)
  then have p': "p' = q" "files' = files1" "b = ruleset_matches_domain (rp_rules p') d"
    using assms(1-3) by (auto simp: provider_matches_domain_def ensure_loaded_for_match_def)
  show ?thesis
  proof (cases r)
    case (Inl e)
    with l have "q = p"
      using load_once_error by simp
    with p' assms(3,4) show ?thesis
      by (simp add: provider_inv_def)
  next
    case (Inr u)
    with load_once_success [of env p files u q files1] l assms(3-5) p' show ?thesis
      by (auto simp: provider_matches_domain_def ensure_loaded_settled)
  qed
qed

theorem lazy_provider_match_witness:
  "let cfg = \<lparr>pc_provider_type = ''file'', pc_behavior = ''domain'', pc_path = ''r'', pc_url = None,
               pc_interval = 0, pc_lazy = True\<rparr>;
       env = \<lparr>io_now = 5, io_http = \<lambda>_ _. SendFailed, io_can_write = \<lambda>_. True, io_inflate = \<lambda>_. None,
               io_parse_net = \<lambda>_. None, io_contains = net_covers\<rparr>;
       files = [(''r'', \<lparr>f_bytes = as_bytes ''a.io'', f_mtime = Some 1\<rparr>)]
   in fst (provider_matches_domain env ''x.a.io'' (provider_new ''n'' cfg) files) \<and>
      (let (b, p', files') = provider_matches_domain env ''x.a.io'' (provider_new ''n'' cfg) files
       in b = ruleset_matches_domain (rp_rules p') ''x.a.io'')"
proof -
  let ?cfg = "\<lparr>pc_provider_type = ''file'', pc_behavior = ''domain'', pc_path = ''r'', pc_url = None,
               pc_interval = 0, pc_lazy = True\<rparr>"
  let ?env = "\<lparr>io_now = 5, io_http = \<lambda>_ _. SendFailed, io_can_write = \<lambda>_. True, io_inflate = \<lambda>_. None,
               io_parse_net = \<lambda>_. None, io_contains = net_covers\<rparr>"
  let ?files = "[(''r'', \<lparr>f_bytes = as_bytes ''a.io'', f_mtime = Some 1\<rparr>)]"
  obtain b p' files' where m: "provider_matches_domain ?env ''x.a.io'' (provider_new ''n'' ?cfg) ?files = (b, p', files')"
    by (metis prod_cases3)
  have b: "fst (provider_matches_domain ?env ''x.a.io'' (provider_new ''n'' ?cfg) ?files)"
    by code_simp
  have "honest_server ?env" "provider_inv (provider_new ''n'' ?cfg)"
    "\<not> rp_loaded (provider_new ''n'' ?cfg)" "pc_lazy (rp_config (provider_new ''n'' ?cfg))"
    by (simp_all add: honest_server_def provider_inv_def provider_new_def)
  with lazy_provider_match [OF m] b m show ?thesis by auto
qed

text \<open>A download that does not parse destroys the cache it is meant to be backed up by: the body is
  written to the cache path before it is parsed, so when a stale but valid cache exists and the server
  returns a body that is not a valid rule file, the fallback reads the new body again and loading fails,
  although the code reports that it uses the cached version.\<close>

theorem bad_download_destroys_cache:
  assumes "pc_provider_type (rp_config p) = ''http''" and "\<not> rp_loaded p"
    and "pc_url (rp_config p) = Some u" and "should_update_cache env p files"
    and "hm_get files (pc_path (rp_config p)) = Some old" and "is_ok (decode_file env p (f_bytes old))"
    and "io_http env u (rp_last_modified p) = Response 200 lm (Some content)"
    and "io_can_write env (pc_path (rp_config p))"
    and "parse_content env p content = Inl e"
    and "valid_utf8 (as_bytes content)" and "\<not> is_srs_format (as_bytes content)"
  shows "\<exists>files'. load_once env p files = (Inl e, p, files') \<and>
    map_option f_bytes (hm_get files' (pc_path (rp_config p))) = Some (as_bytes content)"
proof -
  have "refresh_http_provider env p files =
      (Inl e, p, write_file env (pc_path (rp_config p)) (as_bytes content) files)"
    using assms by (simp add: refresh_http_provider_def Let_def)
  moreover have "decode_file env p (as_bytes content) = Inl e"
    using assms by (simp add: decode_file_def from_utf8_as_bytes)
  ultimately show ?thesis
    using assms by (simp add: load_once_def load_http_with_cache_fallback_def load_from_local_file_def write_file_def)
qed

theorem bad_download_destroys_cache_witness:
  "let cfg = \<lparr>pc_provider_type = ''http'', pc_behavior = ''ipcidr'', pc_path = ''r'', pc_url = Some ''u'',
               pc_interval = 0, pc_lazy = False\<rparr>;
       env = \<lparr>io_now = 5, io_http = \<lambda>_ _. Response 200 None (Some ''bogus''), io_can_write = \<lambda>_. True,
               io_inflate = \<lambda>_. None, io_parse_net = \<lambda>_. None, io_contains = net_covers\<rparr>;
       files = [(''r'', \<lparr>f_bytes = as_bytes ''# none'', f_mtime = Some 1\<rparr>)]
   in fst (load_once env (provider_new ''n'' cfg) files) = Inl (RuleSetError (InvalidCidr ''bogus''))"
proof -
  let ?cfg = "\<lparr>pc_provider_type = ''http'', pc_behavior = ''ipcidr'', pc_path = ''r'', pc_url = Some ''u'',
               pc_interval = 0, pc_lazy = False\<rparr>"
  let ?env = "\<lparr>io_now = 5, io_http = \<lambda>_ _. Response 200 None (Some ''bogus''), io_can_write = \<lambda>_. True,
               io_inflate = \<lambda>_. None, io_parse_net = \<lambda>_. None, io_contains = net_covers\<rparr>"
  let ?files = "[(''r'', \<lparr>f_bytes = as_bytes ''# none'', f_mtime = Some 1\<rparr>)]"
  let ?p = "provider_new ''n'' ?cfg"
  have "pc_provider_type (rp_config ?p) = ''http''" "\<not> rp_loaded ?p" "pc_url (rp_config ?p) = Some ''u''"
    "should_update_cache ?env ?p ?files"
    "hm_get ?files (pc_path (rp_config ?p)) = Some \<lparr>f_bytes = as_bytes ''# none'', f_mtime = Some 1\<rparr>"
    "is_ok (decode_file ?env ?p (f_bytes \<lparr>f_bytes = as_bytes ''# none'', f_mtime = Some 1\<rparr>))"
    "io_http ?env ''u'' (rp_last_modified ?p) = Response 200 None (Some ''bogus'')"
    "io_can_write ?env (pc_path (rp_config ?p))"
    "parse_content ?env ?p ''bogus'' = Inl (RuleSetError (InvalidCidr ''bogus''))"
    "valid_utf8 (as_bytes ''bogus'')" "\<not> is_srs_format (as_bytes ''bogus'')"
    by code_simp+
  from bad_download_destroys_cache [OF this] show ?thesis
    by (auto simp: Let_def)
qed

text \<open>The binary cache is coherent: after a rule file has been loaded from text and its compiled
  form written beside it, loading the same file again, later and with any behaviour argument, returns
  the same rule set from the cache without changing the disk.\<close>

theorem binary_cache_coherent:
  assumes "load_ruleset_with_binary_cache env text_path beh files = (Inr data, files')"
    and "binary_cache_hit text_path files = None" and "ruleset_encodable data"
    and "io_can_write env (text_path @ ''.bin'')"
    and "mtime_of text_path files = Some t" and "t \<le> io_now env"
  shows "load_ruleset_with_binary_cache env2 text_path beh2 files' = (Inr data, files')"
proof -
  have "files' = write_file env (text_path @ ''.bin'') (serialize_ruleset_binary data) files"
    using assms(1,2,4) by (auto simp: load_ruleset_with_binary_cache_def split: sum.splits)
  with cache_hit_after_write [OF assms(5,6,3)] show ?thesis
    by (simp add: load_ruleset_with_binary_cache_def)
qed

theorem binary_cache_coherent_witness:
  "let env = \<lparr>io_now = 5, io_http = \<lambda>_ _. SendFailed, io_can_write = \<lambda>_. True, io_inflate = \<lambda>_. None,
               io_parse_net = \<lambda>_. None, io_contains = net_covers\<rparr>;
       files = [(''r'', \<lparr>f_bytes = as_bytes ''a.io'', f_mtime = Some 1\<rparr>)];
       files' = snd (load_ruleset_with_binary_cache env ''r'' ''domain'' files)
   in fst (load_ruleset_with_binary_cache env ''r'' ''ipcidr'' files') =
        Inr \<lparr>domain_rules = [RSuffix ''a.io''], ip_cidrs = []\<rparr>"
proof -
  let ?env = "\<lparr>io_now = 5, io_http = \<lambda>_ _. SendFailed, io_can_write = \<lambda>_. True, io_inflate = \<lambda>_. None,
               io_parse_net = \<lambda>_. None, io_contains = net_covers\<rparr>"
  let ?files = "[(''r'', \<lparr>f_bytes = as_bytes ''a.io'', f_mtime = Some 1\<rparr>)]"
  let ?data = "\<lparr>domain_rules = [RSuffix ''a.io''], ip_cidrs = []\<rparr>"
  have l: "fst (load_ruleset_with_binary_cache ?env ''r'' ''domain'' ?files) = Inr ?data"
    and c: "binary_cache_hit ''r'' ?files = None" and m: "mtime_of ''r'' ?files = Some 1"
    by code_simp+
  have "ruleset_encodable ?data"
    by (simp add: ruleset_encodable_def as_bytes_def)
  from binary_cache_coherent [of ?env "''r''" "''domain''" ?files ?data _ 1, OF _ c this _ m] l show ?thesis
    by (simp add: Let_def prod_eq_iff)
qed

end
