(* ===== verification/Geosite.thy ===== *)
theory Geosite
  imports Provider
begin

text \<open>
  The GeoSite database, \<^verbatim>\<open>src/src/router/geosite.rs\<close>: text files of site rules grouped by category.
  Loading reads the file system model of the provider theory.
\<close>

section \<open>Definitions\<close>

datatype site_rule = SiteDomain string | SiteDomainSuffix string | SiteDomainKeyword string

record geosite_db =
  gs_categories :: "(string, site_rule list) hashmap"

definition parse_site_line :: "string \<Rightarrow> site_rule option" where
  "parse_site_line raw =
     (let line = trim raw in
      if line = [] \<or> starts_with line ''#'' then None
      else Some (
        case strip_prefix line ''domain:'' of Some d \<Rightarrow> SiteDomain (to_lowercase d) | None \<Rightarrow>
       (case strip_prefix line ''domain_suffix:'' of Some s \<Rightarrow> SiteDomainSuffix (to_lowercase s) | None \<Rightarrow>
       (case strip_prefix line ''domain_keyword:'' of Some k \<Rightarrow> SiteDomainKeyword (to_lowercase k) | None \<Rightarrow>
        SiteDomainSuffix (to_lowercase line)))))"

definition parse_site_rules :: "string \<Rightarrow> site_rule list" where
  "parse_site_rules content = List.map_filter parse_site_line (str_lines content)"

definition geosite_load :: "string \<Rightarrow> string \<Rightarrow> fs \<Rightarrow> (provider_error, geosite_db) result" where
  "geosite_load pth category files =
     (case read_to_string pth files of
        Inl e \<Rightarrow> Inl e
      | Inr content \<Rightarrow>
          Inr \<lparr>gs_categories = hm_insert (to_lowercase category) (parse_site_rules content) []\<rparr>)"

fun load_entries ::
  "(string \<times> string) list \<Rightarrow> fs \<Rightarrow> (string, site_rule list) hashmap
     \<Rightarrow> (provider_error, (string, site_rule list) hashmap) result" where
  "load_entries [] files acc = Inr acc"
| "load_entries ((pth, category) # es) files acc =
     (case read_to_string pth files of
        Inl e \<Rightarrow> Inl e
      | Inr content \<Rightarrow> load_entries es files (hm_insert (to_lowercase category) (parse_site_rules content) acc))"

definition geosite_load_multiple :: "(string \<times> string) list \<Rightarrow> fs \<Rightarrow> (provider_error, geosite_db) result" where
  "geosite_load_multiple entries files =
     (case load_entries entries files [] of Inl e \<Rightarrow> Inl e | Inr cs \<Rightarrow> Inr \<lparr>gs_categories = cs\<rparr>)"

fun site_rule_matches :: "string \<Rightarrow> site_rule \<Rightarrow> bool" where
  "site_rule_matches dl (SiteDomain d) = (dl = d)"
| "site_rule_matches dl (SiteDomainSuffix s) = (dl = s \<or> ends_with dl (CHR ''.'' # s))"
| "site_rule_matches dl (SiteDomainKeyword k) = str_contains dl k"

definition geosite_matches :: "geosite_db \<Rightarrow> string \<Rightarrow> string \<Rightarrow> bool" where
  "geosite_matches db d category =
     (case hm_get (gs_categories db) (to_lowercase category) of
        Some rules \<Rightarrow> (let dl = to_lowercase d in list_ex (site_rule_matches dl) rules)
      | None \<Rightarrow> False)"

definition geosite_category_names :: "geosite_db \<Rightarrow> string list" where
  "geosite_category_names db = map fst (gs_categories db)"

section \<open>Lemmas\<close>

lemma to_lower_char_idem [simp]: "to_lower_char (to_lower_char c) = to_lower_char c"
proof (cases "65 \<le> (of_char c :: nat) \<and> (of_char c :: nat) \<le> 90")
  case True
  then have "of_char (char_of (of_char c + 32 :: nat)) = (of_char c + 32 :: nat)"
    by (simp add: of_char_of)
  with True show ?thesis by (simp add: to_lower_char_def Let_def)
qed (auto simp: to_lower_char_def Let_def)

lemma to_lowercase_idem [simp, str_simps]: "to_lowercase (to_lowercase s) = to_lowercase s"
  by (simp add: to_lowercase_def)

lemma geosite_load_matches:
  "geosite_load pth cat files = Inr db \<Longrightarrow>
     geosite_matches db d c \<Longrightarrow> to_lowercase c = to_lowercase cat"
  by (auto simp: geosite_load_def geosite_matches_def split: sum.splits option.splits if_splits)

end
