(* ===== verification/Trie.thy ===== *)
theory Trie
  imports IpNet
begin

text \<open>
  The matching structures of \<^verbatim>\<open>src/src/router/trie.rs\<close>: the domain suffix trie over reversed
  labels, the binary trie over address bits and the least-recently-used cache of routing results.
  The locale \<^term>\<open>first_wins\<close> states what both tries promise (a path keeps the first value stored at
  it) and derives from it that the path minimum of a trie built in rule order is the first matching
  entry, and that the last value on a path is the longest match; it is interpreted on both tries.
\<close>

section \<open>Definitions\<close>

subsection \<open>Domain trie\<close>

datatype trie_node = TrieNode "(string, trie_node) hashmap" "nat option"

record domain_trie =
  dt_root :: trie_node

definition trie_node_new :: trie_node where
  "trie_node_new = TrieNode [] None"

definition domain_trie_new :: domain_trie where
  "domain_trie_new = \<lparr>dt_root = trie_node_new\<rparr>"

definition rev_labels :: "string \<Rightarrow> string list" where
  "rev_labels d = map to_lowercase (rev (split_on CHR ''.'' d))"

text \<open>The descent of \<^verbatim>\<open>insert\<close> creates missing nodes and sets the value of the last one unless it
  has one already.\<close>

fun trie_insert_path :: "string list \<Rightarrow> nat \<Rightarrow> trie_node \<Rightarrow> trie_node" where
  "trie_insert_path [] v (TrieNode ch val) = TrieNode ch (if val = None then Some v else val)"
| "trie_insert_path (l # ls) v (TrieNode ch val) =
     TrieNode (hm_insert l (trie_insert_path ls v
        (case hm_get ch l of Some c \<Rightarrow> c | None \<Rightarrow> trie_node_new)) ch) val"

definition domain_trie_insert :: "string \<Rightarrow> nat \<Rightarrow> domain_trie \<Rightarrow> domain_trie" where
  "domain_trie_insert d v t = t\<lparr>dt_root := trie_insert_path (rev_labels d) v (dt_root t)\<rparr>"

fun trie_find_path :: "nat option \<Rightarrow> trie_node \<Rightarrow> string list \<Rightarrow> nat option" where
  "trie_find_path best node [] = best"
| "trie_find_path best (TrieNode ch val) (l # ls) =
     (case hm_get ch l of
        None \<Rightarrow> best
      | Some (TrieNode ch' val') \<Rightarrow>
          trie_find_path (if val' \<noteq> None then val' else best) (TrieNode ch' val') ls)"

definition domain_trie_find :: "domain_trie \<Rightarrow> string \<Rightarrow> nat option" where
  "domain_trie_find t d = trie_find_path None (dt_root t) (rev_labels d)"

fun trie_first_path :: "nat option \<Rightarrow> trie_node \<Rightarrow> string list \<Rightarrow> nat option" where
  "trie_first_path first node [] = first"
| "trie_first_path first (TrieNode ch val) (l # ls) =
     (case hm_get ch l of
        None \<Rightarrow> first
      | Some (TrieNode ch' val') \<Rightarrow>
          trie_first_path (case val' of
              Some v \<Rightarrow> Some (case first of Some cur \<Rightarrow> min cur v | None \<Rightarrow> v)
            | None \<Rightarrow> first) (TrieNode ch' val') ls)"

definition domain_trie_find_first_match :: "domain_trie \<Rightarrow> string \<Rightarrow> nat option" where
  "domain_trie_find_first_match t d = trie_first_path None (dt_root t) (rev_labels d)"

definition domain_trie_matches :: "domain_trie \<Rightarrow> string \<Rightarrow> bool" where
  "domain_trie_matches t d = (domain_trie_find t d \<noteq> None)"

fun count_nodes :: "trie_node \<Rightarrow> nat"
  and count_children :: "(string, trie_node) hashmap \<Rightarrow> nat" where
  "count_nodes (TrieNode ch val) = (if val \<noteq> None then 1 else 0) + count_children ch"
| "count_children [] = 0"
| "count_children ((l, c) # r) = count_nodes c + count_children r"

definition domain_trie_len :: "domain_trie \<Rightarrow> nat" where
  "domain_trie_len t = count_nodes (dt_root t)"

definition domain_trie_is_empty :: "domain_trie \<Rightarrow> bool" where
  "domain_trie_is_empty t = (case dt_root t of TrieNode ch _ \<Rightarrow> ch = [])"

text \<open>The value stored at a path: the abstraction of a trie.\<close>

fun trie_value_at :: "trie_node \<Rightarrow> string list \<Rightarrow> nat option" where
  "trie_value_at (TrieNode ch val) [] = val"
| "trie_value_at (TrieNode ch val) (l # ls) =
     (case hm_get ch l of None \<Rightarrow> None | Some c \<Rightarrow> trie_value_at c ls)"

text \<open>The relation the trie decides, as \<^verbatim>\<open>Rule::matches_session\<close> writes it on strings.\<close>

definition suffix_match :: "string \<Rightarrow> string \<Rightarrow> bool" where
  "suffix_match s d =
     (to_lowercase d = to_lowercase s \<or> ends_with (to_lowercase d) (CHR ''.'' # to_lowercase s))"

subsection \<open>IP prefix trie\<close>

datatype ip_trie_node = IpTrieNode "ip_trie_node option" "ip_trie_node option" "nat option"

record ip_prefix_trie =
  root_v4 :: ip_trie_node
  root_v6 :: ip_trie_node

definition ip_trie_node_new :: ip_trie_node where
  "ip_trie_node_new = IpTrieNode None None None"

definition ip_prefix_trie_new :: ip_prefix_trie where
  "ip_prefix_trie_new = \<lparr>root_v4 = ip_trie_node_new, root_v6 = ip_trie_node_new\<rparr>"

fun ip_child :: "bool \<Rightarrow> ip_trie_node \<Rightarrow> ip_trie_node option" where
  "ip_child b (IpTrieNode c0 c1 _) = (if b then c1 else c0)"

fun ip_value :: "ip_trie_node \<Rightarrow> nat option" where
  "ip_value (IpTrieNode _ _ v) = v"

fun ip_insert_path :: "bool list \<Rightarrow> nat \<Rightarrow> ip_trie_node \<Rightarrow> ip_trie_node" where
  "ip_insert_path [] v (IpTrieNode c0 c1 val) = IpTrieNode c0 c1 (if val = None then Some v else val)"
| "ip_insert_path (b # bs) v (IpTrieNode c0 c1 val) =
     (let old = (case ip_child b (IpTrieNode c0 c1 val) of Some c \<Rightarrow> c | None \<Rightarrow> ip_trie_node_new);
          new = ip_insert_path bs v old
      in if b then IpTrieNode c0 (Some new) val else IpTrieNode (Some new) c1 val)"

text \<open>Bits beyond the address width read as zero.\<close>

definition prefix_path :: "bool list \<Rightarrow> nat \<Rightarrow> bool list" where
  "prefix_path bits n = map (\<lambda>i. if i < length bits then bits ! i else False) [0..<n]"

fun ip_trie_insert :: "ip_net \<Rightarrow> nat \<Rightarrow> ip_prefix_trie \<Rightarrow> ip_prefix_trie" where
  "ip_trie_insert (NetV4 a n) v t =
     t\<lparr>root_v4 := ip_insert_path (prefix_path (octets_to_bits (v4_octets a)) n) v (root_v4 t)\<rparr>"
| "ip_trie_insert (NetV6 a n) v t =
     t\<lparr>root_v6 := ip_insert_path (prefix_path (octets_to_bits (v6_octets a)) n) v (root_v6 t)\<rparr>"

fun ip_root :: "ip_prefix_trie \<Rightarrow> ip_addr \<Rightarrow> ip_trie_node" where
  "ip_root t (V4 _) = root_v4 t"
| "ip_root t (V6 _) = root_v6 t"

fun ip_longest_path :: "nat option \<Rightarrow> ip_trie_node \<Rightarrow> bool list \<Rightarrow> nat option" where
  "ip_longest_path best node [] = best"
| "ip_longest_path best node (b # bs) =
     (case ip_child b node of
        Some child \<Rightarrow> ip_longest_path (if ip_value child \<noteq> None then ip_value child else best) child bs
      | None \<Rightarrow> best)"

definition longest_prefix_match :: "ip_prefix_trie \<Rightarrow> ip_addr \<Rightarrow> nat option" where
  "longest_prefix_match t ip = (let node = ip_root t ip in ip_longest_path (ip_value node) node (ip_bits ip))"

fun ip_first_path :: "nat option \<Rightarrow> ip_trie_node \<Rightarrow> bool list \<Rightarrow> nat option" where
  "ip_first_path first node [] = first"
| "ip_first_path first node (b # bs) =
     (case ip_child b node of
        Some child \<Rightarrow>
          ip_first_path (case ip_value child of
              Some v \<Rightarrow> Some (case first of Some cur \<Rightarrow> min cur v | None \<Rightarrow> v)
            | None \<Rightarrow> first) child bs
      | None \<Rightarrow> first)"

definition first_prefix_match :: "ip_prefix_trie \<Rightarrow> ip_addr \<Rightarrow> nat option" where
  "first_prefix_match t ip = (let node = ip_root t ip in ip_first_path (ip_value node) node (ip_bits ip))"

definition ip_trie_contains :: "ip_prefix_trie \<Rightarrow> ip_addr \<Rightarrow> bool" where
  "ip_trie_contains t ip = (longest_prefix_match t ip \<noteq> None)"

fun ip_value_at :: "ip_trie_node \<Rightarrow> bool list \<Rightarrow> nat option" where
  "ip_value_at node [] = ip_value node"
| "ip_value_at node (b # bs) = (case ip_child b node of None \<Rightarrow> None | Some c \<Rightarrow> ip_value_at c bs)"

subsection \<open>Route cache\<close>

record route_lru_cache =
  lru_capacity :: nat
  lru_entries :: "(string \<times> string) list"

definition lru_new :: "nat \<Rightarrow> route_lru_cache" where
  "lru_new cap = \<lparr>lru_capacity = cap, lru_entries = []\<rparr>"

fun lru_position :: "string \<Rightarrow> (string \<times> string) list \<Rightarrow> nat option" where
  "lru_position k [] = None"
| "lru_position k (e # es) = (if fst e = k then Some 0 else map_option Suc (lru_position k es))"

text \<open>\<^verbatim>\<open>Vec::remove\<close>, within bounds.\<close>

definition vec_remove :: "nat \<Rightarrow> 'a list \<Rightarrow> 'a list" where
  "vec_remove i xs = take i xs @ drop (Suc i) xs"

definition lru_get :: "string \<Rightarrow> route_lru_cache \<Rightarrow> string option \<times> route_lru_cache" where
  "lru_get k c =
     (case lru_position k (lru_entries c) of
        Some pos \<Rightarrow>
          let e = lru_entries c ! pos; es = vec_remove pos (lru_entries c) @ [e]
          in (Some (snd e), c\<lparr>lru_entries := es\<rparr>)
      | None \<Rightarrow> (None, c))"

text \<open>\<^verbatim>\<open>remove(0)\<close> on an empty vector panics, which is \<^term>\<open>None\<close> here.\<close>

definition lru_insert :: "string \<Rightarrow> string \<Rightarrow> route_lru_cache \<Rightarrow> route_lru_cache option" where
  "lru_insert k v c =
     (let es = (case lru_position k (lru_entries c) of
                  Some pos \<Rightarrow> vec_remove pos (lru_entries c) | None \<Rightarrow> lru_entries c)
      in if lru_capacity c \<le> length es then
           (case es of [] \<Rightarrow> None | _ # es' \<Rightarrow> Some (c\<lparr>lru_entries := es' @ [(k, v)]\<rparr>))
         else Some (c\<lparr>lru_entries := es @ [(k, v)]\<rparr>))"

definition lru_len :: "route_lru_cache \<Rightarrow> nat" where
  "lru_len c = length (lru_entries c)"

definition lru_is_empty :: "route_lru_cache \<Rightarrow> bool" where
  "lru_is_empty c = (lru_entries c = [])"

definition lru_clear :: "route_lru_cache \<Rightarrow> route_lru_cache" where
  "lru_clear c = c\<lparr>lru_entries := []\<rparr>"

definition lru_inv :: "route_lru_cache \<Rightarrow> bool" where
  "lru_inv c = (distinct (map fst (lru_entries c)) \<and> length (lru_entries c) \<le> lru_capacity c)"

section \<open>Path minima and path maxima\<close>

fun omins :: "nat option list \<Rightarrow> nat option" where
  "omins [] = None"
| "omins (x # xs) = omin x (omins xs)"

fun last_some :: "nat option list \<Rightarrow> nat option" where
  "last_some [] = None"
| "last_some (x # xs) = (case last_some xs of None \<Rightarrow> x | Some v \<Rightarrow> Some v)"

lemma omins_eq_None: "omins xs = None \<longleftrightarrow> (\<forall>x \<in> set xs. x = None)"
  by (induction xs) auto

lemma omins_all_None [simp]: "omins (map (\<lambda>_. None) xs) = None"
  by (simp add: omins_eq_None)

lemma omins_update:
  "distinct ps \<Longrightarrow> p \<in> set ps \<Longrightarrow> f p = None \<Longrightarrow>
     omins (map (f(p := Some v)) ps) = omin (omins (map f ps)) (Some v)"
proof (induction ps)
  case (Cons x ps)
  show ?case
  proof (cases "x = p")
    case True
    with Cons.prems have "map (f(p := Some v)) ps = map f ps" by simp
    then show ?thesis
      using True Cons.prems(3) by (simp only: list.map omins.simps fun_upd_same omin_commute) simp
  next
    case False
    with Cons show ?thesis by (simp add: omin_assoc)
  qed
qed simp

lemma last_some_None [simp]: "last_some (map (\<lambda>_. None) xs) = None"
  by (induction xs) simp_all

lemma last_some_snoc: "last_some (xs @ [y]) = (case y of None \<Rightarrow> last_some xs | Some v \<Rightarrow> Some v)"
  by (induction xs) (simp_all split: option.splits)

lemma last_some_prefixes:
  "last_some (map f (prefixes ks)) = Some v \<longleftrightarrow>
     (\<exists>p. prefix p ks \<and> f p = Some v \<and> (\<forall>q. prefix q ks \<and> length p < length q \<longrightarrow> f q = None))"
proof (induction ks rule: rev_induct)
  case (snoc k ks)
  show ?case
  proof (cases "f (ks @ [k])")
    case None
    then have "last_some (map f (prefixes (ks @ [k]))) = last_some (map f (prefixes ks))"
      by (simp add: last_some_snoc)
    with snoc None show ?thesis by (auto simp: prefix_snoc)
  next
    case (Some u)
    then have "last_some (map f (prefixes (ks @ [k]))) = Some u"
      by (simp add: last_some_snoc)
    moreover have "p = ks @ [k]" if "prefix p (ks @ [k])"
      "\<forall>q. prefix q (ks @ [k]) \<and> length p < length q \<longrightarrow> f q = None" for p
      using that Some by (metis option.distinct(1) prefix_order.refl prefix_length_less strict_prefixI)
    moreover have "\<forall>q. prefix q (ks @ [k]) \<and> length (ks @ [k]) < length q \<longrightarrow> f q = None"
      using prefix_length_le [of _ "ks @ [k]"] by (meson leD)
    ultimately show ?thesis
      using Some by (metis option.inject prefix_order.refl)
  qed
qed auto

lemma last_some_eq_None: "last_some xs = None \<longleftrightarrow> (\<forall>x \<in> set xs. x = None)"
  by (induction xs) (auto split: option.splits)

text \<open>What a trie promises: the path keeps the first value stored at it.\<close>

locale first_wins =
  fixes value_at :: "'t \<Rightarrow> 'k list \<Rightarrow> nat option"
    and ins :: "'k list \<Rightarrow> nat \<Rightarrow> 't \<Rightarrow> 't"
    and new :: 't
  assumes value_at_new: "value_at new q = None"
    and value_at_ins: "value_at (ins p v t) q = (if q = p \<and> value_at t p = None then Some v else value_at t q)"
begin

lemma value_at_build:
  "value_at (fold (\<lambda>(p, v). ins p v) es new) q = map_option snd (find (\<lambda>(p, v). p = q) es)"
  by (induction es rule: rev_induct)
     (auto simp: value_at_new value_at_ins find_snoc split: option.splits prod.splits)

lemma first_on_path:
  assumes "sorted (map snd es)"
  shows "omins (map (value_at (fold (\<lambda>(p, v). ins p v) es new)) (prefixes ks)) =
     map_option snd (find (\<lambda>(p, v). prefix p ks) es)"
  using assms
proof (induction es rule: rev_induct)
  case Nil
  then show ?case by (simp add: value_at_new)
next
  case (snoc e es)
  obtain p v where e: "e = (p, v)" by (cases e)
  define t where "t = fold (\<lambda>(p, v). ins p v) es new"
  have IH: "omins (map (value_at t) (prefixes ks)) = map_option snd (find (\<lambda>(p, v). prefix p ks) es)"
    using snoc by (simp add: sorted_append t_def)
  have le: "u \<le> v" if "omins (map (value_at t) (prefixes ks)) = Some u" for u
    using that snoc.prems find_in_set unfolding IH e by (force simp: sorted_append)
  have upd: "value_at (ins p v t) = (if value_at t p = None then (value_at t)(p := Some v) else value_at t)"
    by (rule ext) (simp add: value_at_ins)
  show ?case
  proof (cases "prefix p ks \<and> value_at t p = None")
    case True
    then have "omins (map (value_at (ins p v t)) (prefixes ks)) = omin (omins (map (value_at t) (prefixes ks))) (Some v)"
      using omins_update [OF distinct_prefixes, of p ks "value_at t" v] by (simp add: upd del: fun_upd_apply)
    also have "\<dots> = map_option snd (find (\<lambda>(p, v). prefix p ks) (es @ [e]))"
      using le True IH by (cases "find (\<lambda>(p, v). prefix p ks) es") (auto simp: find_snoc e)
    finally show ?thesis by (simp add: t_def e)
  next
    case False
    then have "omins (map (value_at (ins p v t)) (prefixes ks)) = omins (map (value_at t) (prefixes ks))"
      by (intro arg_cong [where f = omins]) (auto simp: upd)
    moreover have "find (\<lambda>(p, v). prefix p ks) es \<noteq> None" if "prefix p ks"
    proof -
      have "omins (map (value_at t) (prefixes ks)) \<noteq> None"
        using that False by (auto simp: omins_eq_None)
      then show ?thesis unfolding IH by simp
    qed
    ultimately show ?thesis
      using IH by (auto simp: t_def e find_snoc split: option.splits)
  qed
qed

lemma longest_on_path:
  "last_some (map (value_at (fold (\<lambda>(p, v). ins p v) es new)) (prefixes ks)) = Some v \<longleftrightarrow>
     (\<exists>p. prefix p ks \<and> map_option snd (find (\<lambda>(p', v). p' = p) es) = Some v \<and>
        (\<forall>(q, u) \<in> set es. prefix q ks \<longrightarrow> length q \<le> length p))"
proof -
  have none: "find (\<lambda>(p', v). p' = q) es = None \<longleftrightarrow> (\<forall>u. (q, u) \<notin> set es)" for q
    by (auto simp: find_None_iff)
  show ?thesis
    unfolding last_some_prefixes value_at_build
    by (simp add: none not_le [symmetric]) blast
qed

lemma path_None:
  "last_some (map (value_at (fold (\<lambda>(p, v). ins p v) es new)) (prefixes ks)) = None \<longleftrightarrow>
     (\<forall>(p, v) \<in> set es. \<not> prefix p ks)"
  by (auto simp: last_some_eq_None value_at_build find_None_iff)

end

section \<open>Domain trie\<close>

lemma trie_value_at_new [simp]: "trie_value_at trie_node_new q = None"
  by (cases q) (simp_all add: trie_node_new_def)

lemma trie_value_at_insert:
  "trie_value_at (trie_insert_path p v t) q =
     (if q = p \<and> trie_value_at t p = None then Some v else trie_value_at t q)"
proof (induction p v t arbitrary: q rule: trie_insert_path.induct)
  case (1 v ch val)
  then show ?case by (cases q) simp_all
next
  case (2 l ls v ch val)
  show ?case
  proof (cases q)
    case (Cons k ks)
    then show ?thesis
      using 2 [of ks] by (cases "hm_get ch l") auto
  qed simp
qed

interpretation dtrie: first_wins trie_value_at trie_insert_path trie_node_new
  by unfold_locales (simp_all add: trie_value_at_insert)

lemma first_acc_omin:
  "(case x of Some v \<Rightarrow> Some (case first of Some cur \<Rightarrow> min cur v | None \<Rightarrow> v) | None \<Rightarrow> first) = omin first x"
  by (cases x; cases first) simp_all

lemma prefixes_unfold: "prefixes ls = [] # tl (prefixes ls)"
  by (cases ls) simp_all

lemma trie_value_at_Nil: "trie_value_at t [] = (case t of TrieNode ch v \<Rightarrow> v)"
  by (cases t) simp

lemma trie_first_path_eq:
  "trie_first_path first t ls = omin first (omins (map (trie_value_at t) (tl (prefixes ls))))"
proof (induction first t ls rule: trie_first_path.induct)
  case (2 first ch val l ls)
  show ?case
  proof (cases "hm_get ch l")
    case None
    then show ?thesis by (simp add: comp_def)
  next
    case (Some c)
    obtain ch' val' where c: "c = TrieNode ch' val'" by (cases c)
    have "map (trie_value_at (TrieNode ch val)) (tl (prefixes (l # ls))) = map (trie_value_at c) (prefixes ls)"
      using Some by (simp add: comp_def)
    also have "\<dots> = val' # map (trie_value_at c) (tl (prefixes ls))"
      by (subst prefixes_unfold) (simp add: c)
    finally show ?thesis
      using 2 [OF Some, of ch' val'] Some c by (simp add: first_acc_omin omin_assoc)
  qed
qed simp

lemma trie_find_path_eq:
  "trie_find_path best t ls =
     (case last_some (map (trie_value_at t) (tl (prefixes ls))) of None \<Rightarrow> best | Some v \<Rightarrow> Some v)"
proof (induction best t ls rule: trie_find_path.induct)
  case (2 best ch val l ls)
  show ?case
  proof (cases "hm_get ch l")
    case None
    then show ?thesis by (simp add: comp_def)
  next
    case (Some c)
    obtain ch' val' where c: "c = TrieNode ch' val'" by (cases c)
    have "map (trie_value_at (TrieNode ch val)) (tl (prefixes (l # ls))) = map (trie_value_at c) (prefixes ls)"
      using Some by (simp add: comp_def)
    also have "\<dots> = val' # map (trie_value_at c) (tl (prefixes ls))"
      by (subst prefixes_unfold) (simp add: c)
    finally show ?thesis
      using 2 [OF Some, of ch' val'] Some c by (auto split: option.splits)
  qed
qed simp

text \<open>Reversed label lists decide the suffix relation on strings.\<close>

lemma split_on_append_sep: "split_on d (s @ d # t) = split_on d s @ split_on d t"
  by (induction s) (auto split: list.splits simp: Cons_eq_append_conv)

lemma join_with_inj_split: "split_on d s = split_on d t \<longleftrightarrow> s = t"
  by (metis join_split_on)

lemma split_on_snoc_decomp:
  "ws \<noteq> [] \<Longrightarrow> vs \<noteq> [] \<Longrightarrow> split_on d s = ws @ vs \<Longrightarrow>
     s = join_with [d] ws @ d # join_with [d] vs"
proof -
  assume ne: "ws \<noteq> []" "vs \<noteq> []" and "split_on d s = ws @ vs"
  have "join_with [d] (ws @ vs) = join_with [d] ws @ d # join_with [d] vs"
    using ne(1)
  proof (induction ws rule: induct_list012)
    case (2 w)
    from ne(2) show ?case by (cases vs) simp_all
  qed simp_all
  then show ?thesis
    using join_split_on [of d s] \<open>split_on d s = ws @ vs\<close> by simp
qed

lemma suffix_labels:
  "suffix (split_on d s) (split_on d t) \<longleftrightarrow> t = s \<or> suffix (d # s) t"
proof
  assume "suffix (split_on d s) (split_on d t)"
  then obtain ws where ws: "split_on d t = ws @ split_on d s" by (auto simp: suffix_def)
  show "t = s \<or> suffix (d # s) t"
  proof (cases "ws = []")
    case True
    with ws show ?thesis by (simp add: join_with_inj_split)
  next
    case False
    from split_on_snoc_decomp [OF False split_on_not_Nil ws] show ?thesis
      by (simp add: join_split_on suffix_def)
  qed
next
  assume "t = s \<or> suffix (d # s) t"
  then show "suffix (split_on d s) (split_on d t)"
    by (auto simp: suffix_def split_on_append_sep)
qed

lemma to_lower_char_dot: "to_lower_char c = CHR ''.'' \<longleftrightarrow> c = CHR ''.''"
proof -
  have "to_lower_char c \<noteq> CHR ''.''" if "c \<noteq> CHR ''.''"
  proof
    assume "to_lower_char c = CHR ''.''"
    with that have n: "65 \<le> (of_char c :: nat)" "(of_char c :: nat) \<le> 90"
      and "char_of (of_char c + 32 :: nat) = CHR ''.''"
      by (auto simp: to_lower_char_def Let_def split: if_splits)
    from this(3) have "of_char (char_of (of_char c + 32 :: nat)) = (of_char CHR ''.'' :: nat)"
      by (rule arg_cong)
    with n show False by simp
  qed
  moreover have "to_lower_char CHR ''.'' = CHR ''.''"
    by (simp add: to_lower_char_def)
  ultimately show ?thesis by blast
qed

lemma split_on_lowercase:
  "split_on CHR ''.'' (to_lowercase s) = map to_lowercase (split_on CHR ''.'' s)"
  by (induction s) (auto simp: to_lowercase_def to_lower_char_dot split: list.splits)

lemma rev_labels_prefix: "prefix (rev_labels s) (rev_labels d) \<longleftrightarrow> suffix_match s d"
proof -
  have "prefix (rev_labels s) (rev_labels d) \<longleftrightarrow>
      suffix (map to_lowercase (split_on CHR ''.'' s)) (map to_lowercase (split_on CHR ''.'' d))"
    by (simp add: rev_labels_def suffix_to_prefix rev_map)
  then show ?thesis
    by (simp add: split_on_lowercase [symmetric] suffix_labels suffix_match_def ends_with_suffix)
qed

lemma rev_labels_not_Nil [simp]: "rev_labels d \<noteq> []"
  by (simp add: rev_labels_def)

subsection \<open>Building and querying\<close>

definition domain_trie_build :: "(string \<times> nat) list \<Rightarrow> domain_trie" where
  "domain_trie_build es = fold (\<lambda>(d, v). domain_trie_insert d v) es domain_trie_new"

lemma dt_root_build:
  "dt_root (fold (\<lambda>(d, v). domain_trie_insert d v) es t) =
     fold (\<lambda>(p, v). trie_insert_path p v) (map (\<lambda>(d, v). (rev_labels d, v)) es) (dt_root t)"
  by (induction es arbitrary: t) (auto simp: domain_trie_insert_def)

lemma find_map_labels:
  "map_option snd (find (\<lambda>(p, v). P p) (map (\<lambda>(d, v). (f d, v)) es)) = map_option snd (find (\<lambda>(d, v). P (f d)) es)"
  by (induction es) auto

lemma root_value_None:
  "\<forall>(p, v) \<in> set es. p \<noteq> [] \<Longrightarrow> trie_value_at (fold (\<lambda>(p, v). trie_insert_path p v) es trie_node_new) [] = None"
  by (auto simp: dtrie.value_at_build find_None_iff)

lemma omins_prefixes_tl: "f [] = None \<Longrightarrow> omins (map f (tl (prefixes ls))) = omins (map f (prefixes ls))"
  by (subst (2) prefixes_unfold) simp

lemma last_some_prefixes_tl: "f [] = None \<Longrightarrow> last_some (map f (tl (prefixes ls))) = last_some (map f (prefixes ls))"
  by (subst (2) prefixes_unfold) (simp split: option.splits)

lemma domain_first_match_build:
  assumes "sorted (map snd es)"
  shows "domain_trie_find_first_match (domain_trie_build es) d = map_option snd (find (\<lambda>(s, v). suffix_match s d) es)"
proof -
  let ?es = "map (\<lambda>(d, v). (rev_labels d, v)) es"
  let ?t = "fold (\<lambda>(p, v). trie_insert_path p v) ?es trie_node_new"
  have "map snd ?es = map snd es"
    by (simp add: case_prod_unfold)
  then have "omins (map (trie_value_at ?t) (prefixes (rev_labels d))) =
      map_option snd (find (\<lambda>(p, v). prefix p (rev_labels d)) ?es)"
    using dtrie.first_on_path [of ?es] assms by metis
  moreover have "trie_value_at ?t [] = None"
    by (rule root_value_None) auto
  moreover have "dt_root (domain_trie_build es) = ?t"
    by (simp add: domain_trie_build_def dt_root_build domain_trie_new_def)
  ultimately show ?thesis
    unfolding domain_trie_find_first_match_def trie_first_path_eq
    by (simp add: omins_prefixes_tl find_map_labels rev_labels_prefix)
qed

lemma domain_find_build:
  "domain_trie_find (domain_trie_build es) d =
     last_some (map (trie_value_at (fold (\<lambda>(p, v). trie_insert_path p v)
        (map (\<lambda>(d, v). (rev_labels d, v)) es) trie_node_new)) (prefixes (rev_labels d)))"
    (is "_ = last_some (map (trie_value_at ?t) _)")
proof -
  have "trie_value_at ?t [] = None"
    by (rule root_value_None) auto
  moreover have "dt_root (domain_trie_build es) = ?t"
    by (simp add: domain_trie_build_def dt_root_build domain_trie_new_def)
  ultimately show ?thesis
    unfolding domain_trie_find_def trie_find_path_eq
    by (simp add: last_some_prefixes_tl split: option.splits)
qed

section \<open>IP prefix trie\<close>

lemma ip_value_at_new [simp]: "ip_value_at ip_trie_node_new q = None"
  by (cases q) (simp_all add: ip_trie_node_new_def)

lemma ip_value_at_insert:
  "ip_value_at (ip_insert_path p v t) q = (if q = p \<and> ip_value_at t p = None then Some v else ip_value_at t q)"
proof (induction p v t arbitrary: q rule: ip_insert_path.induct)
  case (1 v c0 c1 val)
  then show ?case by (cases q) (simp_all split: option.splits)
next
  case (2 b bs v c0 c1 val)
  show ?case
  proof (cases q)
    case Nil
    then show ?thesis by (simp add: Let_def)
  next
    case (Cons k ks)
    show ?thesis
      using 2 [OF refl, of ks] Cons
      by (cases "ip_child b (IpTrieNode c0 c1 val)") (auto simp: Let_def split: option.splits)
  qed
qed

interpretation iptrie: first_wins ip_value_at ip_insert_path ip_trie_node_new
  by unfold_locales (simp_all add: ip_value_at_insert)

lemma ip_paths_eq:
  "ip_first_path first t bs = omin first (omins (map (ip_value_at t) (tl (prefixes bs))))"
  "ip_longest_path best t bs =
     (case last_some (map (ip_value_at t) (tl (prefixes bs))) of None \<Rightarrow> best | Some v \<Rightarrow> Some v)"
proof (induction bs arbitrary: first best t)
  case (Cons b bs)
  have unf: "map f (prefixes bs) = f [] # map f (tl (prefixes bs))" for f :: "bool list \<Rightarrow> nat option"
    by (subst prefixes_unfold) simp
  {
    case 1
    show ?case
      using Cons.IH(1) by (cases "ip_child b t") (simp_all add: comp_def first_acc_omin omin_assoc unf)
  next
    case 2
    show ?case
      using Cons.IH(2) by (cases "ip_child b t") (auto simp: comp_def unf split: option.splits)
  }
qed simp_all

lemma first_prefix_match_omins:
  "first_prefix_match t ip = omins (map (ip_value_at (ip_root t ip)) (prefixes (ip_bits ip)))"
  by (subst prefixes_unfold) (simp add: first_prefix_match_def ip_paths_eq Let_def)

lemma longest_prefix_match_last:
  "longest_prefix_match t ip = last_some (map (ip_value_at (ip_root t ip)) (prefixes (ip_bits ip)))"
  by (subst prefixes_unfold) (simp add: longest_prefix_match_def ip_paths_eq Let_def split: option.splits)

definition ip_trie_build :: "(ip_net \<times> nat) list \<Rightarrow> ip_prefix_trie" where
  "ip_trie_build es = fold (\<lambda>(n, v). ip_trie_insert n v) es ip_prefix_trie_new"

definition net_path :: "ip_net \<Rightarrow> bool list" where
  "net_path n = prefix_path (ip_bits (net_addr n)) (net_prefix_len n)"

lemma ip_root_insert:
  "ip_root (ip_trie_insert n v t) ip =
     (if same_family (net_addr n) ip then ip_insert_path (net_path n) v (ip_root t ip) else ip_root t ip)"
  by (cases n; cases ip) (simp_all add: net_path_def)

lemma ip_root_build:
  "ip_root (fold (\<lambda>(n, v). ip_trie_insert n v) es t) ip =
     fold (\<lambda>(p, v). ip_insert_path p v)
       (map (\<lambda>(n, v). (net_path n, v)) (filter (\<lambda>(n, v). same_family (net_addr n) ip) es)) (ip_root t ip)"
  by (induction es arbitrary: t) (auto simp: ip_root_insert)

lemma ip_root_new [simp]: "ip_root ip_prefix_trie_new ip = ip_trie_node_new"
  by (cases ip) (simp_all add: ip_prefix_trie_new_def)

lemma prefix_path_take: "n \<le> length bits \<Longrightarrow> prefix_path bits n = take n bits"
  by (rule nth_equalityI) (simp_all add: prefix_path_def)

lemma prefix_take_iff:
  "n \<le> length xs \<Longrightarrow> n \<le> length ys \<Longrightarrow> prefix (take n xs) ys \<longleftrightarrow> take n xs = take n ys"
  by (metis length_take min.absorb2 prefix_def append_eq_conv_conj take_is_prefix)

lemma length_ip_bits: "same_family a b \<Longrightarrow> length (ip_bits a) = length (ip_bits b)"
  by (cases a; cases b) simp_all

lemma net_wf_le: "net_wf n \<Longrightarrow> net_prefix_len n \<le> length (ip_bits (net_addr n))"
  by (cases n) simp_all

lemma net_path_covers:
  "net_wf n \<Longrightarrow> same_family (net_addr n) ip \<and> prefix (net_path n) (ip_bits ip) \<longleftrightarrow> net_covers n ip"
  using net_wf_le [of n] length_ip_bits [of "net_addr n" ip]
  by (auto simp: net_path_def net_covers_def prefix_path_take prefix_take_iff)

lemma find_cong_set: "(\<And>x. x \<in> set xs \<Longrightarrow> P x = Q x) \<Longrightarrow> find P xs = find Q xs"
  by (induction xs) auto

lemma sorted_map_filter_snd: "sorted (map snd es) \<Longrightarrow> sorted (map snd (filter P es))"
  by (simp add: sorted_filter)

lemma ip_first_match_build:
  assumes "sorted (map snd es)" and "\<forall>(n, v) \<in> set es. net_wf n"
  shows "first_prefix_match (ip_trie_build es) ip = map_option snd (find (\<lambda>(n, v). net_covers n ip) es)"
proof -
  let ?fs = "filter (\<lambda>(n, v). same_family (net_addr n) ip) es"
  let ?ps = "map (\<lambda>(n, v). (net_path n, v)) ?fs"
  have "map snd ?ps = map snd ?fs"
    by (simp add: case_prod_unfold)
  then have "sorted (map snd ?ps)"
    using sorted_map_filter_snd [OF assms(1)] by metis
  from iptrie.first_on_path [OF this, of "ip_bits ip"]
  have "first_prefix_match (ip_trie_build es) ip =
      map_option snd (find (\<lambda>(n, v). prefix (net_path n) (ip_bits ip)) ?fs)"
    by (simp add: first_prefix_match_omins ip_trie_build_def ip_root_build find_map_labels)
  also have "find (\<lambda>(n, v). prefix (net_path n) (ip_bits ip)) ?fs = find (\<lambda>(n, v). net_covers n ip) es"
    unfolding find_filter using assms(2) by (intro find_cong_set) (auto simp: net_path_covers [symmetric])
  finally show ?thesis .
qed

section \<open>Route cache\<close>

lemma lru_position_None: "lru_position k es = None \<longleftrightarrow> k \<notin> fst ` set es"
  by (induction es) auto

lemma lru_position_Some:
  "lru_position k es = Some i \<Longrightarrow> i < length es \<and> fst (es ! i) = k \<and> map_of es k = Some (snd (es ! i))"
  by (induction es arbitrary: i) (auto split: if_splits)

lemma length_vec_remove: "i < length xs \<Longrightarrow> length (vec_remove i xs) = length xs - 1"
  by (simp add: vec_remove_def)

lemma hm_remove_Cons [simp]: "hm_remove k (e # es) = (if fst e = k then hm_remove k es else e # hm_remove k es)"
  by (simp add: hm_remove_def)

lemma vec_remove_eq:
  "distinct (map fst es) \<Longrightarrow> lru_position k es = Some i \<Longrightarrow> vec_remove i es = hm_remove k es"
  unfolding vec_remove_def by (induction es arbitrary: i) (auto split: if_splits)

lemma vec_remove_key:
  "distinct (map fst es) \<Longrightarrow>
     (case lru_position k es of Some i \<Rightarrow> vec_remove i es | None \<Rightarrow> es) = hm_remove k es"
  by (auto simp: vec_remove_eq lru_position_None split: option.splits)

lemma lru_remove_facts:
  assumes "lru_inv c"
  shows "distinct (map fst (hm_remove k (lru_entries c)))"
    and "k \<notin> fst ` set (hm_remove k (lru_entries c))"
    and "length (hm_remove k (lru_entries c)) \<le> lru_capacity c"
    and "map_of (hm_remove k (lru_entries c)) = (map_of (lru_entries c))(k := None)"
proof -
  show "distinct (map fst (hm_remove k (lru_entries c)))"
    using assms hm_wf_remove [of "lru_entries c" k] by (simp add: hm_wf_def lru_inv_def)
  show "k \<notin> fst ` set (hm_remove k (lru_entries c))"
    by (auto simp: hm_remove_def)
  have "length (hm_remove k (lru_entries c)) \<le> length (lru_entries c)"
    by (simp add: hm_remove_def)
  then show "length (hm_remove k (lru_entries c)) \<le> lru_capacity c"
    using assms by (simp add: lru_inv_def)
  show "map_of (hm_remove k (lru_entries c)) = (map_of (lru_entries c))(k := None)"
    using hm_get_remove [of k "lru_entries c"] by (auto simp: hm_get_def)
qed

lemma lru_insert_split:
  assumes "lru_inv c"
  shows "lru_insert k v c =
     (let es = hm_remove k (lru_entries c) in
      if length es < lru_capacity c then Some (c\<lparr>lru_entries := es @ [(k, v)]\<rparr>)
      else (case es of [] \<Rightarrow> None | _ # es' \<Rightarrow> Some (c\<lparr>lru_entries := es' @ [(k, v)]\<rparr>)))"
  using assms vec_remove_key [of "lru_entries c" k]
  by (simp add: lru_insert_def lru_inv_def not_le Let_def not_less)

lemma lru_get_value: "fst (lru_get k c) = map_of (lru_entries c) k"
proof (cases "lru_position k (lru_entries c)")
  case None
  then have "map_of (lru_entries c) k = None"
    by (simp add: lru_position_None map_of_eq_None_iff)
  with None show ?thesis by (simp add: lru_get_def)
qed (simp add: lru_get_def Let_def lru_position_Some)

section \<open>Properties\<close>



text \<open>An IP prefix trie filled in rule order answers first-match queries exactly like a linear
  scan over the networks: the index returned for an address is the one of the first inserted network
  of the same family whose prefix bits agree with the address.\<close>

theorem ip_trie_first_match:
  "sorted (map snd es) \<Longrightarrow> \<forall>(n, v) \<in> set es. net_wf n \<Longrightarrow>
     first_prefix_match (fold (\<lambda>(n, v). ip_trie_insert n v) es ip_prefix_trie_new) ip =
     map_option snd (find (\<lambda>(n, v). net_covers n ip) es)"
  using ip_first_match_build unfolding ip_trie_build_def .

theorem ip_trie_first_match_witness:
  "first_prefix_match (fold (\<lambda>(n, v). ip_trie_insert n v)
       [(NetV4 0x0A000000 8, 0), (NetV4 0x0A010000 16, 1)] ip_prefix_trie_new) (V4 0x0A010203) = Some 0"
  by (subst ip_trie_first_match) code_simp+

text \<open>\<^verbatim>\<open>longest_prefix_match\<close> returns the value of a longest matching network: a value is returned
  exactly if it is the first one inserted for some path that is a prefix of the address and no
  matching network of the same family is longer.\<close>

theorem ip_trie_longest_match:
  "longest_prefix_match (fold (\<lambda>(n, v). ip_trie_insert n v) es ip_prefix_trie_new) ip = Some v \<longleftrightarrow>
     (\<exists>p. prefix p (ip_bits ip) \<and>
        map_option snd (find (\<lambda>(n, u). same_family (net_addr n) ip \<and> net_path n = p) es) = Some v \<and>
        (\<forall>(n, u) \<in> set es. same_family (net_addr n) ip \<and> prefix (net_path n) (ip_bits ip)
            \<longrightarrow> length (net_path n) \<le> length p))"
proof -
  let ?ps = "map (\<lambda>(n, v). (net_path n, v)) (filter (\<lambda>(n, v). same_family (net_addr n) ip) es)"
  have "map_option snd (find (\<lambda>(p', v). p' = p) ?ps) =
      map_option snd (find (\<lambda>(n, u). same_family (net_addr n) ip \<and> net_path n = p) es)" for p
    by (subst find_map_labels) (simp add: find_filter case_prod_unfold)
  then show ?thesis
    unfolding longest_prefix_match_last ip_root_build ip_root_new iptrie.longest_on_path
    by (auto 0 3)
qed

theorem ip_trie_longest_match_witness:
  "longest_prefix_match (fold (\<lambda>(n, v). ip_trie_insert n v)
       [(NetV4 0x0A000000 8, 0), (NetV4 0x0A010000 16, 1)] ip_prefix_trie_new) (V4 0x0A010203) = Some 1"
proof -
  have "prefix (net_path (NetV4 0x0A010000 16)) (ip_bits (V4 0x0A010203))"
    and "map_option snd (find (\<lambda>(n, u). same_family (net_addr n) (V4 0x0A010203) \<and>
        net_path n = net_path (NetV4 0x0A010000 16)) [(NetV4 0x0A000000 8, 0), (NetV4 0x0A010000 16, 1)]) = Some (1::nat)"
    and "\<forall>(n, u) \<in> set [(NetV4 0x0A000000 8, 0::nat), (NetV4 0x0A010000 16, 1)].
        same_family (net_addr n) (V4 0x0A010203) \<and> prefix (net_path n) (ip_bits (V4 0x0A010203))
          \<longrightarrow> length (net_path n) \<le> length (net_path (NetV4 0x0A010000 16))"
    by code_simp+
  then show ?thesis
    unfolding ip_trie_longest_match by blast
qed

text \<open>\<^verbatim>\<open>DomainTrie::find\<close> returns the value of the longest matching suffix, and nothing exactly
  if no inserted suffix matches.\<close>

theorem domain_trie_longest_match:
  fixes es :: "(string \<times> nat) list"
  defines "t \<equiv> fold (\<lambda>(s, v). domain_trie_insert s v) es domain_trie_new"
  shows "(domain_trie_matches t d \<longleftrightarrow> (\<exists>(s, v) \<in> set es. suffix_match s d)) \<and>
    (\<forall>v. domain_trie_find t d = Some v \<longrightarrow>
      (\<exists>s. (s, v) \<in> set es \<and> suffix_match s d \<and>
         (\<forall>(s', u) \<in> set es. suffix_match s' d \<longrightarrow> length (rev_labels s') \<le> length (rev_labels s))))"
proof (intro conjI allI impI)
  have find_t: "domain_trie_find t d = last_some (map (trie_value_at (fold (\<lambda>(p, v). trie_insert_path p v)
        (map (\<lambda>(d, v). (rev_labels d, v)) es) trie_node_new)) (prefixes (rev_labels d)))"
    using domain_find_build [of es d] by (simp add: t_def domain_trie_build_def)
  have "domain_trie_find t d = None \<longleftrightarrow> (\<forall>(s, v) \<in> set es. \<not> suffix_match s d)"
    unfolding find_t dtrie.path_None by (auto simp: rev_labels_prefix)
  then show "domain_trie_matches t d \<longleftrightarrow> (\<exists>(s, v) \<in> set es. suffix_match s d)"
    unfolding domain_trie_matches_def by auto
  fix v
  assume "domain_trie_find t d = Some v"
  then obtain p where p: "prefix p (rev_labels d)"
    "map_option snd (find (\<lambda>(s, v). rev_labels s = p) es) = Some v"
    "\<forall>(q, u) \<in> set (map (\<lambda>(d, v). (rev_labels d, v)) es). prefix q (rev_labels d) \<longrightarrow> length q \<le> length p"
    unfolding find_t dtrie.longest_on_path find_map_labels by blast
  from p(2) obtain s where "(s, v) \<in> set es" "rev_labels s = p"
    by (auto dest: find_in_set)
  with p show "\<exists>s. (s, v) \<in> set es \<and> suffix_match s d \<and>
      (\<forall>(s', u) \<in> set es. suffix_match s' d \<longrightarrow> length (rev_labels s') \<le> length (rev_labels s))"
    by (auto simp: rev_labels_prefix [symmetric] intro!: exI [of _ s])
qed

theorem domain_trie_longest_match_witness:
  "\<exists>s. (s, 3) \<in> set [(''com'', 2 :: nat), (''example.com'', 3)] \<and> suffix_match s ''a.example.com'' \<and>
     (\<forall>(s', u) \<in> set [(''com'', 2 :: nat), (''example.com'', 3)].
        suffix_match s' ''a.example.com'' \<longrightarrow> length (rev_labels s') \<le> length (rev_labels s))"
proof -
  have "domain_trie_find (fold (\<lambda>(s, v). domain_trie_insert s v) [(''com'', 2), (''example.com'', 3)] domain_trie_new)
      ''a.example.com'' = Some 3"
    by code_simp
  then show ?thesis
    using domain_trie_longest_match [of "[(''com'', 2), (''example.com'', 3)]" "''a.example.com''"] by blast
qed

text \<open>The route cache with a positive capacity never panics and stays within it: inserting
  keeps keys distinct and the size bounded, makes the new pair the most recent entry, and changes the
  entry of another key only by evicting the least recently used one when the cache is full.\<close>

theorem lru_insert_correct:
  assumes "lru_inv c" and "0 < lru_capacity c"
  shows "\<exists>c'. lru_insert k v c = Some c' \<and> lru_inv c' \<and> lru_capacity c' = lru_capacity c \<and>
    last (lru_entries c') = (k, v) \<and> fst (lru_get k c') = Some v \<and>
    (\<forall>k'. k' \<noteq> k \<longrightarrow> map_of (lru_entries c') k' = map_of (lru_entries c) k' \<or>
       (k' = fst (hd (lru_entries c)) \<and> length (lru_entries c) = lru_capacity c \<and> k \<notin> fst ` set (lru_entries c)
         \<and> map_of (lru_entries c') k' = None))"
proof -
  note facts = lru_remove_facts [OF assms(1), of k]
  show ?thesis
  proof (cases "length (hm_remove k (lru_entries c)) < lru_capacity c")
    case True
    with facts assms show ?thesis
      by (auto simp: lru_insert_split Let_def lru_get_value map_add_def lru_inv_def split: option.splits)
  next
    case False
    have absent: "k \<notin> fst ` set (lru_entries c)"
    proof
      assume in_c: "k \<in> fst ` set (lru_entries c)"
      then have "0 < length (lru_entries c)"
        by (cases "lru_entries c") simp_all
      moreover have "length (hm_remove k (lru_entries c)) = length (lru_entries c) - 1"
        using in_c assms(1) hm_get_eq_None [of "lru_entries c" k] hm_length_remove [of "lru_entries c" k]
        by (auto simp: lru_inv_def hm_wf_def)
      ultimately show False
        using False assms(1) unfolding lru_inv_def by linarith
    qed
    with False assms obtain e es where es: "lru_entries c = e # es"
      by (cases "lru_entries c") simp_all
    moreover from this absent assms(1) have "map_of es k = None" "map_of es (fst e) = None"
      by (simp_all add: lru_inv_def map_of_eq_None_iff)
    ultimately show ?thesis
      using False absent assms
      by (auto simp: lru_insert_split Let_def lru_get_value map_add_def lru_inv_def split: option.splits)
  qed
qed

theorem lru_insert_correct_witness:
  "\<exists>c'. lru_insert ''c'' ''3'' \<lparr>lru_capacity = 2, lru_entries = [(''a'', ''1''), (''b'', ''2'')]\<rparr> = Some c' \<and>
     fst (lru_get ''c'' c') = Some ''3''"
  using lru_insert_correct [of "\<lparr>lru_capacity = 2, lru_entries = [(''a'', ''1''), (''b'', ''2'')]\<rparr>" "''c''" "''3''"]
  by (auto simp: lru_inv_def)

end
