(* ===== verification/Rules.thy ===== *)
theory Rules
  imports Geosite Trie
begin

text \<open>
  Routing rules and actions, \<^verbatim>\<open>src/src/router/rules.rs\<close>: the rule and action types, their construction
  from the configuration, the matching of a session and the textual forms.  Matching a rule set may load
  its provider, so matching threads the provider store.  The regular expression engine, the GeoIP
  reader, the process tables of the operating system, the wireless network name and the textual form of
  networks are fields of \<^verbatim>\<open>match_env\<close>.
\<close>

section \<open>Definitions\<close>

type_synonym geoip_db = "ip_addr \<Rightarrow> string option"

record match_env =
  me_io :: io_env
  me_regex_ok :: "string \<Rightarrow> bool"
  me_regex_match :: "string \<Rightarrow> string \<Rightarrow> bool"
  me_process_name :: "socket_addr \<Rightarrow> string option"
  me_process_path :: "socket_addr \<Rightarrow> string option"
  me_wifi_ssid :: "string option"
  me_windows :: bool
  me_show_net :: "ip_net \<Rightarrow> string"

record prov_store =
  ps_providers :: "(string, rule_provider) hashmap"
  ps_files :: fs

text \<open>A compiled regular expression is its pattern; a rule set refers to its provider by name.\<close>

datatype rule =
    DomainSuffix "string list"
  | DomainKeyword "string list"
  | DomainFull "string list"
  | DomainRegex "string list"
  | IpCidr "ip_net list"
  | GeoIp "string list"
  | GeoSite "string list"
  | RuleSetRef string
  | DstPort "nat list"
  | SrcPort "nat list"
  | NetworkIs string
  | InTag "string list"
  | ProcessName "string list"
  | ProcessPath "string list"
  | IpAsn "nat list"
  | Uid "nat list"
  | Protocol "string list"
  | AndRule "rule list"
  | OrRule "rule list"
  | NotRule rule
  | WifiSsid "string list"

datatype rule_action =
    Route string
  | Reject
  | RejectDrop
  | Bypass
  | HijackDns
  | RouteOptions "string option" "nat option"
  | SniffAction
  | ResolveAction "string option"

record rule_config =
  rc_type :: string
  rc_values :: "string list"
  rc_outbound :: string
  rc_action :: string
  rc_override_address :: "string option"
  rc_override_port :: "nat option"
  rc_sniff :: bool
  rc_resolve_strategy :: "string option"

definition rule_config_default :: rule_config where
  "rule_config_default =
     \<lparr>rc_type = [], rc_values = [], rc_outbound = [], rc_action = ''route'', rc_override_address = None,
      rc_override_port = None, rc_sniff = False, rc_resolve_strategy = None\<rparr>"

datatype rule_error =
    InvalidRegex string
  | InvalidNet string
  | InvalidNumber string
  | BadSubRule string
  | MissingSubRule
  | UnsupportedRuleType string

subsection \<open>Actions\<close>

definition action_from_config :: "rule_config \<Rightarrow> rule_action" where
  "action_from_config c =
     (if rc_action c = ''reject'' then Reject
      else if rc_action c = ''reject-drop'' then RejectDrop
      else if rc_action c = ''bypass'' \<or> rc_action c = ''direct'' then Bypass
      else if rc_action c = ''hijack-dns'' then HijackDns
      else if rc_action c = ''route-options'' then RouteOptions (rc_override_address c) (rc_override_port c)
      else if rc_action c = ''sniff'' then SniffAction
      else if rc_action c = ''resolve'' then ResolveAction (rc_resolve_strategy c)
      else Route (rc_outbound c))"

fun is_final :: "rule_action \<Rightarrow> bool" where
  "is_final (Route _) = True"
| "is_final Reject = True"
| "is_final RejectDrop = True"
| "is_final Bypass = True"
| "is_final HijackDns = True"
| "is_final _ = False"

fun outbound_tag :: "rule_action \<Rightarrow> string option" where
  "outbound_tag (Route tag) = Some tag"
| "outbound_tag Bypass = Some ''direct''"
| "outbound_tag _ = None"

fun show_action :: "rule_action \<Rightarrow> string" where
  "show_action (Route tag) = ''route('' @ tag @ '')''"
| "show_action Reject = ''reject''"
| "show_action RejectDrop = ''reject-drop''"
| "show_action Bypass = ''bypass''"
| "show_action HijackDns = ''hijack-dns''"
| "show_action (RouteOptions _ _) = ''route-options''"
| "show_action SniffAction = ''sniff''"
| "show_action (ResolveAction _) = ''resolve''"

subsection \<open>Construction\<close>

definition u16_max :: nat where "u16_max = 65535"
definition u32_max :: nat where "u32_max = 4294967295"

definition parse_num :: "nat \<Rightarrow> string \<Rightarrow> (rule_error, nat) result" where
  "parse_num m s = (case parse_uint m s of Some n \<Rightarrow> Inr n | None \<Rightarrow> Inl (InvalidNumber s))"

definition map_ok :: "('a \<Rightarrow> 'b) \<Rightarrow> ('e, 'a) result \<Rightarrow> ('e, 'b) result" where
  "map_ok f r = (case r of Inl e \<Rightarrow> Inl e | Inr x \<Rightarrow> Inr (f x))"

definition sub_config :: "rule_config \<Rightarrow> string \<Rightarrow> string \<Rightarrow> rule_config" where
  "sub_config c a b = rule_config_default\<lparr>rc_type := a, rc_values := [b], rc_outbound := rc_outbound c\<rparr>"

lemma split_once_length: "split_once d s = Some (a, b) \<Longrightarrow> length b < length s"
  by (induction s arbitrary: a) (auto split: if_splits)

lemma head_le_sum_length: "x # xs = vs \<Longrightarrow> n < length x \<Longrightarrow> n < sum_list (map length vs)"
  by auto

lemma member_le_sum_length: "v \<in> set vs \<Longrightarrow> length v \<le> sum_list (map length vs)"
  by (induction vs) auto

function from_config :: "match_env \<Rightarrow> rule_config \<Rightarrow> (rule_error, rule) result" where
  "from_config env c =
     (let ty = rc_type c; vs = rc_values c in
      if ty = ''domain-suffix'' then Inr (DomainSuffix vs)
      else if ty = ''domain-keyword'' then Inr (DomainKeyword vs)
      else if ty = ''domain-full'' then Inr (DomainFull vs)
      else if ty = ''domain-regex'' then
        map_ok DomainRegex (collect_results (\<lambda>s. if me_regex_ok env s then Inr s else Inl (InvalidRegex s)) vs)
      else if ty = ''ip-cidr'' then
        map_ok IpCidr (collect_results
          (\<lambda>s. case io_parse_net (me_io env) s of Some n \<Rightarrow> Inr n | None \<Rightarrow> Inl (InvalidNet s)) vs)
      else if ty = ''geoip'' then Inr (GeoIp (map to_uppercase vs))
      else if ty = ''geosite'' then Inr (GeoSite (map to_lowercase vs))
      else if ty = ''dst-port'' then map_ok DstPort (collect_results (parse_num u16_max) vs)
      else if ty = ''src-port'' then map_ok SrcPort (collect_results (parse_num u16_max) vs)
      else if ty = ''network'' then Inr (NetworkIs (to_lowercase (case vs of v # _ \<Rightarrow> v | [] \<Rightarrow> [])))
      else if ty = ''in-tag'' then Inr (InTag vs)
      else if ty = ''process-name'' then Inr (ProcessName vs)
      else if ty = ''process-path'' then Inr (ProcessPath vs)
      else if ty = ''ip-asn'' then map_ok IpAsn (collect_results (parse_num u32_max) vs)
      else if ty = ''uid'' then map_ok Uid (collect_results (parse_num u32_max) vs)
      else if ty = ''protocol'' then Inr (Protocol (map to_lowercase vs))
      else if ty = ''and'' \<or> ty = ''AND'' then map_ok AndRule (collect_results (\<lambda>v. case split_once CHR '':'' v of
          None \<Rightarrow> Inl (BadSubRule v) | Some (a, b) \<Rightarrow> from_config env (sub_config c a b)) vs)
      else if ty = ''or'' \<or> ty = ''OR'' then map_ok OrRule (collect_results (\<lambda>v. case split_once CHR '':'' v of
          None \<Rightarrow> Inl (BadSubRule v) | Some (a, b) \<Rightarrow> from_config env (sub_config c a b)) vs)
      else if ty = ''not'' \<or> ty = ''NOT'' then
        (case vs of [] \<Rightarrow> Inl MissingSubRule | v # _ \<Rightarrow> map_ok NotRule (case split_once CHR '':'' v of
          None \<Rightarrow> Inl (BadSubRule v) | Some (a, b) \<Rightarrow> from_config env (sub_config c a b)))
      else if ty = ''wifi-ssid'' \<or> ty = ''ssid'' then Inr (WifiSsid vs)
      else Inl (UnsupportedRuleType ty))"
  by pat_completeness auto
termination
  by (relation "measure (\<lambda>(env, c). sum_list (map length (rc_values c)))")
     (auto simp: sub_config_def dest!: split_once_length dest: member_le_sum_length intro: head_le_sum_length)

declare from_config.simps [simp del]

subsection \<open>Matching\<close>

record match_query =
  mq_addr :: address
  mq_geoip :: "geoip_db option"
  mq_geosite :: "geosite_db option"
  mq_source :: "socket_addr option"
  mq_network :: "string option"
  mq_inbound_tag :: "string option"
  mq_protocol :: "string option"

text \<open>\<^verbatim>\<open>path.rsplit(['/', '\\']).next()\<close>: the part after the last separator.\<close>

definition extract_process_name :: "string \<Rightarrow> string" where
  "extract_process_name s = rev (takeWhile (\<lambda>c. c \<noteq> CHR ''/'' \<and> c \<noteq> CHR 0x5C) (rev s))"

definition process_path_matches :: "match_env \<Rightarrow> string \<Rightarrow> string \<Rightarrow> bool" where
  "process_path_matches env rule_path process_path =
     (if me_windows env then
        eq_ignore_ascii_case rule_path process_path
        \<or> eq_ignore_ascii_case (extract_process_name rule_path) (extract_process_name process_path)
      else
        rule_path = process_path \<or> extract_process_name rule_path = extract_process_name process_path)"

text \<open>Every rule but the rule sets and the logical ones is decided without touching the store.\<close>

fun matches_plain :: "match_env \<Rightarrow> match_query \<Rightarrow> rule \<Rightarrow> bool" where
  "matches_plain env q (DomainSuffix ss) =
     (case mq_addr q of Domain d _ \<Rightarrow> list_ex (\<lambda>s. suffix_match s d) ss | Ip _ \<Rightarrow> False)"
| "matches_plain env q (DomainKeyword ks) =
     (case mq_addr q of Domain d _ \<Rightarrow> list_ex (\<lambda>k. str_contains (to_lowercase d) (to_lowercase k)) ks | Ip _ \<Rightarrow> False)"
| "matches_plain env q (DomainFull ds) =
     (case mq_addr q of Domain d _ \<Rightarrow> list_ex (\<lambda>x. to_lowercase x = to_lowercase d) ds | Ip _ \<Rightarrow> False)"
| "matches_plain env q (DomainRegex rs) =
     (case mq_addr q of Domain d _ \<Rightarrow> list_ex (\<lambda>r. me_regex_match env r d) rs | Ip _ \<Rightarrow> False)"
| "matches_plain env q (IpCidr ns) =
     (case mq_addr q of Ip a \<Rightarrow> list_ex (\<lambda>n. io_contains (me_io env) n (sock_ip a)) ns | Domain _ _ \<Rightarrow> False)"
| "matches_plain env q (GeoIp codes) =
     (case (mq_addr q, mq_geoip q) of
        (Ip a, Some db) \<Rightarrow>
          (case db (sock_ip a) of Some country \<Rightarrow> to_uppercase country \<in> set codes | None \<Rightarrow> False)
      | _ \<Rightarrow> False)"
| "matches_plain env q (GeoSite cats) =
     (case (mq_addr q, mq_geosite q) of
        (Domain d _, Some db) \<Rightarrow> list_ex (\<lambda>c. geosite_matches db d c) cats
      | _ \<Rightarrow> False)"
| "matches_plain env q (DstPort ps) = (unat (port (mq_addr q)) \<in> set ps)"
| "matches_plain env q (SrcPort ps) =
     (case mq_source q of Some src \<Rightarrow> unat (sock_port src) \<in> set ps | None \<Rightarrow> False)"
| "matches_plain env q (NetworkIs net) = (case mq_network q of Some n \<Rightarrow> n = net | None \<Rightarrow> False)"
| "matches_plain env q (InTag tags) = (case mq_inbound_tag q of Some t \<Rightarrow> t \<in> set tags | None \<Rightarrow> False)"
| "matches_plain env q (ProcessName names) =
     (case mq_source q of
        Some src \<Rightarrow>
          (case me_process_name env src of
             Some pn \<Rightarrow> list_ex (\<lambda>n. eq_ignore_ascii_case pn n \<or> eq_ignore_ascii_case pn (extract_process_name n)) names
           | None \<Rightarrow> False)
      | None \<Rightarrow> False)"
| "matches_plain env q (ProcessPath paths) =
     (case mq_source q of
        Some src \<Rightarrow>
          (case me_process_path env src of
             Some pp \<Rightarrow> list_ex (\<lambda>p. process_path_matches env p pp) paths
           | None \<Rightarrow> False)
      | None \<Rightarrow> False)"
| "matches_plain env q (IpAsn _) = False"
| "matches_plain env q (Uid _) = False"
| "matches_plain env q (Protocol ps) = (case mq_protocol q of Some p \<Rightarrow> p \<in> set ps | None \<Rightarrow> False)"
| "matches_plain env q (WifiSsid ssids) =
     (case me_wifi_ssid env of Some cur \<Rightarrow> list_ex (\<lambda>s. eq_ignore_ascii_case s cur) ssids | None \<Rightarrow> False)"
| "matches_plain env q (RuleSetRef _) = False"
| "matches_plain env q (AndRule _) = False"
| "matches_plain env q (OrRule _) = False"
| "matches_plain env q (NotRule _) = False"

text \<open>Matching against the provider a rule set refers to.\<close>

definition match_provider :: "match_env \<Rightarrow> address \<Rightarrow> string \<Rightarrow> prov_store \<Rightarrow> bool \<times> prov_store" where
  "match_provider env a name st =
     (case hm_get (ps_providers st) name of
        None \<Rightarrow> (False, st)
      | Some p \<Rightarrow>
        (case (case a of
                 Domain d _ \<Rightarrow> provider_matches_domain (me_io env) d p (ps_files st)
               | Ip s \<Rightarrow> provider_matches_ip (me_io env) (sock_ip s) p (ps_files st)) of
           (b, p', files') \<Rightarrow> (b, st\<lparr>ps_providers := hm_insert name p' (ps_providers st), ps_files := files'\<rparr>)))"

text \<open>\<^verbatim>\<open>all\<close> and \<^verbatim>\<open>any\<close> stop at the first rule that decides.\<close>

function matches_session :: "match_env \<Rightarrow> match_query \<Rightarrow> rule \<Rightarrow> prov_store \<Rightarrow> bool \<times> prov_store"
  and matches_all :: "match_env \<Rightarrow> match_query \<Rightarrow> rule list \<Rightarrow> prov_store \<Rightarrow> bool \<times> prov_store"
  and matches_any :: "match_env \<Rightarrow> match_query \<Rightarrow> rule list \<Rightarrow> prov_store \<Rightarrow> bool \<times> prov_store" where
  "matches_session env q r st =
     (case r of
        RuleSetRef name \<Rightarrow> match_provider env (mq_addr q) name st
      | AndRule rs \<Rightarrow> matches_all env q rs st
      | OrRule rs \<Rightarrow> matches_any env q rs st
      | NotRule inner \<Rightarrow> (case matches_session env q inner st of (b, st') \<Rightarrow> (\<not> b, st'))
      | _ \<Rightarrow> (matches_plain env q r, st))"
| "matches_all env q [] st = (True, st)"
| "matches_all env q (r # rs) st =
     (case matches_session env q r st of (b, st') \<Rightarrow> if b then matches_all env q rs st' else (False, st'))"
| "matches_any env q [] st = (False, st)"
| "matches_any env q (r # rs) st =
     (case matches_session env q r st of (b, st') \<Rightarrow> if b then (True, st') else matches_any env q rs st')"
  by pat_completeness auto
termination
  by (relation "measure (\<lambda>x. case x of
        Inl (env, q, r, st) \<Rightarrow> 2 * size r
      | Inr (Inl (env, q, rs, st)) \<Rightarrow> Suc (2 * size_list size rs)
      | Inr (Inr (env, q, rs, st)) \<Rightarrow> Suc (2 * size_list size rs))") auto

declare matches_session.simps [simp del]

definition rule_matches ::
  "match_env \<Rightarrow> rule \<Rightarrow> address \<Rightarrow> geoip_db option \<Rightarrow> geosite_db option \<Rightarrow> prov_store \<Rightarrow> bool \<times> prov_store" where
  "rule_matches env r a geoip geosite st =
     matches_session env \<lparr>mq_addr = a, mq_geoip = geoip, mq_geosite = geosite, mq_source = None,
       mq_network = None, mq_inbound_tag = None, mq_protocol = None\<rparr> r st"

subsection \<open>Textual form\<close>

definition show_list :: "string \<Rightarrow> string list \<Rightarrow> string" where
  "show_list name vs = name @ ''('' @ join_with '','' vs @ '')''"

fun show_rule :: "match_env \<Rightarrow> rule \<Rightarrow> string" where
  "show_rule env (DomainSuffix v) = show_list ''domain-suffix'' v"
| "show_rule env (DomainKeyword v) = show_list ''domain-keyword'' v"
| "show_rule env (DomainFull v) = show_list ''domain-full'' v"
| "show_rule env (DomainRegex v) = show_list ''domain-regex'' v"
| "show_rule env (IpCidr v) = show_list ''ip-cidr'' (map (me_show_net env) v)"
| "show_rule env (GeoIp v) = show_list ''geoip'' v"
| "show_rule env (GeoSite v) = show_list ''geosite'' v"
| "show_rule env (RuleSetRef n) = show_list ''rule-set'' [n]"
| "show_rule env (DstPort v) = show_list ''dst-port'' (map show_nat v)"
| "show_rule env (SrcPort v) = show_list ''src-port'' (map show_nat v)"
| "show_rule env (NetworkIs n) = show_list ''network'' [n]"
| "show_rule env (InTag v) = show_list ''in-tag'' v"
| "show_rule env (ProcessName v) = show_list ''process-name'' v"
| "show_rule env (ProcessPath v) = show_list ''process-path'' v"
| "show_rule env (IpAsn v) = show_list ''ip-asn'' (map show_nat v)"
| "show_rule env (Uid v) = show_list ''uid'' (map show_nat v)"
| "show_rule env (Protocol v) = show_list ''protocol'' v"
| "show_rule env (AndRule rs) = show_list ''and'' (map (show_rule env) rs)"
| "show_rule env (OrRule rs) = show_list ''or'' (map (show_rule env) rs)"
| "show_rule env (NotRule r) = show_list ''not'' [show_rule env r]"
| "show_rule env (WifiSsid v) = show_list ''wifi-ssid'' v"

subsection \<open>Settled stores\<close>

text \<open>No provider of the store is waiting for its first match.\<close>

definition store_settled :: "prov_store \<Rightarrow> bool" where
  "store_settled st = list_all (\<lambda>(n, p). \<not> pc_lazy (rp_config p) \<or> rp_loaded p) (ps_providers st)"

section \<open>Lemmas\<close>

lemma match_provider_settled:
  assumes "store_settled st"
  shows "snd (match_provider env a name st) = st"
proof (cases "hm_get (ps_providers st) name")
  case (Some p)
  then have "\<not> pc_lazy (rp_config p) \<or> rp_loaded p"
    using assms hm_get_SomeD [OF Some] by (auto simp: store_settled_def list_all_iff)
  from ensure_loaded_settled [OF this] Some show ?thesis
    by (auto simp: match_provider_def provider_matches_domain_def provider_matches_ip_def split: address.splits)
qed (simp add: match_provider_def)

lemma matches_settled:
  "store_settled st \<Longrightarrow> snd (matches_session env q r st) = st"
  "store_settled st \<Longrightarrow> snd (matches_all env q rs st) = st"
  "store_settled st \<Longrightarrow> snd (matches_any env q rs st) = st"
proof (induction env q r st and env q rs st and env q rs st rule: matches_session_matches_all_matches_any.induct)
  case (1 env q r st)
  then show ?case
    by (subst matches_session.simps) (auto simp: match_provider_settled split: rule.splits prod.splits)
next
  case (3 env q r rs st)
  then show ?case by (cases "matches_session env q r st") auto
next
  case (5 env q r rs st)
  then show ?case by (cases "matches_session env q r st") auto
qed simp_all

text \<open>On a settled store matching is a predicate.\<close>

definition rule_holds :: "match_env \<Rightarrow> match_query \<Rightarrow> prov_store \<Rightarrow> rule \<Rightarrow> bool" where
  "rule_holds env q st r = fst (matches_session env q r st)"

lemma matches_session_eq:
  "store_settled st \<Longrightarrow> matches_session env q r st = (rule_holds env q st r, st)"
  using matches_settled(1) [of st env q r] by (simp add: rule_holds_def prod_eq_iff)

lemma matches_all_eq:
  "store_settled st \<Longrightarrow> matches_all env q rs st = (list_all (rule_holds env q st) rs, st)"
  by (induction rs) (simp_all add: matches_session_eq)

lemma matches_any_eq:
  "store_settled st \<Longrightarrow> matches_any env q rs st = (list_ex (rule_holds env q st) rs, st)"
  by (induction rs) (simp_all add: matches_session_eq)

lemma matches_session_cases:
  "matches_session env q (AndRule rs) st = matches_all env q rs st"
  "matches_session env q (OrRule rs) st = matches_any env q rs st"
  "matches_session env q (NotRule r) st = (case matches_session env q r st of (b, st') \<Rightarrow> (\<not> b, st'))"
  "matches_session env q (DomainSuffix ss) st = (matches_plain env q (DomainSuffix ss), st)"
  "matches_session env q (IpCidr ns) st = (matches_plain env q (IpCidr ns), st)"
  by (subst matches_session.simps; simp)+

lemma rule_holds_simps:
  "rule_holds env q st (DomainSuffix ss) =
     (case mq_addr q of Domain d _ \<Rightarrow> list_ex (\<lambda>s. suffix_match s d) ss | Ip _ \<Rightarrow> False)"
  "rule_holds env q st (IpCidr ns) =
     (case mq_addr q of Ip a \<Rightarrow> list_ex (\<lambda>n. io_contains (me_io env) n (sock_ip a)) ns | Domain _ _ \<Rightarrow> False)"
  by (simp_all add: rule_holds_def matches_session_cases)

lemma from_config_nets:
  "from_config env c = Inr (IpCidr ns) \<Longrightarrow> n \<in> set ns \<Longrightarrow> \<exists>s. io_parse_net (me_io env) s = Some n"
  by (subst (asm) from_config.simps)
     (auto simp: Let_def map_ok_def collect_results_ok list_all2_conv_all_nth in_set_conv_nth
       split: if_splits sum.splits list.splits option.splits)

subsection \<open>A sample environment\<close>

text \<open>Concrete parameters for evaluating examples: one network literal is known, nothing else is.\<close>

definition sample_env :: match_env where
  "sample_env = \<lparr>
     me_io = \<lparr>io_now = 0, io_http = \<lambda>_ _. SendFailed, io_can_write = \<lambda>_. False, io_inflate = \<lambda>_. None,
       io_parse_net = \<lambda>s. if s = ''10.0.0.0/8'' then Some (NetV4 0x0A000000 8) else None,
       io_contains = net_covers\<rparr>,
     me_regex_ok = \<lambda>_. False, me_regex_match = \<lambda>_ _. False, me_process_name = \<lambda>_. None,
     me_process_path = \<lambda>_. None, me_wifi_ssid = None, me_windows = False, me_show_net = \<lambda>_. []\<rparr>"

definition sample_query :: "address \<Rightarrow> match_query" where
  "sample_query a = \<lparr>mq_addr = a, mq_geoip = None, mq_geosite = None, mq_source = None,
     mq_network = Some ''tcp'', mq_inbound_tag = None, mq_protocol = None\<rparr>"

section \<open>Properties\<close>

text \<open>On a store whose providers are all loaded, the logical rules are the Boolean connectives: an
  AND rule matches if every sub-rule does (the empty one always), an OR rule if some sub-rule does (the
  empty one never), a NOT rule if its sub-rule does not, and none of them changes the store.\<close>

theorem logical_rules_boolean:
  assumes "store_settled st"
  shows "matches_session env q (AndRule rs) st = (\<forall>r \<in> set rs. fst (matches_session env q r st), st) \<and>
    matches_session env q (OrRule rs) st = (\<exists>r \<in> set rs. fst (matches_session env q r st), st) \<and>
    matches_session env q (NotRule r) st = (\<not> fst (matches_session env q r st), st)"
  using assms
  by (simp add: matches_session_cases matches_all_eq matches_any_eq matches_session_eq list_all_iff list_ex_iff)

theorem logical_rules_boolean_witness:
  "matches_session sample_env (sample_query (Domain ''a.io'' 443))
     (AndRule [DomainSuffix [''io''], NotRule (DstPort [80])]) \<lparr>ps_providers = [], ps_files = []\<rparr>
   = (True, \<lparr>ps_providers = [], ps_files = []\<rparr>)"
proof -
  let ?st = "\<lparr>ps_providers = [], ps_files = []\<rparr>"
  have "store_settled ?st"
    by (simp add: store_settled_def)
  note connectives = logical_rules_boolean [OF this, of sample_env "sample_query (Domain ''a.io'' 443)", THEN conjunct1]
  have all: "\<forall>r \<in> set [DomainSuffix [''io''], NotRule (DstPort [80])].
      fst (matches_session sample_env (sample_query (Domain ''a.io'' 443)) r ?st)"
    by code_simp
  show ?thesis
    unfolding connectives eqTrueI [OF all] by (rule refl)
qed

end
