(* ===== verification/Router.thy ===== *)
theory Router
  imports Rules
begin

text \<open>
  The router, \<^verbatim>\<open>src/src/router/mod.rs\<close>: its construction from the configuration, with the domain and IP
  tries as indexes over the suffix and CIDR rules, and the routing of a session.  The main lemma is that
  the indexed lookup returns what a scan of the rule list from the top would return, so the tries are an
  optimisation that does not change the meaning of a configuration.
\<close>

section \<open>Definitions\<close>

datatype network = Tcp | Udp

record session =
  s_target :: address
  s_source :: "socket_addr option"
  s_inbound_tag :: string
  s_network :: network
  s_sniff :: bool
  s_detected_protocol :: "string option"

record router_config =
  cfg_rules :: "rule_config list"
  cfg_default :: string
  cfg_geoip_db :: "string option"
  cfg_geosite_db :: "string option"
  cfg_rule_providers :: "(string, rule_provider_config) hashmap"

record router =
  rt_rules :: "(rule \<times> rule_action) list"
  rt_default :: string
  rt_domain_trie :: domain_trie
  rt_ip_trie :: ip_prefix_trie
  rt_geoip_db :: "geoip_db option"
  rt_geosite_db :: "geosite_db option"

datatype router_error =
    GeoIpLoad string
  | GeoSiteLoad provider_error
  | ProviderLoad provider_error
  | UnknownProvider string
  | BadRule rule_error

text \<open>The categories that the rules of type geosite name are joined into one category name.\<close>

definition load_geosite :: "router_config \<Rightarrow> fs \<Rightarrow> (router_error, geosite_db option) result" where
  "load_geosite cfg files =
     (case cfg_geosite_db cfg of
        None \<Rightarrow> Inr None
      | Some pth \<Rightarrow>
        let categories = concat (map rc_values (filter (\<lambda>r. rc_type r = ''geosite'') (cfg_rules cfg))) in
        if categories = [] then Inr None
        else (case geosite_load pth (join_with '','' categories) files of
            Inl e \<Rightarrow> Inl (GeoSiteLoad e) | Inr db \<Rightarrow> Inr (Some db)))"

text \<open>The state of the loop over the configured rules: the rules so far and the two tries.\<close>

type_synonym build_state = "(rule \<times> rule_action) list \<times> domain_trie \<times> ip_prefix_trie"

fun push_rule :: "rule \<Rightarrow> rule_action \<Rightarrow> build_state \<Rightarrow> build_state" where
  "push_rule rule action (rules, dt, it) =
     (let idx = length rules;
          dt' = (case rule of DomainSuffix ss \<Rightarrow> fold (\<lambda>s t. domain_trie_insert s idx t) ss dt | _ \<Rightarrow> dt);
          it' = (case rule of IpCidr ns \<Rightarrow> fold (\<lambda>n t. ip_trie_insert n idx t) ns it | _ \<Rightarrow> it)
      in (rules @ [(rule, action)], dt', it'))"

fun push_rule_sets ::
  "(string, rule_provider) hashmap \<Rightarrow> rule_action \<Rightarrow> string list \<Rightarrow> build_state \<Rightarrow> (router_error, build_state) result" where
  "push_rule_sets providers action [] bs = Inr bs"
| "push_rule_sets providers action (n # ns) (rules, dt, it) =
     (case hm_get providers n of
        None \<Rightarrow> Inl (UnknownProvider n)
      | Some _ \<Rightarrow> push_rule_sets providers action ns (rules @ [(RuleSetRef n, action)], dt, it))"

fun build_rules ::
  "match_env \<Rightarrow> (string, rule_provider) hashmap \<Rightarrow> rule_config list \<Rightarrow> build_state \<Rightarrow> (router_error, build_state) result" where
  "build_rules env providers [] bs = Inr bs"
| "build_rules env providers (c # cs) bs =
     (if rc_type c = ''rule-set'' then
        (case push_rule_sets providers (action_from_config c) (rc_values c) bs of
           Inl e \<Rightarrow> Inl e
         | Inr bs' \<Rightarrow> build_rules env providers cs bs')
      else
        (case from_config env c of
           Inl e \<Rightarrow> Inl (BadRule e)
         | Inr rule \<Rightarrow> build_rules env providers cs (push_rule rule (action_from_config c) bs)))"

text \<open>\<^term>\<open>geoip\<close> opens a MaxMind database; the result also carries the loaded providers and the files.\<close>

definition router_new ::
  "match_env \<Rightarrow> (string \<Rightarrow> geoip_db option) \<Rightarrow> router_config \<Rightarrow> fs
     \<Rightarrow> (router_error, router \<times> prov_store) result" where
  "router_new env geoip cfg files =
     (case (case cfg_geoip_db cfg of
              None \<Rightarrow> Inr None
            | Some pth \<Rightarrow> (case geoip pth of None \<Rightarrow> Inl (GeoIpLoad pth) | Some db \<Rightarrow> Inr (Some db))) of
        Inl e \<Rightarrow> Inl e
      | Inr geoip_db \<Rightarrow>
        (case load_geosite cfg files of
           Inl e \<Rightarrow> Inl e
         | Inr geosite_db \<Rightarrow>
           (case load_all_providers (me_io env) (cfg_rule_providers cfg) files of
              (Inl e, _) \<Rightarrow> Inl (ProviderLoad e)
            | (Inr providers, files') \<Rightarrow>
              (case build_rules env providers (cfg_rules cfg) ([], domain_trie_new, ip_prefix_trie_new) of
                 Inl e \<Rightarrow> Inl e
               | Inr (rules, dt, it) \<Rightarrow>
                 Inr (\<lparr>rt_rules = rules, rt_default = cfg_default cfg, rt_domain_trie = dt, rt_ip_trie = it,
                        rt_geoip_db = geoip_db, rt_geosite_db = geosite_db\<rparr>,
                      \<lparr>ps_providers = providers, ps_files = files'\<rparr>)))))"

definition session_query :: "router \<Rightarrow> session \<Rightarrow> match_query" where
  "session_query rt s =
     \<lparr>mq_addr = s_target s, mq_geoip = rt_geoip_db rt, mq_geosite = rt_geosite_db rt, mq_source = s_source s,
      mq_network = Some (case s_network s of Tcp \<Rightarrow> ''tcp'' | Udp \<Rightarrow> ''udp''),
      mq_inbound_tag = Some (s_inbound_tag s), mq_protocol = s_detected_protocol s\<rparr>"

fun is_indexed :: "rule \<Rightarrow> bool" where
  "is_indexed (DomainSuffix _) = True"
| "is_indexed (IpCidr _) = True"
| "is_indexed _ = False"

fun fallback_scan ::
  "match_env \<Rightarrow> match_query \<Rightarrow> nat \<Rightarrow> (rule \<times> rule_action) list \<Rightarrow> prov_store \<Rightarrow> nat option \<times> prov_store" where
  "fallback_scan env q idx [] st = (None, st)"
| "fallback_scan env q idx ((rule, action) # rs) st =
     (if is_indexed rule then fallback_scan env q (Suc idx) rs st
      else (case matches_session env q rule st of
          (b, st') \<Rightarrow> if b then (Some idx, st') else fallback_scan env q (Suc idx) rs st'))"

definition trie_match_idx :: "router \<Rightarrow> address \<Rightarrow> nat option" where
  "trie_match_idx rt a =
     (case a of
        Domain d _ \<Rightarrow> domain_trie_find_first_match (rt_domain_trie rt) d
      | Ip sa \<Rightarrow> first_prefix_match (rt_ip_trie rt) (sock_ip sa))"

text \<open>The result is the outbound tag and the description of the rule.  Indexing the rules out of bounds
  would panic, which is \<^term>\<open>None\<close>.\<close>

definition route_with_rule ::
  "match_env \<Rightarrow> router \<Rightarrow> session \<Rightarrow> prov_store \<Rightarrow> (string \<times> string option) option \<times> prov_store" where
  "route_with_rule env rt s st =
     (case fallback_scan env (session_query rt s) 0 (rt_rules rt) st of
        (fallback_match_idx, st') \<Rightarrow>
          let selected = (case (trie_match_idx rt (s_target s), fallback_match_idx) of
              (Some a, Some b) \<Rightarrow> Some (min a b)
            | (Some a, None) \<Rightarrow> Some a
            | (None, Some b) \<Rightarrow> Some b
            | (None, None) \<Rightarrow> None)
          in (case selected of
                Some idx \<Rightarrow>
                  if idx < length (rt_rules rt) then
                    (case rt_rules rt ! idx of (rule, action) \<Rightarrow>
                      Some (case outbound_tag action of Some tag \<Rightarrow> tag | None \<Rightarrow> rt_default rt,
                            Some (show_rule env rule)))
                  else None
              | None \<Rightarrow> Some (rt_default rt, None), st'))"

definition route :: "match_env \<Rightarrow> router \<Rightarrow> session \<Rightarrow> prov_store \<Rightarrow> string option \<times> prov_store" where
  "route env rt s st =
     (case route_with_rule env rt s st of (r, st') \<Rightarrow> (map_option fst r, st'))"

text \<open>The reference: scan all rules from the top and take the first that matches.\<close>

definition route_reference ::
  "match_env \<Rightarrow> router \<Rightarrow> session \<Rightarrow> prov_store \<Rightarrow> string \<times> string option" where
  "route_reference env rt s st =
     (case find (\<lambda>(rule, action). fst (matches_session env (session_query rt s) rule st)) (rt_rules rt) of
        None \<Rightarrow> (rt_default rt, None)
      | Some (rule, action) \<Rightarrow>
          (case outbound_tag action of Some tag \<Rightarrow> tag | None \<Rightarrow> rt_default rt, Some (show_rule env rule)))"

section \<open>Lemmas\<close>

subsection \<open>First indices\<close>

fun first_index :: "nat \<Rightarrow> ('a \<Rightarrow> bool) \<Rightarrow> 'a list \<Rightarrow> nat option" where
  "first_index i P [] = None"
| "first_index i P (x # xs) = (if P x then Some i else first_index (Suc i) P xs)"

lemma first_index_ge: "first_index i P xs = Some k \<Longrightarrow> i \<le> k"
  by (induction i P xs rule: first_index.induct) (auto split: if_splits)

lemma first_index_or:
  "omin (first_index i P xs) (first_index i Q xs) = first_index i (\<lambda>x. P x \<or> Q x) xs"
proof (induction xs arbitrary: i)
  case (Cons x xs)
  show ?case
    using Cons.IH [of "Suc i", symmetric] first_index_ge [of "Suc i" P xs] first_index_ge [of "Suc i" Q xs]
    by (cases "first_index (Suc i) P xs"; cases "first_index (Suc i) Q xs") (auto simp: min_def)
qed simp

lemma first_index_find:
  "(case first_index i P xs of None \<Rightarrow> find P xs = None
    | Some k \<Rightarrow> k - i < length xs \<and> i \<le> k \<and> find P xs = Some (xs ! (k - i)))"
proof (induction xs arbitrary: i)
  case (Cons x xs)
  show ?case
    using Cons.IH [of "Suc i"] by (auto split: option.splits simp: Suc_diff_le nth_Cons')
qed simp

lemma first_index_cong: "(\<And>x. x \<in> set xs \<Longrightarrow> P x = Q x) \<Longrightarrow> first_index i P xs = first_index i Q xs"
  by (induction xs arbitrary: i) auto

lemma fallback_scan_settled:
  "store_settled st \<Longrightarrow>
     fallback_scan env q i rs st = (first_index i (\<lambda>(r, a). \<not> is_indexed r \<and> rule_holds env q st r) rs, st)"
  by (induction env q i rs st rule: fallback_scan.induct) (auto simp: matches_session_eq)

subsection \<open>The tries index the rules\<close>

definition entries_of :: "(rule \<Rightarrow> 'k list) \<Rightarrow> (rule \<times> rule_action) list \<Rightarrow> ('k \<times> nat) list" where
  "entries_of keys rules = concat (map (\<lambda>(i, (r, a)). map (\<lambda>s. (s, i)) (keys r)) (enumerate 0 rules))"

fun suffix_keys :: "rule \<Rightarrow> string list" where
  "suffix_keys (DomainSuffix ss) = ss"
| "suffix_keys _ = []"

fun net_keys :: "rule \<Rightarrow> ip_net list" where
  "net_keys (IpCidr ns) = ns"
| "net_keys _ = []"

fun build_inv :: "build_state \<Rightarrow> bool" where
  "build_inv (rules, dt, it) =
     (dt = domain_trie_build (entries_of suffix_keys rules) \<and> it = ip_trie_build (entries_of net_keys rules))"

lemma entries_of_snoc:
  "entries_of keys (rules @ [(r, a)]) = entries_of keys rules @ map (\<lambda>s. (s, length rules)) (keys r)"
  by (simp add: entries_of_def enumerate_append_eq)

lemma fold_map_pair: "fold (\<lambda>(s, v). f s v) (map (\<lambda>s. (s, i)) ss) t = fold (\<lambda>s. f s i) ss t"
  by (induction ss arbitrary: t) simp_all

lemma push_rule_inv:
  assumes "build_inv bs"
  shows "build_inv (push_rule r a bs)"
proof -
  obtain rules dt it where bs: "bs = (rules, dt, it)" by (cases bs)
  with assms show ?thesis
    by (cases r) (simp_all add: Let_def entries_of_snoc domain_trie_build_def ip_trie_build_def fold_map_pair)
qed

lemma push_rule_sets_inv:
  "push_rule_sets providers a ns bs = Inr bs' \<Longrightarrow> build_inv bs \<Longrightarrow> build_inv bs'"
proof (induction providers a ns bs rule: push_rule_sets.induct)
  case (2 providers a n ns rules dt it)
  then show ?case
    by (auto simp: entries_of_snoc domain_trie_build_def ip_trie_build_def split: option.splits)
qed simp

lemma build_rules_inv:
  "build_rules env providers cs bs = Inr bs' \<Longrightarrow> build_inv bs \<Longrightarrow> build_inv bs'"
  by (induction env providers cs bs rule: build_rules.induct)
     (auto split: if_splits sum.splits simp: push_rule_inv dest: push_rule_sets_inv)

text \<open>Where the networks of the rules come from.\<close>

definition nets_of :: "(rule \<times> rule_action) list \<Rightarrow> ip_net set" where
  "nets_of rules = (\<Union>(r, a) \<in> set rules. set (net_keys r))"

lemma push_rule_sets_nets:
  "push_rule_sets providers a ns bs = Inr bs' \<Longrightarrow> nets_of (fst bs') = nets_of (fst bs)"
  by (induction providers a ns bs rule: push_rule_sets.induct) (auto simp: nets_of_def split: option.splits)

lemma build_rules_nets:
  assumes "\<And>s n. io_parse_net (me_io env) s = Some n \<Longrightarrow> net_wf n"
  shows "build_rules env providers cs bs = Inr bs' \<Longrightarrow> \<forall>n \<in> nets_of (fst bs). net_wf n \<Longrightarrow>
     \<forall>n \<in> nets_of (fst bs'). net_wf n"
proof (induction cs arbitrary: bs)
  case (Cons c cs)
  show ?case
  proof (cases "rc_type c = ''rule-set''")
    case True
    with Cons show ?thesis by (auto split: sum.splits dest: push_rule_sets_nets)
  next
    case False
    with Cons.prems obtain rule where r: "from_config env c = Inr rule"
      and b: "build_rules env providers cs (push_rule rule (action_from_config c) bs) = Inr bs'"
      by (auto split: sum.splits)
    have "net_wf n" if "n \<in> set (net_keys rule)" for n
      using that r from_config_nets [of env c] assms by (cases rule) fastforce+
    moreover have "fst (push_rule rule (action_from_config c) bs) = fst bs @ [(rule, action_from_config c)]"
      by (cases bs) (simp add: Let_def)
    ultimately show ?thesis
      using Cons.IH [OF b] Cons.prems(2) by (auto simp: nets_of_def)
  qed
qed simp

lemma find_entries:
  "map_option snd (find (\<lambda>(s, v). P s) (concat (map (\<lambda>(i, (r, a)). map (\<lambda>s. (s, i)) (keys r)) (enumerate k rules)))) =
     first_index k (\<lambda>(r, a). list_ex P (keys r)) rules"
proof (induction rules arbitrary: k)
  case (Cons x rules)
  have "map_option snd (find (\<lambda>(s, v). P s) (map (\<lambda>s. (s, k)) ss @ es)) =
      (if list_ex P ss then Some k else map_option snd (find (\<lambda>(s, v). P s) es))" for ss es
    by (induction ss) auto
  with Cons show ?case by (cases x) simp
qed simp

lemma sorted_entries:
  "sorted (map snd (concat (map (\<lambda>(i, (r, a)). map (\<lambda>s. (s, i)) (keys r)) (enumerate k rules))))"
proof (induction rules arbitrary: k)
  case (Cons x rules)
  have ge: "\<forall>e \<in> set (concat (map (\<lambda>(i, (r, a)). map (\<lambda>s. (s, i)) (keys r)) (enumerate j rules))). j \<le> snd e" for j
    by (auto simp: in_set_enumerate_eq)
  have "sorted (map snd (map (\<lambda>s. (s, k)) ss))" for ss :: "'a list"
    by (induction ss) auto
  with Cons ge [of "Suc k"] show ?case
    by (cases x) (fastforce simp: sorted_append)
qed simp

lemma entries_of_member:
  "(n, v) \<in> set (entries_of keys rules) \<Longrightarrow> \<exists>(r, a) \<in> set rules. n \<in> set (keys r)"
  by (induction rules rule: rev_induct) (auto simp: entries_of_snoc entries_of_def [of _ "[]"])

lemma entries_wf:
  "(\<forall>n \<in> nets_of rules. net_wf n) \<Longrightarrow> \<forall>(n, v) \<in> set (entries_of net_keys rules). net_wf n"
  by (auto simp: nets_of_def dest: entries_of_member)

subsection \<open>Routing\<close>

text \<open>What a router built by \<^verbatim>\<open>Router::new\<close> satisfies.\<close>

definition router_inv :: "router \<Rightarrow> bool" where
  "router_inv rt =
     (rt_domain_trie rt = domain_trie_build (entries_of suffix_keys (rt_rules rt)) \<and>
      rt_ip_trie rt = ip_trie_build (entries_of net_keys (rt_rules rt)) \<and>
      (\<forall>n \<in> nets_of (rt_rules rt). net_wf n))"

lemma build_inv_start: "build_inv ([], domain_trie_new, ip_prefix_trie_new)"
  by (simp add: entries_of_def domain_trie_build_def ip_trie_build_def)

lemma router_new_inv:
  assumes "router_new env geoip cfg files = Inr (rt, st)"
    and "\<And>s n. io_parse_net (me_io env) s = Some n \<Longrightarrow> net_wf n"
  shows "router_inv rt"
proof -
  from assms(1) obtain providers where
    b: "build_rules env providers (cfg_rules cfg) ([], domain_trie_new, ip_prefix_trie_new) =
      Inr (rt_rules rt, rt_domain_trie rt, rt_ip_trie rt)"
    by (auto simp: router_new_def split: sum.splits prod.splits)
  show ?thesis
    using build_rules_inv [OF b build_inv_start] build_rules_nets [OF assms(2) b]
    by (simp add: router_inv_def nets_of_def)
qed

lemma trie_match_first_index:
  assumes "router_inv rt" and "contains_spec (io_contains (me_io env))"
  shows "trie_match_idx rt (mq_addr q) =
     first_index 0 (\<lambda>(r, a). is_indexed r \<and> rule_holds env q st r) (rt_rules rt)"
proof (cases "mq_addr q")
  case (Domain d p)
  have "trie_match_idx rt (mq_addr q) = first_index 0 (\<lambda>(r, a). list_ex (\<lambda>s. suffix_match s d) (suffix_keys r)) (rt_rules rt)"
    using assms(1) Domain
    by (simp add: trie_match_idx_def router_inv_def domain_first_match_build sorted_entries entries_of_def find_entries)
  moreover have "list_ex (\<lambda>s. suffix_match s d) (suffix_keys r) = (is_indexed r \<and> rule_holds env q st r)" for r
    using Domain by (cases r) (simp_all add: rule_holds_simps)
  ultimately show ?thesis by simp
next
  case (Ip sa)
  have "trie_match_idx rt (mq_addr q) =
      first_index 0 (\<lambda>(r, a). list_ex (\<lambda>n. net_covers n (sock_ip sa)) (net_keys r)) (rt_rules rt)"
    using assms(1) Ip entries_wf [of "rt_rules rt"] sorted_entries [of net_keys 0 "rt_rules rt"]
    by (simp add: trie_match_idx_def router_inv_def ip_first_match_build entries_of_def find_entries)
  also have "\<dots> = first_index 0 (\<lambda>(r, a). is_indexed r \<and> rule_holds env q st r) (rt_rules rt)"
  proof (rule first_index_cong)
    fix x assume x: "x \<in> set (rt_rules rt)"
    obtain r a where ra: "x = (r, a)" by (cases x)
    with x assms(1) have "\<forall>n \<in> set (net_keys r). net_wf n"
      by (auto simp: router_inv_def nets_of_def)
    then show "(case x of (r, a) \<Rightarrow> list_ex (\<lambda>n. net_covers n (sock_ip sa)) (net_keys r)) =
        (case x of (r, a) \<Rightarrow> is_indexed r \<and> rule_holds env q st r)"
      using Ip assms(2) ra by (cases r) (auto simp: rule_holds_simps contains_spec_def list_ex_iff)
  qed
  finally show ?thesis .
qed

lemma route_eq_reference:
  assumes "router_inv rt" and "contains_spec (io_contains (me_io env))" and "store_settled st"
  shows "route_with_rule env rt s st = (Some (route_reference env rt s st), st)"
proof -
  let ?q = "session_query rt s"
  let ?P = "\<lambda>(r, a). rule_holds env ?q st r"
  have trie: "trie_match_idx rt (s_target s) =
      first_index 0 (\<lambda>(r, a). is_indexed r \<and> rule_holds env ?q st r) (rt_rules rt)"
    using trie_match_first_index [OF assms(1,2), of ?q] by (simp add: session_query_def)
  note scan = fallback_scan_settled [OF assms(3), of env ?q 0 "rt_rules rt"]
  have sel: "(case (x, y) of (Some a, Some b) \<Rightarrow> Some (min a b) | (Some a, None) \<Rightarrow> Some a
      | (None, Some b) \<Rightarrow> Some b | (None, None) \<Rightarrow> None) = omin x y" for x y :: "nat option"
    by (cases x; cases y) simp_all
  have "omin (first_index 0 (\<lambda>(r, a). is_indexed r \<and> rule_holds env ?q st r) (rt_rules rt))
      (first_index 0 (\<lambda>(r, a). \<not> is_indexed r \<and> rule_holds env ?q st r) (rt_rules rt)) = first_index 0 ?P (rt_rules rt)"
    unfolding first_index_or by (rule first_index_cong) auto
  then show ?thesis
    using first_index_find [where i = 0 and P = ?P and xs = "rt_rules rt"]
    unfolding route_with_rule_def scan trie prod.case Let_def sel route_reference_def rule_holds_def [symmetric]
    by (auto split: option.splits prod.splits)
qed

subsection \<open>A sample configuration\<close>

definition sample_config :: router_config where
  "sample_config = \<lparr>
     cfg_rules = [
       rule_config_default\<lparr>rc_type := ''in-tag'', rc_values := [''blocked''], rc_action := ''reject''\<rparr>,
       rule_config_default\<lparr>rc_type := ''domain-suffix'', rc_values := [''example.com''], rc_outbound := ''proxy''\<rparr>,
       rule_config_default\<lparr>rc_type := ''domain-keyword'', rc_values := [''example''], rc_outbound := ''late''\<rparr>,
       rule_config_default\<lparr>rc_type := ''ip-cidr'', rc_values := [''10.0.0.0/8''], rc_outbound := ''lan''\<rparr>],
     cfg_default = ''direct'', cfg_geoip_db = None, cfg_geosite_db = None, cfg_rule_providers = []\<rparr>"

definition sample_session :: session where
  "sample_session = \<lparr>s_target = Domain ''www.Example.com'' 443, s_source = None, s_inbound_tag = ''in'',
     s_network = Tcp, s_sniff = False, s_detected_protocol = None\<rparr>"

lemma sample_env_nets:
  "\<forall>s n. io_parse_net (me_io sample_env) s = Some n \<longrightarrow> net_wf n" "contains_spec (io_contains (me_io sample_env))"
  by (simp_all add: sample_env_def contains_spec_net_covers)

section \<open>Properties\<close>

text \<open>C1. Routing is first match: for a router built from any configuration, with every provider loaded,
  the outbound and the rule description that the indexed lookup returns are those of the first rule, from
  the top of the configured list, that matches the session (or the default outbound when none matches);
  the lookup never indexes the rules out of bounds and leaves the store alone.  The network library is
  assumed to parse only networks with a prefix of legal length and to decide membership by that prefix.\<close>

theorem route_is_first_match:
  assumes "router_new env geoip cfg files = Inr (rt, st0)"
    and "\<forall>s n. io_parse_net (me_io env) s = Some n \<longrightarrow> net_wf n"
    and "contains_spec (io_contains (me_io env))"
    and "store_settled st"
  shows "route_with_rule env rt s st = (Some (route_reference env rt s st), st)"
  using route_eq_reference router_new_inv assms by blast

theorem route_is_first_match_witness:
  "\<exists>rt st. router_new sample_env (\<lambda>_. None) sample_config [] = Inr (rt, st) \<and>
     route_with_rule sample_env rt sample_session st = (Some (''proxy'', Some ''domain-suffix(example.com)''), st)"
proof -
  have "case router_new sample_env (\<lambda>_. None) sample_config [] of
      Inr (rt, st) \<Rightarrow> store_settled st \<and>
        route_reference sample_env rt sample_session st = (''proxy'', Some ''domain-suffix(example.com)'')
    | Inl _ \<Rightarrow> False"
    by code_simp
  then obtain rt st where r: "router_new sample_env (\<lambda>_. None) sample_config [] = Inr (rt, st)"
    and settled: "store_settled st"
    and "route_reference sample_env rt sample_session st = (''proxy'', Some ''domain-suffix(example.com)'')"
    by (auto split: sum.splits)
  with r route_is_first_match [OF r sample_env_nets settled, of sample_session] show ?thesis
    by auto
qed

text \<open>A rule whose action is not a route or a bypass sends its traffic to the default outbound: when
  the first matching rule rejects (or drops, hijacks DNS, sniffs, resolves or rewrites), the returned tag
  is the default one, and the caller cannot tell it from unmatched traffic by the tag.\<close>

theorem reject_routes_to_default:
  assumes "router_new env geoip cfg files = Inr (rt, st0)"
    and "\<forall>s n. io_parse_net (me_io env) s = Some n \<longrightarrow> net_wf n"
    and "contains_spec (io_contains (me_io env))"
    and "store_settled st"
    and "find (\<lambda>(rule, action). fst (matches_session env (session_query rt s) rule st)) (rt_rules rt) = Some (rule, action)"
    and "action \<in> {Reject, RejectDrop, HijackDns, SniffAction}"
  shows "fst (route env rt s st) = Some (rt_default rt)"
proof -
  have "route_with_rule env rt s st = (Some (route_reference env rt s st), st)"
    using route_eq_reference router_new_inv assms by blast
  then show ?thesis
    using assms(5,6) by (auto simp: route_def route_reference_def)
qed

theorem reject_routes_to_default_witness:
  "\<exists>rt st. router_new sample_env (\<lambda>_. None) sample_config [] = Inr (rt, st) \<and>
     fst (route sample_env rt (sample_session\<lparr>s_inbound_tag := ''blocked''\<rparr>) st) = Some ''direct''"
proof -
  let ?s = "sample_session\<lparr>s_inbound_tag := ''blocked''\<rparr>"
  have "case router_new sample_env (\<lambda>_. None) sample_config [] of
      Inr (rt, st) \<Rightarrow> store_settled st \<and> rt_default rt = ''direct'' \<and>
        find (\<lambda>(rule, action). fst (matches_session sample_env (session_query rt ?s) rule st)) (rt_rules rt)
          = Some (InTag [''blocked''], Reject)
    | Inl _ \<Rightarrow> False"
    by code_simp
  then obtain rt st where "router_new sample_env (\<lambda>_. None) sample_config [] = Inr (rt, st)"
    "store_settled st" "rt_default rt = ''direct''"
    "find (\<lambda>(rule, action). fst (matches_session sample_env (session_query rt ?s) rule st)) (rt_rules rt)
       = Some (InTag [''blocked''], Reject)"
    by (auto split: sum.splits)
  with reject_routes_to_default [OF _ sample_env_nets, of "\<lambda>_. None" sample_config "[]" rt st st ?s "InTag [''blocked'']" Reject]
  show ?thesis by auto
qed

text \<open>A GeoSite rule never matches when the rules name more than one category: the categories are
  joined by commas into one name, under which the whole database is stored, and no single category
  without a comma is that name.\<close>

theorem geosite_multiple_categories_dead:
  assumes "load_geosite cfg files = Inr (Some db)"
    and "concat (map rc_values (filter (\<lambda>r. rc_type r = ''geosite'') (cfg_rules cfg))) = c1 # c2 # cs"
    and "CHR '','' \<notin> set (to_lowercase c)"
  shows "\<not> geosite_matches db d c"
proof
  assume m: "geosite_matches db d c"
  from assms(1,2) obtain pth where "geosite_load pth (join_with '','' (c1 # c2 # cs)) files = Inr db"
    by (auto simp: load_geosite_def Let_def split: option.splits sum.splits if_splits)
  from geosite_load_matches [OF this m] have "to_lowercase c = to_lowercase (c1 @ '','' @ join_with '','' (c2 # cs))"
    by simp
  moreover have "to_lower_char CHR '','' = CHR '',''"
    by (simp add: to_lower_char_def)
  ultimately have "CHR '','' \<in> set (to_lowercase c)"
    by (simp add: to_lowercase_def)
  with assms(3) show False ..
qed

theorem geosite_multiple_categories_dead_witness:
  "\<exists>db. load_geosite (sample_config\<lparr>cfg_geosite_db := Some ''g'', cfg_rules := [
      rule_config_default\<lparr>rc_type := ''geosite'', rc_values := [''ads'', ''cn'']\<rparr>]\<rparr>)
      [(''g'', \<lparr>f_bytes = as_bytes ''a.io'', f_mtime = None\<rparr>)] = Inr (Some db) \<and>
    \<not> geosite_matches db ''a.io'' ''cn''"
proof -
  let ?cfg = "sample_config\<lparr>cfg_geosite_db := Some ''g'', cfg_rules := [
      rule_config_default\<lparr>rc_type := ''geosite'', rc_values := [''ads'', ''cn'']\<rparr>]\<rparr>"
  let ?files = "[(''g'', \<lparr>f_bytes = as_bytes ''a.io'', f_mtime = None\<rparr>)]"
  let ?db = "\<lparr>gs_categories = [(''ads,cn'', [SiteDomainSuffix ''a.io''])]\<rparr>"
  have "load_geosite ?cfg ?files = Inr (Some ?db)"
    and "concat (map rc_values (filter (\<lambda>r. rc_type r = ''geosite'') (cfg_rules ?cfg))) = [''ads'', ''cn'']"
    and "CHR '','' \<notin> set (to_lowercase ''cn'')"
    by code_simp+
  with geosite_multiple_categories_dead [of ?cfg ?files ?db "''ads''" "''cn''" "[]" "''cn''" "''a.io''"]
  show ?thesis by blast
qed

end
