(* ===== verification/IpText.thy ===== *)
theory IpText
  imports Addr
begin

text \<open>
  The parsers of address literals of the standard library (\<^verbatim>\<open>Ipv4Addr\<close>, \<^verbatim>\<open>Ipv6Addr\<close> and \<^verbatim>\<open>IpAddr\<close>
  from a string): four decimal octets without leading zeros, or up to eight groups of hexadecimal digits
  with at most one double colon and possibly a dotted tail.
\<close>

definition parse_dec_octet :: "string \<Rightarrow> byte option" where
  "parse_dec_octet s =
     (if s \<noteq> [] \<and> length s \<le> 3 \<and> list_all is_digit s \<and> (length s > 1 \<longrightarrow> hd s \<noteq> CHR ''0'') \<and> digits_value s \<le> 255
      then Some (word_of_nat (digits_value s)) else None)"

definition parse_ipv4 :: "string \<Rightarrow> u32 option" where
  "parse_ipv4 s =
     (case map parse_dec_octet (split_on CHR ''.'' s) of
        [Some a, Some b, Some c, Some d] \<Rightarrow> Some (from_be [a, b, c, d])
      | _ \<Rightarrow> None)"

definition hex_value :: "char \<Rightarrow> nat option" where
  "hex_value c =
     (let n = (of_char c :: nat) in
      if 48 \<le> n \<and> n \<le> 57 then Some (n - 48)
      else if 97 \<le> n \<and> n \<le> 102 then Some (n - 87)
      else if 65 \<le> n \<and> n \<le> 70 then Some (n - 55)
      else None)"

definition parse_hex_group :: "string \<Rightarrow> byte list option" where
  "parse_hex_group s =
     (if s = [] \<or> 4 < length s \<or> list_ex (\<lambda>c. hex_value c = None) s then None
      else let v = foldl (\<lambda>acc c. 16 * acc + the (hex_value c)) 0 s
           in Some [word_of_nat (v div 256), word_of_nat (v mod 256)])"

text \<open>A list of colon-separated groups; the last may be a dotted IPv4 address where that is allowed.\<close>

fun parse_groups :: "bool \<Rightarrow> string list \<Rightarrow> byte list option" where
  "parse_groups v4_ok [] = Some []"
| "parse_groups v4_ok (g # gs) =
     (case (if gs = [] \<and> v4_ok then map_option (to_be 4) (parse_ipv4 g) else None) of
        Some bs \<Rightarrow> Some bs
      | None \<Rightarrow>
        (case parse_hex_group g of
           None \<Rightarrow> None
         | Some bs \<Rightarrow> map_option ((@) bs) (parse_groups v4_ok gs)))"

fun split_double_colon :: "string \<Rightarrow> (string \<times> string) option" where
  "split_double_colon [] = None"
| "split_double_colon (c # cs) =
     (if c = CHR '':'' \<and> cs \<noteq> [] \<and> hd cs = CHR '':'' then Some ([], tl cs)
      else map_option (\<lambda>(a, b). (c # a, b)) (split_double_colon cs))"

definition groups_of :: "string \<Rightarrow> string list" where
  "groups_of s = (if s = [] then [] else split_on CHR '':'' s)"

definition parse_ipv6 :: "string \<Rightarrow> u128 option" where
  "parse_ipv6 s =
     (case split_double_colon s of
        None \<Rightarrow>
          (case parse_groups True (split_on CHR '':'' s) of
             Some bs \<Rightarrow> if length bs = 16 then Some (from_be bs) else None
           | None \<Rightarrow> None)
      | Some (h, t) \<Rightarrow>
          (case (parse_groups False (groups_of h), parse_groups True (groups_of t)) of
             (Some hs, Some ts) \<Rightarrow>
               if length hs + length ts \<le> 14
               then Some (from_be (hs @ replicate (16 - length hs - length ts) 0 @ ts)) else None
           | _ \<Rightarrow> None))"

definition parse_ip :: "string \<Rightarrow> ip_addr option" where
  "parse_ip s =
     (case parse_ipv4 s of
        Some a \<Rightarrow> Some (V4 a)
      | None \<Rightarrow> (case parse_ipv6 s of Some a \<Rightarrow> Some (V6 a) | None \<Rightarrow> None))"

end
