(* ===== verification/FakeIp.thy ===== *)
theory FakeIp
  imports Trie IpText
begin

text \<open>
  The FakeIP pool, \<^verbatim>\<open>src/src/dns/fakeip.rs\<close>: domain names get addresses of a reserved range, and the
  address is later mapped back to the name.  An allocation is two steps with other tasks possibly in
  between: a lookup that draws an offset when there is no mapping (\<^verbatim>\<open>fetch_add\<close>), and a commit under both
  write locks; the invariant that the two maps are inverse to each other is proved for every interleaving
  of such steps.  The shift
  \<^verbatim>\<open>1u32 << (32 - prefix)\<close> uses the shift distance modulo 32, as release builds do.
\<close>

section \<open>Definitions\<close>

subsection \<open>Pool\<close>

record fake_ip_pool =
  ipv4_base :: u32
  ipv4_size :: u32
  ipv4_offset :: u32
  ipv6_prefix :: u128
  ipv6_offset :: u32
  domain_to_ip :: "(string, ip_addr) hashmap"
  ip_to_domain :: "(ip_addr, string) hashmap"
  exclude_domains :: "string list"

definition default_pool_range :: "u32 \<times> u32" where
  "default_pool_range = (from_be [198, 18, 0, 0], push_bit 17 1)"

definition parse_ipv4_cidr :: "string \<Rightarrow> u32 \<times> u32" where
  "parse_ipv4_cidr cidr =
     (case split_once CHR ''/'' cidr of
        Some (ip_str, prefix_str) \<Rightarrow>
          (case (parse_ipv4 ip_str, parse_uint 4294967295 prefix_str) of
             (Some ip, Some plen) \<Rightarrow>
               (ip, if 32 \<le> plen then 1 else push_bit ((32 - plen) mod 32) 1)
           | _ \<Rightarrow> default_pool_range)
      | None \<Rightarrow> default_pool_range)"

definition parse_ipv6_prefix :: "string \<Rightarrow> u128 option" where
  "parse_ipv6_prefix s = parse_ipv6 (hd (split_on CHR ''/'' s))"

definition fake_ip_pool_new :: "string \<Rightarrow> string option \<Rightarrow> string list \<Rightarrow> fake_ip_pool" where
  "fake_ip_pool_new ipv4_cidr ipv6_pre exclude =
     (case parse_ipv4_cidr ipv4_cidr of (base, sz) \<Rightarrow>
        \<lparr>ipv4_base = base, ipv4_size = sz, ipv4_offset = 1,
         ipv6_prefix = (case Option.bind ipv6_pre parse_ipv6_prefix of
             Some p \<Rightarrow> p | None \<Rightarrow> 0xfc000000000000000000000000000000),
         ipv6_offset = 1, domain_to_ip = [], ip_to_domain = [], exclude_domains = exclude\<rparr>)"

text \<open>The first half of an allocation: an existing mapping, or the offset that \<^verbatim>\<open>fetch_add\<close> returns.\<close>

definition allocate_begin :: "string \<Rightarrow> fake_ip_pool \<Rightarrow> (ip_addr + u32) \<times> fake_ip_pool" where
  "allocate_begin d pool =
     (case hm_get (domain_to_ip pool) (to_lowercase d) of
        Some ip \<Rightarrow> (Inl ip, pool)
      | None \<Rightarrow> (Inr (ipv4_offset pool), pool\<lparr>ipv4_offset := ipv4_offset pool + 1\<rparr>))"

text \<open>The second half, under the write locks: \<^term>\<open>key\<close> and \<^term>\<open>ip\<close> become a pair of both maps, and an
  older key of the address is dropped.\<close>

definition bind_pair :: "string \<Rightarrow> ip_addr \<Rightarrow> fake_ip_pool \<Rightarrow> ip_addr \<times> fake_ip_pool" where
  "bind_pair key ip pool =
     (case hm_get (domain_to_ip pool) key of
        Some existing \<Rightarrow> (existing, pool)
      | None \<Rightarrow>
        let d2i = (case hm_get (ip_to_domain pool) ip of
                     Some old \<Rightarrow> hm_remove old (domain_to_ip pool) | None \<Rightarrow> domain_to_ip pool);
            i2d = hm_remove ip (ip_to_domain pool)
        in (ip, pool\<lparr>domain_to_ip := hm_insert key ip d2i, ip_to_domain := hm_insert ip key i2d\<rparr>))"

definition v4_address :: "u32 \<Rightarrow> fake_ip_pool \<Rightarrow> ip_addr" where
  "v4_address offset pool = V4 (ipv4_base pool + offset mod ipv4_size pool)"

definition allocate_commit :: "string \<Rightarrow> u32 \<Rightarrow> fake_ip_pool \<Rightarrow> ip_addr \<times> fake_ip_pool" where
  "allocate_commit d offset pool = bind_pair (to_lowercase d) (v4_address offset pool) pool"

definition allocate :: "string \<Rightarrow> fake_ip_pool \<Rightarrow> ip_addr \<times> fake_ip_pool" where
  "allocate d pool =
     (case allocate_begin d pool of
        (Inl ip, pool') \<Rightarrow> (ip, pool')
      | (Inr offset, pool') \<Rightarrow> allocate_commit d offset pool')"

definition v6_key :: "string \<Rightarrow> string" where
  "v6_key d = ''v6:'' @ to_lowercase d"

definition allocate_v6_begin :: "string \<Rightarrow> fake_ip_pool \<Rightarrow> (ip_addr + u32) \<times> fake_ip_pool" where
  "allocate_v6_begin d pool =
     (case hm_get (domain_to_ip pool) (v6_key d) of
        Some ip \<Rightarrow> (Inl ip, pool)
      | None \<Rightarrow> (Inr (ipv6_offset pool), pool\<lparr>ipv6_offset := ipv6_offset pool + 1\<rparr>))"

definition allocate_v6_commit :: "string \<Rightarrow> u32 \<Rightarrow> fake_ip_pool \<Rightarrow> ip_addr \<times> fake_ip_pool" where
  "allocate_v6_commit d offset pool = bind_pair (v6_key d) (V6 (ipv6_prefix pool OR ucast offset)) pool"

definition allocate_v6 :: "string \<Rightarrow> fake_ip_pool \<Rightarrow> ip_addr \<times> fake_ip_pool" where
  "allocate_v6 d pool =
     (case allocate_v6_begin d pool of
        (Inl ip, pool') \<Rightarrow> (ip, pool')
      | (Inr offset, pool') \<Rightarrow> allocate_v6_commit d offset pool')"

definition fake_lookup :: "ip_addr \<Rightarrow> fake_ip_pool \<Rightarrow> string option" where
  "fake_lookup ip pool =
     map_option (\<lambda>s. case strip_prefix s ''v6:'' of Some r \<Rightarrow> r | None \<Rightarrow> s) (hm_get (ip_to_domain pool) ip)"

definition sat_add :: "u32 \<Rightarrow> u32 \<Rightarrow> u32" where
  "sat_add a b = (if unat a + unat b < 2 ^ 32 then a + b else - 1)"

definition is_fake_ip :: "ip_addr \<Rightarrow> fake_ip_pool \<Rightarrow> bool" where
  "is_fake_ip ip pool =
     (case ip of
        V4 a \<Rightarrow> ipv4_base pool \<le> a \<and> a < sat_add (ipv4_base pool) (ipv4_size pool)
      | V6 a \<Rightarrow> drop_bit 64 a = drop_bit 64 (ipv6_prefix pool))"

definition is_excluded :: "string \<Rightarrow> fake_ip_pool \<Rightarrow> bool" where
  "is_excluded d pool =
     list_ex (\<lambda>suffix. to_lowercase d = to_lowercase suffix
        \<or> ends_with (to_lowercase d) (CHR ''.'' # to_lowercase suffix)) (exclude_domains pool)"

definition pool_len :: "fake_ip_pool \<Rightarrow> nat" where
  "pool_len pool = length (domain_to_ip pool)"

definition pool_is_empty :: "fake_ip_pool \<Rightarrow> bool" where
  "pool_is_empty pool = (domain_to_ip pool = [])"

subsection \<open>Interleavings\<close>

datatype pool_step =
    BeginV4 string | CommitV4 string u32 | BeginV6 string | CommitV6 string u32

fun pool_do :: "pool_step \<Rightarrow> fake_ip_pool \<Rightarrow> fake_ip_pool" where
  "pool_do (BeginV4 d) pool = snd (allocate_begin d pool)"
| "pool_do (CommitV4 d off) pool = snd (allocate_commit d off pool)"
| "pool_do (BeginV6 d) pool = snd (allocate_v6_begin d pool)"
| "pool_do (CommitV6 d off) pool = snd (allocate_v6_commit d off pool)"

definition pool_inv :: "fake_ip_pool \<Rightarrow> bool" where
  "pool_inv pool =
     (hm_wf (domain_to_ip pool) \<and> hm_wf (ip_to_domain pool) \<and>
      (\<forall>k ip. hm_get (domain_to_ip pool) k = Some ip \<longleftrightarrow> hm_get (ip_to_domain pool) ip = Some k))"

section \<open>Lemmas\<close>

lemma bind_pair_inv:
  assumes "pool_inv pool"
  shows "pool_inv (snd (bind_pair key ip pool))"
proof (cases "hm_get (domain_to_ip pool) key")
  case None
  with assms have no_key: "hm_get (ip_to_domain pool) x \<noteq> Some key" for x
    by (metis option.distinct(1) pool_inv_def)
  have inj: "hm_get (ip_to_domain pool) x = Some k \<Longrightarrow> hm_get (ip_to_domain pool) y = Some k \<Longrightarrow> x = y" for x y k
    using assms by (metis option.inject pool_inv_def)
  show ?thesis
    using None assms no_key inj by (cases "hm_get (ip_to_domain pool) ip")
       (auto simp: bind_pair_def pool_inv_def Let_def split: if_splits)
qed (use assms in \<open>simp add: bind_pair_def\<close>)

lemma allocate_begin_maps:
  "domain_to_ip (snd (allocate_begin d pool)) = domain_to_ip pool"
  "ip_to_domain (snd (allocate_begin d pool)) = ip_to_domain pool"
  "domain_to_ip (snd (allocate_v6_begin d pool)) = domain_to_ip pool"
  "ip_to_domain (snd (allocate_v6_begin d pool)) = ip_to_domain pool"
  by (simp_all add: allocate_begin_def allocate_v6_begin_def split: option.splits)

lemma pool_inv_maps:
  "domain_to_ip p = domain_to_ip q \<Longrightarrow> ip_to_domain p = ip_to_domain q \<Longrightarrow> pool_inv p = pool_inv q"
  by (simp add: pool_inv_def)

lemma begin_inv:
  "pool_inv (snd (allocate_begin d pool)) = pool_inv pool"
  "pool_inv (snd (allocate_v6_begin d pool)) = pool_inv pool"
  by (rule pool_inv_maps; simp add: allocate_begin_maps)+

lemma pool_do_inv: "pool_inv pool \<Longrightarrow> pool_inv (pool_do x pool)"
  by (cases x) (simp_all add: allocate_commit_def allocate_v6_commit_def bind_pair_inv begin_inv)

interpretation pool: preserved pool_do pool_inv
  by unfold_locales (rule pool_do_inv)

lemma pool_new_inv: "pool_inv (fake_ip_pool_new c p e)"
  by (simp add: fake_ip_pool_new_def pool_inv_def split: prod.splits)

subsection \<open>Range\<close>

text \<open>Every mapped address was computed from the range of the pool, which the steps never change.\<close>

definition addr_in_pool :: "fake_ip_pool \<Rightarrow> ip_addr \<Rightarrow> bool" where
  "addr_in_pool pool ip =
     (case ip of
        V4 a \<Rightarrow> \<exists>off. a = ipv4_base pool + off mod ipv4_size pool
      | V6 a \<Rightarrow> \<exists>off :: u32. a = ipv6_prefix pool OR ucast off)"

definition range_inv :: "fake_ip_pool \<Rightarrow> bool" where
  "range_inv pool = (\<forall>k ip. hm_get (domain_to_ip pool) k = Some ip \<longrightarrow> addr_in_pool pool ip)"

definition same_range :: "fake_ip_pool \<Rightarrow> fake_ip_pool \<Rightarrow> bool" where
  "same_range p q = (ipv4_base p = ipv4_base q \<and> ipv4_size p = ipv4_size q \<and> ipv6_prefix p = ipv6_prefix q)"

lemma addr_in_pool_cong: "same_range p q \<Longrightarrow> addr_in_pool p ip = addr_in_pool q ip"
  by (simp add: same_range_def addr_in_pool_def split: ip_addr.splits)

lemma bind_pair_same_range: "same_range (snd (bind_pair k ip pool)) pool"
  by (simp add: bind_pair_def same_range_def Let_def split: option.splits)

lemma begin_same_range:
  "same_range (snd (allocate_begin d pool)) pool" "same_range (snd (allocate_v6_begin d pool)) pool"
  by (simp_all add: allocate_begin_def allocate_v6_begin_def same_range_def split: option.splits)

lemma bind_pair_range:
  assumes "range_inv pool" and "addr_in_pool pool ip"
  shows "range_inv (snd (bind_pair k ip pool))"
proof -
  have "hm_get (domain_to_ip (snd (bind_pair k ip pool))) k' = Some ip' \<Longrightarrow> addr_in_pool pool ip'" for k' ip'
    using assms by (auto simp: bind_pair_def range_inv_def Let_def split: option.splits if_splits)
  then show ?thesis
    by (simp add: range_inv_def addr_in_pool_cong [OF bind_pair_same_range])
qed

lemma pool_do_same_range: "same_range (pool_do x pool) pool"
  by (cases x) (simp_all add: begin_same_range allocate_commit_def allocate_v6_commit_def bind_pair_same_range)

lemma pool_do_range: "range_inv pool \<Longrightarrow> range_inv (pool_do x pool)"
proof (cases x)
  case (CommitV4 d off)
  assume "range_inv pool"
  then show ?thesis
    unfolding CommitV4 pool_do.simps allocate_commit_def
    by (rule bind_pair_range) (auto simp: addr_in_pool_def v4_address_def)
next
  case (CommitV6 d off)
  assume "range_inv pool"
  then show ?thesis
    unfolding CommitV6 pool_do.simps allocate_v6_commit_def
    by (rule bind_pair_range) (auto simp: addr_in_pool_def)
qed (simp_all add: range_inv_def allocate_begin_maps addr_in_pool_cong [OF begin_same_range(1)]
       addr_in_pool_cong [OF begin_same_range(2)])

interpretation pool_range: preserved pool_do range_inv
  by unfold_locales (rule pool_do_range)

lemma run_same_range: "same_range (fold pool_do xs pool) pool"
proof (induction xs arbitrary: pool)
  case (Cons x xs)
  with pool_do_same_range [of x pool] show ?case by (auto simp: same_range_def)
qed (simp add: same_range_def)

lemma v4_offset_in_range:
  fixes base size off :: u32
  assumes "unat base + unat size < 2 ^ 32" and "size \<noteq> 0"
  shows "base \<le> base + off mod size" and "base + off mod size < base + size"
proof -
  have m: "unat (off mod size) < unat size"
    using assms(2) by (simp add: unat_mod unat_gt_0)
  have "unat (base + off mod size) = unat base + unat (off mod size)"
    "unat (base + size) = unat base + unat size"
    using assms(1) m by (simp_all add: unat_word_ariths)
  with m show "base \<le> base + off mod size" "base + off mod size < base + size"
    by (simp_all add: word_le_nat_alt word_less_nat_alt)
qed

lemma addr_in_pool_is_fake:
  assumes "addr_in_pool pool ip" and "unat (ipv4_base pool) + unat (ipv4_size pool) < 2 ^ 32" and "ipv4_size pool \<noteq> 0"
  shows "is_fake_ip ip pool"
proof (cases ip)
  case (V4 a)
  with assms v4_offset_in_range [OF assms(2,3)] show ?thesis
    by (auto simp: addr_in_pool_def is_fake_ip_def sat_add_def)
next
  case (V6 a)
  have "drop_bit 64 (p OR ucast off) = drop_bit 64 p" for p :: u128 and off :: u32
    by (intro bit_word_eqI) (auto simp: bit_simps dest: bit_imp_le_length)
  with V6 assms(1) show ?thesis
    by (auto simp: addr_in_pool_def is_fake_ip_def)
qed

lemma parse_ipv4_cidr_size: "snd (parse_ipv4_cidr c) \<noteq> 0"
proof -
  have "push_bit n 1 \<noteq> (0 :: u32)" if "n < 32" for n
    using that by (simp add: exp_eq_zero_iff possible_bit_word)
  then show ?thesis
    by (simp add: parse_ipv4_cidr_def default_pool_range_def not_le split: option.splits prod.splits)
qed

subsection \<open>Allocation\<close>

lemma allocate_cases:
  assumes "allocate d pool = (ip, pool')"
  shows "(hm_get (domain_to_ip pool) (to_lowercase d) = Some ip \<and> pool' = pool) \<or>
    (hm_get (domain_to_ip pool) (to_lowercase d) = None \<and> ip = v4_address (ipv4_offset pool) pool \<and>
     hm_get (domain_to_ip pool') (to_lowercase d) = Some ip \<and>
     (\<forall>ip' k. ip' \<noteq> ip \<and> hm_get (ip_to_domain pool) ip' = Some k \<longrightarrow> hm_get (ip_to_domain pool') ip' = Some k))"
  using assms
  by (auto simp: allocate_def allocate_begin_def allocate_commit_def bind_pair_def v4_address_def Let_def
      split: option.splits)

lemma allocate_is_steps:
  "\<exists>xs. snd (allocate d pool) = fold pool_do xs pool"
proof (cases "hm_get (domain_to_ip pool) (to_lowercase d)")
  case None
  then have "snd (allocate d pool) = fold pool_do [BeginV4 d, CommitV4 d (ipv4_offset pool)] pool"
    by (simp add: allocate_def allocate_begin_def)
  then show ?thesis ..
next
  case (Some ip)
  then have "snd (allocate d pool) = fold pool_do [] pool"
    by (simp add: allocate_def allocate_begin_def)
  then show ?thesis ..
qed

lemma allocate_inv: "pool_inv pool \<Longrightarrow> pool_inv (snd (allocate d pool))"
  using allocate_is_steps [of d pool] pool.run_inv by auto

section \<open>Properties\<close>

text \<open>C14. The two maps of the pool stay inverse to each other: after any interleaving of the lookup and
  commit halves of IPv4 and IPv6 allocations, by any number of tasks and with any drawn offsets, a name
  maps to an address exactly if the address maps back to that name; so no two names share an address.\<close>

theorem fake_ip_maps_inverse:
  "pool_inv (fold pool_do steps (fake_ip_pool_new cidr v6 exclude))"
  by (rule pool.run_inv [OF pool_new_inv])

text \<open>Allocation and reverse lookup round-trip: the address allocated for a domain is mapped back to
  the lower-case domain, asking again returns the same address and changes nothing, and no mapping of
  another address is lost.\<close>

theorem fake_ip_round_trip:
  assumes "pool_inv pool" and "\<not> starts_with (to_lowercase d) ''v6:''" and "allocate d pool = (ip, pool')"
  shows "fake_lookup ip pool' = Some (to_lowercase d) \<and> allocate d pool' = (ip, pool') \<and>
    (\<forall>ip' n. ip' \<noteq> ip \<and> fake_lookup ip' pool = Some n \<longrightarrow> fake_lookup ip' pool' = Some n)"
proof -
  have inv: "pool_inv pool'"
    using allocate_inv [OF assms(1), of d] assms(3) by simp
  have d: "hm_get (domain_to_ip pool') (to_lowercase d) = Some ip"
    using allocate_cases [OF assms(3)] by auto
  with inv have "hm_get (ip_to_domain pool') ip = Some (to_lowercase d)"
    by (simp add: pool_inv_def)
  then have "fake_lookup ip pool' = Some (to_lowercase d)"
    using assms(2) by (simp add: fake_lookup_def strip_prefix_def)
  moreover have "allocate d pool' = (ip, pool')"
    using d by (simp add: allocate_def allocate_begin_def)
  moreover have "\<forall>ip' n. ip' \<noteq> ip \<and> fake_lookup ip' pool = Some n \<longrightarrow> fake_lookup ip' pool' = Some n"
    using allocate_cases [OF assms(3)] by (auto simp: fake_lookup_def)
  ultimately show ?thesis by blast
qed

theorem fake_ip_round_trip_witness:
  "fake_lookup (V4 0xC6120001) (snd (allocate ''A.io'' (fake_ip_pool_new ''default'' None []))) = Some ''a.io''"
proof -
  let ?pool = "fake_ip_pool_new ''default'' None []"
  have "fst (allocate ''A.io'' ?pool) = V4 0xC6120001" "\<not> starts_with (to_lowercase ''A.io'') ''v6:''"
    "to_lowercase ''A.io'' = ''a.io''"
    by code_simp+
  with fake_ip_round_trip [OF pool_new_inv, of "''A.io''" "''default''" None "[]"] show ?thesis
    by (simp add: prod_eq_iff)
qed

text \<open>Every address the pool hands out is recognised as a fake address: for a pool whose range does not
  reach the end of the address space, after any interleaving of allocation steps, the address mapped to
  any name satisfies \<^verbatim>\<open>is_fake_ip\<close>.\<close>

theorem fake_ip_recognised:
  fixes cidr v6 exclude
  defines "pool0 \<equiv> fake_ip_pool_new cidr v6 exclude"
  assumes "unat (ipv4_base pool0) + unat (ipv4_size pool0) < 2 ^ 32"
    and "hm_get (domain_to_ip (fold pool_do steps pool0)) k = Some ip"
  shows "is_fake_ip ip (fold pool_do steps pool0)"
proof -
  have "ipv4_size pool0 \<noteq> 0"
    using parse_ipv4_cidr_size [of cidr] by (auto simp: pool0_def fake_ip_pool_new_def split: prod.splits)
  moreover have "range_inv pool0"
    by (simp add: range_inv_def pool0_def fake_ip_pool_new_def split: prod.splits)
  then have "range_inv (fold pool_do steps pool0)"
    by (rule pool_range.run_inv)
  ultimately show ?thesis
    using assms(2,3) run_same_range [of steps pool0]
    by (intro addr_in_pool_is_fake) (auto simp: range_inv_def same_range_def)
qed

theorem fake_ip_recognised_witness:
  "is_fake_ip (V4 0xC6120001) (fold pool_do [BeginV4 ''a.io'', CommitV4 ''a.io'' 1] (fake_ip_pool_new ''x'' None []))"
proof -
  let ?pool = "fake_ip_pool_new ''x'' None []"
  have "hm_get (domain_to_ip (fold pool_do [BeginV4 ''a.io'', CommitV4 ''a.io'' 1] ?pool)) ''a.io'' = Some (V4 0xC6120001)"
    by code_simp
  moreover have "ipv4_base ?pool = 0xC6120000" "ipv4_size ?pool = 0x20000"
    by code_simp+
  ultimately show ?thesis
    using fake_ip_recognised [of "''x''" None "[]" "[BeginV4 ''a.io'', CommitV4 ''a.io'' 1]" "''a.io''" "V4 0xC6120001"]
    by simp
qed

text \<open>The first address of the range is handed out after a wrap-around: the offset starts at 1 to skip
  it, but the offset is reduced modulo the size, so when it has reached the size a new name gets the base
  address of the range.\<close>

theorem fake_ip_wraps_to_base:
  assumes "ipv4_offset pool = ipv4_size pool" and "hm_get (domain_to_ip pool) (to_lowercase d) = None"
  shows "fst (allocate d pool) = V4 (ipv4_base pool)"
  using assms by (simp add: allocate_def allocate_begin_def allocate_commit_def bind_pair_def v4_address_def Let_def)

theorem fake_ip_wraps_to_base_witness:
  "fst (allocate ''a.io'' (fake_ip_pool_new ''10.0.0.0/32'' None [])) = V4 0x0A000000"
proof -
  have p: "parse_ipv4_cidr ''10.0.0.0/32'' = (0x0A000000, 1)"
    by (simp add: parse_ipv4_cidr_def parse_ipv4_def parse_dec_octet_def is_digit_def digits_value_def
        parse_uint_def from_be_def Let_def)
  then have "ipv4_offset (fake_ip_pool_new ''10.0.0.0/32'' None []) = ipv4_size (fake_ip_pool_new ''10.0.0.0/32'' None [])"
    "hm_get (domain_to_ip (fake_ip_pool_new ''10.0.0.0/32'' None [])) (to_lowercase ''a.io'') = None"
    by (simp_all add: fake_ip_pool_new_def)
  from fake_ip_wraps_to_base [OF this] p show ?thesis
    by (simp add: fake_ip_pool_new_def)
qed

end
