(* ===== verification/DnsCache.thy ===== *)
theory DnsCache
  imports Addr
begin

text \<open>
  The caching resolver, \<^verbatim>\<open>src/src/dns/cache.rs\<close>: positive and negative entries with expiry, an order list
  for eviction, prefetch candidates, and the deduplication of concurrent queries for one host.  Time is an
  argument in nanoseconds; the upstream resolver's answer is an argument of the step that receives it.
  The first part models the sections that a query executes and their sequential composition; the second
  part models the deduplication protocol of many tasks as a step relation.  The prefetch threshold
  \<^verbatim>\<open>(secs as f64 * 0.3) as u64\<close> is \<^verbatim>\<open>3 * secs div 10\<close>, which agrees with the floating-point product
  below \<^verbatim>\<open>2^50\<close> seconds.
\<close>

section \<open>Definitions\<close>

type_synonym dns_result = "(string, ip_addr list) result"

definition nanos :: nat where
  "nanos = 1000000000"

definition MIN_PREFETCH_TTL_SECS :: nat where
  "MIN_PREFETCH_TTL_SECS = 30"

datatype cache_value = Positive "ip_addr list" | Negative string

record cache_entry =
  ce_value :: cache_value
  ce_expires_at :: nat
  ce_original_ttl :: nat
  ce_access_count :: u64

record cached_resolver =
  cr_cache :: "(string, cache_entry) hashmap"
  cr_order :: "string list"
  cr_inflight :: "(string, nat) hashmap"
  cr_next_notify :: nat
  cr_ttl :: nat
  cr_negative_ttl :: nat
  cr_max_entries :: nat
  cr_cache_hit :: u64
  cr_cache_miss :: u64
  cr_negative_hit :: u64

record dns_cache_stats =
  st_cache_hit :: u64
  st_cache_miss :: u64
  st_negative_hit :: u64

definition cached_resolver_new :: "nat \<Rightarrow> nat \<Rightarrow> nat \<Rightarrow> cached_resolver" where
  "cached_resolver_new ttl_secs negative_ttl_secs max_entries =
     \<lparr>cr_cache = [], cr_order = [], cr_inflight = [], cr_next_notify = 0,
      cr_ttl = ttl_secs * nanos, cr_negative_ttl = negative_ttl_secs * nanos, cr_max_entries = max_entries,
      cr_cache_hit = 0, cr_cache_miss = 0, cr_negative_hit = 0\<rparr>"

text \<open>\<^verbatim>\<open>position\<close> and \<^verbatim>\<open>remove\<close> take out the first occurrence.\<close>

definition touch_order :: "string \<Rightarrow> cached_resolver \<Rightarrow> cached_resolver" where
  "touch_order name c = c\<lparr>cr_order := remove1 name (cr_order c) @ [name]\<rparr>"

definition evict_expired :: "nat \<Rightarrow> cached_resolver \<Rightarrow> cached_resolver" where
  "evict_expired now c = c\<lparr>cr_cache := hm_retain (\<lambda>_ e. ce_expires_at e > now) (cr_cache c)\<rparr>"

fun evict_loop :: "nat \<Rightarrow> string list \<Rightarrow> (string, cache_entry) hashmap \<Rightarrow> string list \<times> (string, cache_entry) hashmap" where
  "evict_loop max_entries [] cache = ([], cache)"
| "evict_loop max_entries (oldest # order) cache =
     (if max_entries < length cache then evict_loop max_entries order (hm_remove oldest cache)
      else (oldest # order, cache))"

definition evict_lru :: "cached_resolver \<Rightarrow> cached_resolver" where
  "evict_lru c =
     (case evict_loop (cr_max_entries c) (filter (\<lambda>k. hm_get (cr_cache c) k \<noteq> None) (cr_order c)) (cr_cache c) of
        (order, cache) \<Rightarrow> c\<lparr>cr_order := order, cr_cache := cache\<rparr>)"

definition evict_if_needed :: "nat \<Rightarrow> cached_resolver \<Rightarrow> cached_resolver" where
  "evict_if_needed now c = evict_lru (evict_expired now c)"

definition negative_message :: "string \<Rightarrow> string \<Rightarrow> string" where
  "negative_message name msg = ''DNS cached negative response for '' @ name @ '': '' @ msg"

definition read_cache :: "nat \<Rightarrow> string \<Rightarrow> cached_resolver \<Rightarrow> dns_result option \<times> cached_resolver" where
  "read_cache now name c =
     (case hm_get (cr_cache c) name of
        None \<Rightarrow> (None, c)
      | Some entry \<Rightarrow>
        if ce_expires_at entry \<le> now then (None, c)
        else
          let c1 = c\<lparr>cr_cache := hm_insert name (entry\<lparr>ce_access_count := ce_access_count entry + 1\<rparr>) (cr_cache c)\<rparr> in
          (case ce_value entry of
             Positive addrs \<Rightarrow>
               (Some (Inr addrs), touch_order name (c1\<lparr>cr_cache_hit := cr_cache_hit c1 + 1\<rparr>))
           | Negative msg \<Rightarrow>
               (Some (Inl (negative_message name msg)), touch_order name (c1\<lparr>cr_negative_hit := cr_negative_hit c1 + 1\<rparr>))))"

definition prefetch_due :: "nat \<Rightarrow> cache_entry \<Rightarrow> bool" where
  "prefetch_due now entry =
     (let remaining = ce_expires_at entry - now;
          threshold = (3 * (ce_original_ttl entry div nanos) div 10) * nanos
      in remaining < threshold \<and> MIN_PREFETCH_TTL_SECS \<le> remaining div nanos \<and> 2 \<le> ce_access_count entry)"

definition should_prefetch :: "nat \<Rightarrow> string \<Rightarrow> cached_resolver \<Rightarrow> bool" where
  "should_prefetch now name c =
     (case hm_get (cr_cache c) name of Some entry \<Rightarrow> prefetch_due now entry | None \<Rightarrow> False)"

fun is_positive :: "cache_value \<Rightarrow> bool" where
  "is_positive (Positive _) = True"
| "is_positive (Negative _) = False"

definition get_prefetch_candidates :: "nat \<Rightarrow> cached_resolver \<Rightarrow> string list" where
  "get_prefetch_candidates now c =
     map fst (filter (\<lambda>(name, entry). is_positive (ce_value entry) \<and> prefetch_due now entry) (cr_cache c))"

definition cache_stats :: "cached_resolver \<Rightarrow> dns_cache_stats" where
  "cache_stats c = \<lparr>st_cache_hit = cr_cache_hit c, st_cache_miss = cr_cache_miss c, st_negative_hit = cr_negative_hit c\<rparr>"

definition clear_cache :: "cached_resolver \<Rightarrow> cached_resolver" where
  "clear_cache c = c\<lparr>cr_cache := [], cr_order := [], cr_inflight := []\<rparr>"

text \<open>Joining the query in flight for a host: the notification to wait for, and whether this task leads.\<close>

definition join_inflight :: "string \<Rightarrow> cached_resolver \<Rightarrow> (nat \<times> bool) \<times> cached_resolver" where
  "join_inflight name c =
     (case hm_get (cr_inflight c) name of
        Some n \<Rightarrow> ((n, False), c)
      | None \<Rightarrow>
        let n = cr_next_notify c
        in ((n, True), c\<lparr>cr_inflight := hm_insert name n (cr_inflight c), cr_next_notify := Suc n\<rparr>))"

definition store_result :: "nat \<Rightarrow> string \<Rightarrow> dns_result \<Rightarrow> cached_resolver \<Rightarrow> cached_resolver" where
  "store_result now name result c =
     (case result of
        Inr addrs \<Rightarrow>
          c\<lparr>cr_cache := hm_insert name \<lparr>ce_value = Positive addrs, ce_expires_at = now + cr_ttl c,
              ce_original_ttl = cr_ttl c, ce_access_count = 1\<rparr> (cr_cache c)\<rparr>
      | Inl err \<Rightarrow>
          if 0 < cr_negative_ttl c then
            c\<lparr>cr_cache := hm_insert name \<lparr>ce_value = Negative err, ce_expires_at = now + cr_negative_ttl c,
                ce_original_ttl = cr_negative_ttl c, ce_access_count = 1\<rparr> (cr_cache c)\<rparr>
          else c)"

text \<open>What the leader does with the upstream answer.\<close>

definition leader_finish :: "nat \<Rightarrow> string \<Rightarrow> dns_result \<Rightarrow> cached_resolver \<Rightarrow> cached_resolver" where
  "leader_finish now name result c =
     (let c1 = evict_if_needed now (touch_order name (store_result now name result c))
      in c1\<lparr>cr_inflight := hm_remove name (cr_inflight c1)\<rparr>)"

text \<open>What a follower does after waiting: \<^term>\<open>timed_out\<close> tells how the wait ended, \<^term>\<open>upstream\<close> is the
  answer it gets when it has to ask itself.\<close>

definition follower_finish ::
  "nat \<Rightarrow> string \<Rightarrow> nat \<Rightarrow> bool \<Rightarrow> dns_result \<Rightarrow> cached_resolver \<Rightarrow> dns_result \<times> cached_resolver" where
  "follower_finish now name n timed_out upstream c =
     (case read_cache now name c of
        (Some result, c') \<Rightarrow> (result, c')
      | (None, c') \<Rightarrow>
        (upstream,
         if timed_out \<and> hm_get (cr_inflight c') name = Some n
         then c'\<lparr>cr_inflight := hm_remove name (cr_inflight c')\<rparr> else c'))"

text \<open>A query that is not interleaved with others; \<^term>\<open>t\<close> is the time of its start, \<^term>\<open>t'\<close> of the
  upstream answer.\<close>

definition resolve_cached ::
  "nat \<Rightarrow> nat \<Rightarrow> string \<Rightarrow> dns_result \<Rightarrow> bool \<Rightarrow> cached_resolver \<Rightarrow> dns_result \<times> cached_resolver" where
  "resolve_cached t t' name upstream timed_out c =
     (case read_cache t name c of
        (Some result, c') \<Rightarrow> (result, c')
      | (None, c') \<Rightarrow>
        (case join_inflight name (c'\<lparr>cr_cache_miss := cr_cache_miss c' + 1\<rparr>) of
           ((n, is_leader), c2) \<Rightarrow>
             if is_leader then (upstream, leader_finish t' name upstream c2)
             else follower_finish t' name n timed_out upstream c2))"

definition cache_inv :: "cached_resolver \<Rightarrow> bool" where
  "cache_inv c =
     (hm_wf (cr_cache c) \<and> distinct (cr_order c) \<and> fst ` set (cr_cache c) \<subseteq> set (cr_order c) \<and>
      length (cr_cache c) \<le> cr_max_entries c \<and> hm_wf (cr_inflight c))"

text \<open>The operations on a resolver, one after the other.\<close>

datatype cache_op = Query nat nat string dns_result bool | FlushCache

fun cache_do :: "cache_op \<Rightarrow> cached_resolver \<Rightarrow> cached_resolver" where
  "cache_do (Query t t' name upstream timed_out) c = snd (resolve_cached t t' name upstream timed_out c)"
| "cache_do FlushCache c = clear_cache c"

subsection \<open>Deduplication\<close>

datatype phase = Idle | Leader string nat | Follower string nat

record dedup =
  dd_inflight :: "string \<Rightarrow> nat option"
  dd_next :: nat
  dd_phase :: "nat \<Rightarrow> phase"

text \<open>The steps of the tasks that resolve names.  A leader may be cancelled at an await point, and then its
  entry stays; a follower whose wait times out removes the entry it waited for.\<close>

inductive dedup_step :: "dedup \<Rightarrow> dedup \<Rightarrow> bool" where
  lead: "dd_phase s t = Idle \<Longrightarrow> dd_inflight s h = None \<Longrightarrow>
     dedup_step s (s\<lparr>dd_inflight := (dd_inflight s)(h \<mapsto> dd_next s), dd_next := Suc (dd_next s),
                    dd_phase := (dd_phase s)(t := Leader h (dd_next s))\<rparr>)"
| follow: "dd_phase s t = Idle \<Longrightarrow> dd_inflight s h = Some n \<Longrightarrow>
     dedup_step s (s\<lparr>dd_phase := (dd_phase s)(t := Follower h n)\<rparr>)"
| finish: "dd_phase s t = Leader h n \<Longrightarrow>
     dedup_step s (s\<lparr>dd_inflight := (dd_inflight s)(h := None), dd_phase := (dd_phase s)(t := Idle)\<rparr>)"
| wake: "dd_phase s t = Follower h n \<Longrightarrow>
     dedup_step s (s\<lparr>dd_phase := (dd_phase s)(t := Idle)\<rparr>)"

inductive timeout_step :: "dedup \<Rightarrow> dedup \<Rightarrow> bool" where
  cancel: "dd_phase s t = Leader h n \<Longrightarrow> timeout_step s (s\<lparr>dd_phase := (dd_phase s)(t := Idle)\<rparr>)"
| timeout: "dd_phase s t = Follower h n \<Longrightarrow>
     timeout_step s (s\<lparr>dd_inflight := (if dd_inflight s h = Some n then (dd_inflight s)(h := None) else dd_inflight s),
                      dd_phase := (dd_phase s)(t := Idle)\<rparr>)"

definition dedup_start :: dedup where
  "dedup_start = \<lparr>dd_inflight = \<lambda>_. None, dd_next = 0, dd_phase = \<lambda>_. Idle\<rparr>"

inductive_cases dedup_stepE: "dedup_step s s'"

definition dedup_inv :: "dedup \<Rightarrow> bool" where
  "dedup_inv s =
     ((\<forall>t h n. dd_phase s t = Leader h n \<longrightarrow> dd_inflight s h = Some n) \<and>
      (\<forall>t t' h n n'. dd_phase s t = Leader h n \<and> dd_phase s t' = Leader h n' \<longrightarrow> t = t') \<and>
      (\<forall>h n. dd_inflight s h = Some n \<longrightarrow> (\<exists>t. dd_phase s t = Leader h n)))"

section \<open>Lemmas\<close>

subsection \<open>Eviction\<close>

lemma evict_loop_facts:
  assumes "evict_loop m order cache = (order', cache')" and "hm_wf cache" and "distinct order"
    and "set order = fst ` set cache"
  shows "hm_wf cache' \<and> distinct order' \<and> set order' = fst ` set cache' \<and> length cache' \<le> m"
  using assms
proof (induction m order cache arbitrary: order' cache' rule: evict_loop.induct)
  case (2 m oldest order cache)
  have "set order = fst ` set (hm_remove oldest cache)"
    using "2.prems"(3,4) by (auto simp: hm_remove_def image_iff)
  with 2 show ?case by (cases "m < length cache") simp_all
qed auto

text \<open>The last key of the order is the last to go.\<close>

lemma evict_loop_last:
  assumes "evict_loop m (order @ [k]) cache = (order', cache')" and "hm_wf cache" and "distinct (order @ [k])"
    and "set (order @ [k]) = fst ` set cache" and "0 < m"
  shows "hm_get cache' k = hm_get cache k"
  using assms
proof (induction order arbitrary: cache)
  case Nil
  then have "length cache = 1"
    using distinct_card [of "map fst cache"] by (simp add: hm_wf_def) (metis card_1_singleton_iff length_map list.set_map One_nat_def)
  with Nil show ?case by simp
next
  case (Cons a order)
  show ?case
  proof (cases "m < length cache")
    case True
    moreover have "set (order @ [k]) = fst ` set (hm_remove a cache)"
      using Cons.prems(3,4) by (auto simp: hm_remove_def image_iff)
    ultimately show ?thesis
      using Cons.IH [of "hm_remove a cache"] Cons.prems by auto
  next
    case False
    with Cons.prems(1) show ?thesis by simp
  qed
qed

lemma evict_expired_facts:
  assumes "hm_wf (cr_cache c)"
  shows "hm_wf (cr_cache (evict_expired now c))"
    and "fst ` set (cr_cache (evict_expired now c)) \<subseteq> fst ` set (cr_cache c)"
    and "hm_get (cr_cache (evict_expired now c)) k =
      (case hm_get (cr_cache c) k of Some e \<Rightarrow> if ce_expires_at e > now then Some e else None | None \<Rightarrow> None)"
  using assms by (auto simp: evict_expired_def hm_retain_def hm_get_filter)

text \<open>Between the insertion and the eviction the cache may be one entry over its limit.\<close>

definition cache_pre :: "cached_resolver \<Rightarrow> bool" where
  "cache_pre c = (hm_wf (cr_cache c) \<and> distinct (cr_order c) \<and> fst ` set (cr_cache c) \<subseteq> set (cr_order c) \<and> hm_wf (cr_inflight c))"

lemma evict_lru_inv:
  assumes "cache_pre c"
  shows "cache_inv (evict_lru c)"
proof -
  let ?o = "filter (\<lambda>k. hm_get (cr_cache c) k \<noteq> None) (cr_order c)"
  obtain order cache where e: "evict_loop (cr_max_entries c) ?o (cr_cache c) = (order, cache)"
    by (cases "evict_loop (cr_max_entries c) ?o (cr_cache c)")
  have "set ?o = fst ` set (cr_cache c)"
    using assms by (auto simp: cache_pre_def hm_get_eq_None)
  with evict_loop_facts [OF e] assms e show ?thesis
    by (simp add: evict_lru_def cache_inv_def cache_pre_def)
qed

lemma evict_lru_keeps_last:
  assumes "cache_pre c" and "cr_order c = order @ [k]" and "0 < cr_max_entries c" and "hm_get (cr_cache c) k = Some e"
  shows "hm_get (cr_cache (evict_lru c)) k = Some e"
proof -
  let ?o = "filter (\<lambda>k. hm_get (cr_cache c) k \<noteq> None)"
  have o: "?o (cr_order c) = ?o order @ [k]"
    using assms(2,4) by simp
  moreover have "set (?o order @ [k]) = fst ` set (cr_cache c)"
    using assms(1) unfolding o [symmetric] by (auto simp: cache_pre_def hm_get_eq_None)
  moreover have "distinct (?o order @ [k])"
    using assms(1) unfolding o [symmetric] by (simp add: cache_pre_def)
  moreover have "hm_wf (cr_cache c)"
    using assms(1) by (simp add: cache_pre_def)
  ultimately show ?thesis
    using evict_loop_last [of "cr_max_entries c" "?o order" k "cr_cache c"] assms(3,4)
    by (simp add: evict_lru_def split: prod.splits)
qed

lemma evict_expired_pre: "cache_pre c \<Longrightarrow> cache_pre (evict_expired now c)"
  using evict_expired_facts [of c now] by (auto simp: cache_pre_def evict_expired_def)

lemma keys_hm_insert: "fst ` set (hm_insert k v m) = insert k (fst ` set m)"
  unfolding hm_insert_def by (simp add: dom_update)

lemma touch_store_pre:
  assumes "cache_pre c"
  shows "cache_pre (touch_order name (store_result now name result c))"
  using assms
  by (auto simp: cache_pre_def touch_order_def store_result_def keys_hm_insert split: sum.splits)

lemma touch_insert_inv:
  assumes "cache_inv c" and "hm_get (cr_cache c) name = Some e0"
  shows "cache_inv (touch_order name (c\<lparr>cr_cache := hm_insert name e (cr_cache c)\<rparr>))"
  using assms
  by (auto simp: cache_inv_def touch_order_def keys_hm_insert hm_length_insert)

lemma cache_inv_hits:
  "cache_inv (touch_order k (c\<lparr>cr_cache_hit := x\<rparr>)) = cache_inv (touch_order k c)"
  "cache_inv (touch_order k (c\<lparr>cr_negative_hit := x\<rparr>)) = cache_inv (touch_order k c)"
  "cache_inv (c\<lparr>cr_cache_miss := x\<rparr>) = cache_inv c"
  by (simp_all add: cache_inv_def touch_order_def)

lemma read_cache_inv: "cache_inv c \<Longrightarrow> cache_inv (snd (read_cache now name c))"
  by (auto simp: read_cache_def Let_def cache_inv_hits touch_insert_inv split: option.splits cache_value.splits)

lemma cache_inv_inflight:
  "cache_inv c \<Longrightarrow> hm_wf f \<Longrightarrow> cache_inv (c\<lparr>cr_inflight := f\<rparr>)"
  "cache_inv (c\<lparr>cr_inflight := f, cr_next_notify := n\<rparr>) = cache_inv (c\<lparr>cr_inflight := f\<rparr>)"
  by (simp_all add: cache_inv_def)

lemma leader_finish_inv:
  assumes "cache_pre c"
  shows "cache_inv (leader_finish now name result c)"
proof -
  have "cache_inv (evict_if_needed now (touch_order name (store_result now name result c)))"
    unfolding evict_if_needed_def by (intro evict_lru_inv evict_expired_pre touch_store_pre assms)
  then show ?thesis
    by (auto simp: leader_finish_def Let_def cache_inv_def)
qed

lemma cache_inv_pre: "cache_inv c \<Longrightarrow> cache_pre c"
  by (simp add: cache_inv_def cache_pre_def)

lemma follower_finish_inv:
  assumes "cache_inv c"
  shows "cache_inv (snd (follower_finish now name n timed_out upstream c))"
proof (cases "read_cache now name c")
  case (Pair r c1)
  have c1: "cache_inv c1"
    using read_cache_inv [OF assms, of now name] Pair by simp
  moreover from c1 have "hm_wf (hm_remove name (cr_inflight c1))"
    by (simp add: cache_inv_def)
  ultimately show ?thesis
    using Pair by (simp add: follower_finish_def cache_inv_inflight split: option.splits)
qed

lemma join_inflight_inv:
  assumes "cache_inv c"
  shows "cache_inv (snd (join_inflight name c))"
proof -
  have "hm_wf (hm_insert name n (cr_inflight c))" for n
    using assms by (auto simp: cache_inv_def)
  with assms show ?thesis
    by (simp add: join_inflight_def Let_def cache_inv_inflight split: option.splits)
qed

lemma resolve_cached_inv:
  assumes "cache_inv c"
  shows "cache_inv (snd (resolve_cached t t' name upstream timed_out c))"
proof (cases "read_cache t name c")
  case (Pair r c1)
  let ?c2 = "snd (join_inflight name (c1\<lparr>cr_cache_miss := cr_cache_miss c1 + 1\<rparr>))"
  have c1: "cache_inv c1"
    using read_cache_inv [OF assms, of t name] Pair by simp
  then have "cache_inv ?c2"
    by (intro join_inflight_inv) (simp add: cache_inv_hits)
  with Pair c1 show ?thesis
    by (auto simp: resolve_cached_def leader_finish_inv follower_finish_inv cache_inv_pre
        split: option.splits prod.splits)
qed

subsection \<open>Hits\<close>

lemma read_cache_fresh:
  assumes "hm_get (cr_cache c) name = Some e" and "now < ce_expires_at e"
  shows "fst (read_cache now name c) =
    Some (case ce_value e of Positive addrs \<Rightarrow> Inr addrs | Negative msg \<Rightarrow> Inl (negative_message name msg))"
  using assms by (simp add: read_cache_def Let_def split: cache_value.splits)

lemma resolve_cached_hit:
  "fst (read_cache t name c) = Some r \<Longrightarrow> resolve_cached t t' name upstream timed_out c = (r, snd (read_cache t name c))"
  by (cases "read_cache t name c") (simp add: resolve_cached_def)

text \<open>What the leader stored is in the cache when it is done.\<close>

lemma leader_finish_stored:
  assumes "cache_pre c" and "0 < cr_max_entries c"
    and "hm_get (cr_cache (store_result now name result c)) name = Some e" and "now < ce_expires_at e"
  shows "hm_get (cr_cache (leader_finish now name result c)) name = Some e"
proof -
  let ?c1 = "touch_order name (store_result now name result c)"
  have pre: "cache_pre (evict_expired now ?c1)"
    by (intro evict_expired_pre touch_store_pre assms(1))
  have "hm_wf (cr_cache ?c1)"
    using touch_store_pre [OF assms(1)] by (simp add: cache_pre_def)
  then have "hm_get (cr_cache (evict_expired now ?c1)) name = Some e"
    using assms(3,4) by (simp add: evict_expired_facts(3)) (simp add: touch_order_def)
  moreover have "cr_order (evict_expired now ?c1) = remove1 name (cr_order (store_result now name result c)) @ [name]"
    "cr_max_entries (evict_expired now ?c1) = cr_max_entries c"
    by (simp_all add: evict_expired_def touch_order_def store_result_def split: sum.splits)
  ultimately have "hm_get (cr_cache (evict_lru (evict_expired now ?c1))) name = Some e"
    using evict_lru_keeps_last [OF pre] assms(2) by simp
  then show ?thesis
    by (simp add: leader_finish_def Let_def evict_if_needed_def)
qed

lemma cache_do_inv: "cache_inv c \<Longrightarrow> cache_inv (cache_do x c)"
  by (cases x) (simp_all add: resolve_cached_inv, simp add: cache_inv_def clear_cache_def)

interpretation dns_cache: preserved cache_do cache_inv
  by unfold_locales (rule cache_do_inv)

lemma resolve_leader:
  assumes "fst (read_cache t name c) = None" and "hm_get (cr_inflight c) name = None"
  shows "\<exists>c'. resolve_cached t t' name upstream timed_out c = (upstream, leader_finish t' name upstream c') \<and>
     (cache_inv c \<longrightarrow> cache_pre c') \<and> cr_max_entries c' = cr_max_entries c \<and> cr_ttl c' = cr_ttl c \<and>
     cr_negative_ttl c' = cr_negative_ttl c"
proof -
  have "read_cache t name c = (None, c)"
    using assms(1) by (auto simp: read_cache_def Let_def split: option.splits if_splits cache_value.splits)
  moreover let ?c' = "snd (join_inflight name (c\<lparr>cr_cache_miss := cr_cache_miss c + 1\<rparr>))"
  have "cache_inv c \<Longrightarrow> cache_pre ?c'"
    by (intro cache_inv_pre join_inflight_inv) (simp add: cache_inv_hits)
  ultimately show ?thesis
    using assms(2)
    by (intro exI [of _ ?c']) (simp add: resolve_cached_def join_inflight_def Let_def)
qed

subsection \<open>Deduplication\<close>

lemma dedup_start_inv: "dedup_inv dedup_start"
  by (simp add: dedup_inv_def dedup_start_def)

lemma dedup_step_inv: "dedup_step s s' \<Longrightarrow> dedup_inv s \<Longrightarrow> dedup_inv s'"
proof (induction rule: dedup_step.induct)
  case (lead s t h)
  then show ?case
    unfolding dedup_inv_def by (auto split: if_splits) (metis phase.distinct(1))+
next
  case (follow s t h n)
  then show ?case
    unfolding dedup_inv_def by (auto split: if_splits) (metis phase.distinct(1))+
next
  case (finish s t h n)
  then show ?case
    unfolding dedup_inv_def by (auto split: if_splits) (metis phase.inject(1))+
next
  case (wake s t h n)
  then show ?case
    unfolding dedup_inv_def by (auto split: if_splits) (metis phase.distinct(5))+
qed

lemma dedup_reachable_inv: "dedup_step\<^sup>*\<^sup>* dedup_start s \<Longrightarrow> dedup_inv s"
  by (induction rule: rtranclp_induct) (auto intro: dedup_start_inv dedup_step_inv)

section \<open>Properties\<close>

text \<open>C12. The cache stays consistent and bounded: after any sequence of queries and flushes its keys are
  distinct and all listed, once, in the eviction order, and there are at most \<^verbatim>\<open>max_entries\<close> of them.\<close>

theorem dns_cache_bounded:
  "cache_inv (fold cache_do ops (cached_resolver_new ttl negative_ttl max_entries))"
  by (rule dns_cache.run_inv) (simp add: cache_inv_def cached_resolver_new_def)

text \<open>An answer is remembered: when a query goes upstream and no other is in flight, then until the
  lifetime of its kind has passed (the positive one for addresses, the negative one for errors), a query
  for the same name is answered from the cache, with the same addresses or with the same error marked as
  cached, whatever upstream would answer.\<close>

theorem dns_answer_remembered:
  assumes "cache_inv c" and "0 < cr_max_entries c"
    and "fst (read_cache t name c) = None" and "hm_get (cr_inflight c) name = None"
    and "t' \<le> t2" and "t2 < t' + (case answer of Inr _ \<Rightarrow> cr_ttl c | Inl _ \<Rightarrow> cr_negative_ttl c)"
  shows "fst (resolve_cached t2 t3 name other timed_out2 (snd (resolve_cached t t' name answer timed_out c))) =
    (case answer of Inr addrs \<Rightarrow> Inr addrs | Inl e \<Rightarrow> Inl (negative_message name e))"
proof -
  obtain c' where r: "resolve_cached t t' name answer timed_out c = (answer, leader_finish t' name answer c')"
    and pre: "cache_pre c'" and cfg: "cr_max_entries c' = cr_max_entries c" "cr_ttl c' = cr_ttl c"
      "cr_negative_ttl c' = cr_negative_ttl c"
    using resolve_leader [OF assms(3,4)] assms(1) by blast
  obtain e where e: "hm_get (cr_cache (store_result t' name answer c')) name = Some e" "t2 < ce_expires_at e"
    "(case ce_value e of Positive addrs \<Rightarrow> Inr addrs | Negative msg \<Rightarrow> Inl (negative_message name msg)) =
       (case answer of Inr addrs \<Rightarrow> Inr addrs | Inl e \<Rightarrow> Inl (negative_message name e))"
    using assms(5,6) cfg by (auto simp: store_result_def split: sum.splits)
  have "hm_get (cr_cache (leader_finish t' name answer c')) name = Some e"
    using leader_finish_stored [OF pre _ e(1)] cfg assms(2,5) e(2) by simp
  from resolve_cached_hit [OF read_cache_fresh [OF this e(2)]] show ?thesis
    using r e(3) by simp
qed

theorem dns_answer_remembered_witness:
  "fst (resolve_cached 7 8 ''a.io'' (Inl ''down'') False
      (snd (resolve_cached 1 2 ''a.io'' (Inr [V4 1]) False (cached_resolver_new 300 30 10)))) = Inr [V4 1]"
proof -
  let ?c = "cached_resolver_new 300 30 10"
  have "cache_inv ?c" "0 < cr_max_entries ?c" "fst (read_cache 1 ''a.io'' ?c) = None"
    "hm_get (cr_inflight ?c) ''a.io'' = None"
    "7 < (2 :: nat) + (case (Inr [V4 1] :: dns_result) of Inr _ \<Rightarrow> cr_ttl ?c | Inl _ \<Rightarrow> cr_negative_ttl ?c)"
    by (simp_all add: cached_resolver_new_def cache_inv_def read_cache_def nanos_def)
  from dns_answer_remembered [OF this(1-4) _ this(5)] show ?thesis by simp
qed



text \<open>A timed-out wait gives up the merging: a follower that times out removes the entry while its leader
  is still asking, and then a third task becomes a second leader for the same host.\<close>

theorem dns_timeout_second_leader:
  "\<exists>s1 s2 s3. dedup_step\<^sup>*\<^sup>* dedup_start s1 \<and> timeout_step s1 s2 \<and> dedup_step s2 s3 \<and>
     dd_phase s3 1 = Leader h 0 \<and> dd_phase s3 3 = Leader h 1"
proof -
  let ?s1 = "\<lparr>dd_inflight = (\<lambda>_. None)(h \<mapsto> 0), dd_next = 1, dd_phase = (\<lambda>_. Idle)(1 := Leader h 0)\<rparr>"
  let ?s2 = "\<lparr>dd_inflight = (\<lambda>_. None)(h \<mapsto> 0), dd_next = 1, dd_phase = (\<lambda>_. Idle)(1 := Leader h 0, 2 := Follower h 0)\<rparr>"
  let ?s3 = "\<lparr>dd_inflight = \<lambda>_. None, dd_next = 1, dd_phase = (\<lambda>_. Idle)(1 := Leader h 0)\<rparr>"
  let ?s4 = "\<lparr>dd_inflight = (\<lambda>_. None)(h \<mapsto> 1), dd_next = 2, dd_phase = (\<lambda>_. Idle)(1 := Leader h 0, 3 := Leader h 1)\<rparr>"
  have "dedup_step dedup_start ?s1"
    using dedup_step.lead [of dedup_start 1 h] by (simp add: dedup_start_def)
  moreover have "dedup_step ?s1 ?s2"
    using dedup_step.follow [of ?s1 2 h 0] by simp
  moreover have "timeout_step ?s2 ?s3"
    using timeout_step.timeout [of ?s2 2 h 0] by (simp add: fun_upd_twist fun_upd_idem)
  moreover have "dedup_step ?s3 ?s4"
    using dedup_step.lead [of ?s3 3 h] by (simp add: numeral_2_eq_2)
  ultimately show ?thesis
    by (intro exI [of _ ?s2] exI [of _ ?s3] exI [of _ ?s4])
       (auto intro: converse_rtranclp_into_rtranclp [OF _ r_into_rtranclp])
qed

end
