(* ===== verification/Hosts.thy ===== *)
theory Hosts
  imports DnsCache IpText "HOL-Library.Multiset"
begin

text \<open>
  The resolver wrappers of \<^verbatim>\<open>src/src/dns/hosts.rs\<close>: static host entries, the race between several
  upstream resolvers, and the wrappers that put one address family first.  A resolver is a function from
  names to results; wrapped resolvers are arguments.  The race takes the answers in the order in which
  they arrive, which is an argument.  The locale \<^verbatim>\<open>answering_resolver\<close> is the contract that a successful
  answer has an address, which is what address resolution relies on.
\<close>

section \<open>Definitions\<close>

type_synonym resolver = "string \<Rightarrow> dns_result"

subsection \<open>Static entries\<close>

fun add_host_names ::
  "ip_addr \<Rightarrow> string list \<Rightarrow> (string, ip_addr list) hashmap \<Rightarrow> (string, ip_addr list) hashmap" where
  "add_host_names ip [] m = m"
| "add_host_names ip (n # ns) m =
     (if starts_with n ''#'' then m
      else add_host_names ip ns
        (hm_insert (to_lowercase n) ((case hm_get m (to_lowercase n) of Some v \<Rightarrow> v | None \<Rightarrow> []) @ [ip]) m))"

definition parse_hosts_line :: "string \<Rightarrow> (string, ip_addr list) hashmap \<Rightarrow> (string, ip_addr list) hashmap" where
  "parse_hosts_line raw m =
     (let line = trim raw in
      if line = [] \<or> starts_with line ''#'' then m
      else
        (case split_whitespace line of
           ip_str # n # ns \<Rightarrow>
             (case parse_ip ip_str of Some ip \<Rightarrow> add_host_names ip (n # ns) m | None \<Rightarrow> m)
         | _ \<Rightarrow> m))"

definition parse_hosts_file :: "string \<Rightarrow> (string, ip_addr list) hashmap" where
  "parse_hosts_file content = fold parse_hosts_line (str_lines content) []"

definition hosts_resolve :: "resolver \<Rightarrow> (string, ip_addr list) hashmap \<Rightarrow> resolver" where
  "hosts_resolve inner hosts n =
     (case hm_get hosts (to_lowercase n) of Some addrs \<Rightarrow> Inr addrs | None \<Rightarrow> inner n)"

subsection \<open>Race\<close>

definition no_resolvers :: string where
  "no_resolvers = ''no DNS resolvers configured''"

definition all_failed :: "string \<Rightarrow> string" where
  "all_failed n = ''all DNS resolvers failed for '' @ n"

definition empty_response :: "nat \<Rightarrow> string" where
  "empty_response i = ''empty response from resolver '' @ show_nat i"

fun race_collect :: "string option \<Rightarrow> string \<Rightarrow> (nat \<times> dns_result) list \<Rightarrow> dns_result" where
  "race_collect last_err n [] = Inl (case last_err of Some e \<Rightarrow> e | None \<Rightarrow> all_failed n)"
| "race_collect last_err n ((i, r) # rs) =
     (case r of
        Inr addrs \<Rightarrow> if addrs \<noteq> [] then Inr addrs else race_collect (Some (empty_response i)) n rs
      | Inl e \<Rightarrow> race_collect (Some e) n rs)"

text \<open>\<^term>\<open>order\<close> gives the arrival order of the answers as a list of resolver indices.\<close>

definition race_resolve :: "resolver list \<Rightarrow> nat list \<Rightarrow> resolver" where
  "race_resolve rs order n =
     (if rs = [] then Inl no_resolvers
      else if length rs = 1 then (rs ! 0) n
      else race_collect None n (map (\<lambda>i. (i, (rs ! i) n)) order))"

subsection \<open>Address family preference\<close>

fun is_ipv4 :: "ip_addr \<Rightarrow> bool" where
  "is_ipv4 (V4 _) = True"
| "is_ipv4 (V6 _) = False"

definition no_addresses :: "string \<Rightarrow> string" where
  "no_addresses n = ''no addresses resolved for '' @ n"

definition prefer_ipv4_resolve :: "resolver \<Rightarrow> resolver" where
  "prefer_ipv4_resolve inner n =
     (case inner n of
        Inl e \<Rightarrow> Inl e
      | Inr addrs \<Rightarrow>
          (let out = filter is_ipv4 addrs @ filter (\<lambda>a. \<not> is_ipv4 a) addrs
           in if out = [] then Inl (no_addresses n) else Inr out))"

definition prefer_ipv6_resolve :: "resolver \<Rightarrow> resolver" where
  "prefer_ipv6_resolve inner n =
     (case inner n of
        Inl e \<Rightarrow> Inl e
      | Inr addrs \<Rightarrow>
          (let out = filter (\<lambda>a. \<not> is_ipv4 a) addrs @ filter is_ipv4 addrs
           in if out = [] then Inl (no_addresses n) else Inr out))"

section \<open>The contract of a resolver\<close>

locale answering_resolver =
  fixes res :: resolver
  assumes answers: "res n = Inr addrs \<Longrightarrow> addrs \<noteq> []"
begin

lemma resolves_or_fails:
  "resolve_with os (Some res) (Domain d p) =
     (case res d of Inr addrs \<Rightarrow> Inr (sock_new (hd addrs) p) | Inl e \<Rightarrow> Inl (ResolverError e))"
  using answers by (auto simp: resolve_with_def split: sum.splits list.splits)

lemma hosts_answers:
  "(\<And>k v. hm_get hosts k = Some v \<Longrightarrow> v \<noteq> []) \<Longrightarrow> hosts_resolve res hosts n = Inr addrs \<Longrightarrow> addrs \<noteq> []"
  using answers by (auto simp: hosts_resolve_def split: option.splits)

end

interpretation prefer4: answering_resolver "prefer_ipv4_resolve inner" for inner
  by unfold_locales (auto simp: prefer_ipv4_resolve_def Let_def split: sum.splits if_splits)

interpretation prefer6: answering_resolver "prefer_ipv6_resolve inner" for inner
  by unfold_locales (auto simp: prefer_ipv6_resolve_def Let_def split: sum.splits if_splits)

section \<open>Lemmas\<close>

lemma race_collect_spec:
  "race_collect e n rs =
     (case find (\<lambda>(i, r). case r of Inr addrs \<Rightarrow> addrs \<noteq> [] | Inl _ \<Rightarrow> False) rs of
        Some (i, r) \<Rightarrow> r
      | None \<Rightarrow> race_collect e n rs)"
  by (induction e n rs rule: race_collect.induct) (auto split: sum.splits option.splits)

lemma race_collect_fails:
  "\<forall>(i, r) \<in> set rs. (case r of Inr addrs \<Rightarrow> addrs = [] | Inl _ \<Rightarrow> True) \<Longrightarrow> \<not> is_ok (race_collect e n rs)"
  by (induction e n rs rule: race_collect.induct) (auto split: sum.splits)

lemma race_collect_answers: "race_collect e n rs = Inr addrs \<Longrightarrow> addrs \<noteq> []"
  by (induction e n rs rule: race_collect.induct) (auto split: sum.splits if_splits)

lemma add_host_names_nonempty:
  "(\<And>k v. hm_get m k = Some v \<Longrightarrow> v \<noteq> []) \<Longrightarrow> hm_get (add_host_names ip ns m) k = Some v \<Longrightarrow> v \<noteq> []"
proof (induction ip ns m rule: add_host_names.induct)
  case (2 ip n ns m)
  show ?case
  proof (cases "starts_with n ''#''")
    case False
    have "hm_get (hm_insert (to_lowercase n) ((case hm_get m (to_lowercase n) of Some v \<Rightarrow> v | None \<Rightarrow> []) @ [ip]) m) k
        = Some v \<Longrightarrow> v \<noteq> []" for k v
      using "2.prems"(1) by (auto split: if_splits)
    with "2.IH" [OF False] "2.prems"(2) False show ?thesis by simp
  qed (use 2 in auto)
qed auto

lemma parse_hosts_line_nonempty:
  "(\<And>k v. hm_get m k = Some v \<Longrightarrow> v \<noteq> []) \<Longrightarrow> hm_get (parse_hosts_line l m) k = Some v \<Longrightarrow> v \<noteq> []"
  using add_host_names_nonempty
  by (fastforce simp: parse_hosts_line_def Let_def simp del: add_host_names.simps split: if_splits list.splits option.splits)

lemma parse_hosts_file_nonempty: "hm_get (parse_hosts_file content) k = Some v \<Longrightarrow> v \<noteq> []"
proof -
  have "(\<And>k v. hm_get m k = Some v \<Longrightarrow> v \<noteq> []) \<Longrightarrow> hm_get (fold parse_hosts_line ls m) k = Some v \<Longrightarrow> v \<noteq> []" for ls m
  proof (induction ls arbitrary: m)
    case (Cons l ls)
    from Cons.IH [of "parse_hosts_line l m"] Cons.prems parse_hosts_line_nonempty [of m l] show ?case
      by simp
  qed auto
  from this [of "[]" "str_lines content"] show "hm_get (parse_hosts_file content) k = Some v \<Longrightarrow> v \<noteq> []"
    by (simp add: parse_hosts_file_def)
qed

section \<open>Properties\<close>

text \<open>The race of several resolvers succeeds exactly if one of them has an address: with two or more
  resolvers and every answer arriving once, in any order, the result is the answer of the resolver that is
  first in arrival order among those with a non-empty answer, and an error if there is none.\<close>

theorem race_first_success_wins:
  assumes "2 \<le> length rs" and "mset order = mset [0..<length rs]"
  shows "(case find (\<lambda>i. case (rs ! i) n of Inr addrs \<Rightarrow> addrs \<noteq> [] | Inl _ \<Rightarrow> False) order of
      Some i \<Rightarrow> race_resolve rs order n = (rs ! i) n
    | None \<Rightarrow> \<not> is_ok (race_resolve rs order n)) \<and>
    (is_ok (race_resolve rs order n) \<longleftrightarrow> (\<exists>r \<in> set rs. \<exists>addrs. addrs \<noteq> [] \<and> r n = Inr addrs))"
proof -
  let ?ok = "\<lambda>i. case (rs ! i) n of Inr addrs \<Rightarrow> addrs \<noteq> [] | Inl _ \<Rightarrow> False"
  let ?as = "map (\<lambda>i. (i, (rs ! i) n)) order"
  have rr: "race_resolve rs order n = race_collect None n ?as"
    using assms(1) by (auto simp: race_resolve_def)
  have f: "find (\<lambda>(i, r). case r of Inr addrs \<Rightarrow> addrs \<noteq> [] | Inl _ \<Rightarrow> False) ?as = map_option (\<lambda>i. (i, (rs ! i) n)) (find ?ok order)"
    by (induction order) auto
  have some: "find ?ok order = Some i \<Longrightarrow> race_resolve rs order n = (rs ! i) n" for i
    unfolding rr by (subst race_collect_spec) (simp add: f)
  have none: "find ?ok order = None \<Longrightarrow> \<not> is_ok (race_resolve rs order n)"
    unfolding rr by (rule race_collect_fails) (auto simp: find_None_iff split: sum.splits)
  have ok_iff: "?ok i \<longleftrightarrow> (\<exists>addrs. addrs \<noteq> [] \<and> (rs ! i) n = Inr addrs)" for i
    by (cases "(rs ! i) n") auto
  have idx: "set order = {0..<length rs}"
    using assms(2) by (metis set_mset_mset set_upt)
  have "is_ok (race_resolve rs order n) \<longleftrightarrow> (\<exists>i \<in> set order. ?ok i)"
  proof (cases "find ?ok order")
    case None
    with none show ?thesis by (auto simp: find_None_iff)
  next
    case (Some i)
    have "i \<in> set order" "?ok i"
      using find_in_set [OF Some] by simp_all
    moreover from this(2) have "is_ok ((rs ! i) n)"
      by (cases "(rs ! i) n") simp_all
    ultimately show ?thesis
      using some [OF Some] by auto
  qed
  also have "\<dots> \<longleftrightarrow> (\<exists>r \<in> set rs. \<exists>addrs. addrs \<noteq> [] \<and> r n = Inr addrs)"
    unfolding idx ok_iff by (metis atLeastLessThan_iff in_set_conv_nth le0)
  finally show ?thesis
    using some none by (auto split: option.splits)
qed

theorem race_first_success_wins_witness:
  "race_resolve [\<lambda>_. Inl ''down'', \<lambda>_. Inr [], \<lambda>_. Inr [V4 7]] [1, 2, 0] ''a.io'' = Inr [V4 7]"
proof -
  let ?rs = "[\<lambda>_. Inl ''down'', \<lambda>_. Inr [], \<lambda>_. Inr [V4 7]] :: resolver list"
  have "mset [1, 2, 0] = mset [0..<length ?rs]"
    by (simp add: upt_rec)
  with race_first_success_wins [of ?rs "[1, 2, 0]" "''a.io''"] show ?thesis
    by simp
qed

text \<open>The IPv4-preferring resolver reorders and never drops: a successful answer has exactly the
  addresses of the wrapped resolver, each as often, the IPv4 ones first and otherwise in the same order;
  it fails only if the wrapped resolver fails or has no address; and the address that is dialled for a
  domain target through it is an IPv4 one whenever there is one.\<close>

theorem prefer_ipv4_reorders:
  assumes "inner d = Inr addrs" and "addrs \<noteq> []"
  shows "\<exists>out. prefer_ipv4_resolve inner d = Inr out \<and> mset out = mset addrs \<and>
    out = filter is_ipv4 addrs @ filter (\<lambda>a. \<not> is_ipv4 a) addrs \<and>
    resolve_with os (Some (prefer_ipv4_resolve inner)) (Domain d p) = Inr (sock_new (hd out) p) \<and>
    (is_ipv4 (hd out) \<longleftrightarrow> (\<exists>a \<in> set addrs. is_ipv4 a))"
proof -
  let ?out = "filter is_ipv4 addrs @ filter (\<lambda>a. \<not> is_ipv4 a) addrs"
  have m: "mset ?out = mset addrs"
    by simp
  then have ne: "?out \<noteq> []"
    using assms(2) by (metis mset.simps(1) mset_zero_iff)
  have r: "prefer_ipv4_resolve inner d = Inr ?out"
    using assms(1) ne by (simp add: prefer_ipv4_resolve_def Let_def)
  have "is_ipv4 (hd ?out) \<longleftrightarrow> (\<exists>a \<in> set addrs. is_ipv4 a)"
  proof (cases "filter is_ipv4 addrs")
    case Nil
    with ne have "hd ?out \<in> set (filter (\<lambda>a. \<not> is_ipv4 a) addrs)"
      using hd_in_set [of "filter (\<lambda>a. \<not> is_ipv4 a) addrs"] by simp
    then have "\<not> is_ipv4 (hd ?out)"
      by simp
    with Nil show ?thesis by (auto simp: filter_empty_conv)
  next
    case (Cons a as)
    have "a \<in> set (filter is_ipv4 addrs)"
      unfolding Cons by simp
    then have "a \<in> set addrs" "is_ipv4 a"
      by simp_all
    with Cons show ?thesis by auto
  qed
  with r m prefer4.resolves_or_fails [of os inner d p] show ?thesis
    by simp
qed

theorem prefer_ipv4_reorders_witness:
  "resolve_with (\<lambda>_. Inr []) (Some (prefer_ipv4_resolve (\<lambda>_. Inr [V6 1, V4 7]))) (Domain ''a.io'' 443) = Inr (SockV4 7 443)"
proof -
  have "filter is_ipv4 [V6 1, V4 7] @ filter (\<lambda>a. \<not> is_ipv4 a) [V6 1, V4 7] = [V4 7, V6 1]"
    by simp
  with prefer_ipv4_reorders [of "\<lambda>_. Inr [V6 1, V4 7]" "''a.io''" "[V6 1, V4 7]" "\<lambda>_. Inr []" 443] show ?thesis
    by (auto simp: sock_new_def)
qed

end
