(* ===== verification/NatTable.thy ===== *)
theory NatTable
  imports Addr
begin

text \<open>
  The NAT table of the UDP relay, \<^verbatim>\<open>src/src/proxy/nat.rs\<close>: flows keyed by source and destination, the
  reverse lists by outbound, the map that keeps one transport per source and outbound, expiry and cleanup.
  A transport is represented by an identity, times are milliseconds.  The time stamp of an entry is shared
  between the table and the copies handed out, so touching a copy updates the table.
\<close>

section \<open>Definitions\<close>

definition DEFAULT_NAT_TTL_SECS :: int where
  "DEFAULT_NAT_TTL_SECS = 120"

record nat_key =
  nk_source :: socket_addr
  nk_dest :: address

record nat_entry =
  ne_transport :: nat
  ne_outbound_tag :: string
  ne_last_active :: int
  ne_ttl_ms :: int

record nat_table =
  nt_entries :: "(nat_key, nat_entry) hashmap"
  nt_reverse :: "(string, (nat_key \<times> socket_addr) list) hashmap"
  nt_source_map :: "(socket_addr \<times> string, nat) hashmap"
  nt_ttl_secs :: int

definition nat_entry_new :: "int \<Rightarrow> nat \<Rightarrow> string \<Rightarrow> int \<Rightarrow> nat_entry" where
  "nat_entry_new now transport tag ttl_secs =
     \<lparr>ne_transport = transport, ne_outbound_tag = tag, ne_last_active = now, ne_ttl_ms = ttl_secs * 1000\<rparr>"

definition nat_touch :: "int \<Rightarrow> nat_entry \<Rightarrow> nat_entry" where
  "nat_touch now e = e\<lparr>ne_last_active := now\<rparr>"

definition nat_is_expired :: "int \<Rightarrow> nat_entry \<Rightarrow> bool" where
  "nat_is_expired now e = (now - ne_last_active e > ne_ttl_ms e)"

definition nat_with_ttl :: "int \<Rightarrow> nat_table" where
  "nat_with_ttl ttl = \<lparr>nt_entries = [], nt_reverse = [], nt_source_map = [], nt_ttl_secs = ttl\<rparr>"

definition nat_new :: nat_table where
  "nat_new = nat_with_ttl DEFAULT_NAT_TTL_SECS"

definition nat_get :: "int \<Rightarrow> nat_key \<Rightarrow> nat_table \<Rightarrow> nat_entry option" where
  "nat_get now k t =
     (case hm_get (nt_entries t) k of
        Some e \<Rightarrow> if nat_is_expired now e then None else Some e
      | None \<Rightarrow> None)"

definition nat_insert :: "nat_key \<Rightarrow> nat_entry \<Rightarrow> nat_table \<Rightarrow> bool \<times> nat_table" where
  "nat_insert k e t =
     (if hm_get (nt_entries t) k \<noteq> None then (False, t)
      else
        let tag = ne_outbound_tag e; source = nk_source k;
            old = (case hm_get (nt_reverse t) tag of Some l \<Rightarrow> l | None \<Rightarrow> [])
        in (True, t\<lparr>nt_entries := hm_insert k e (nt_entries t),
             nt_reverse := hm_insert tag (old @ [(k, source)]) (nt_reverse t),
             nt_source_map := (case hm_get (nt_source_map t) (source, tag) of
                 Some _ \<Rightarrow> nt_source_map t
               | None \<Rightarrow> hm_insert (source, tag) (ne_transport e) (nt_source_map t))\<rparr>))"

definition get_transport_for_source :: "socket_addr \<Rightarrow> string \<Rightarrow> nat_table \<Rightarrow> nat option" where
  "get_transport_for_source source tag t = hm_get (nt_source_map t) (source, tag)"

definition nat_get_or_insert ::
  "int \<Rightarrow> nat_key \<Rightarrow> nat \<Rightarrow> string \<Rightarrow> nat_table \<Rightarrow> (nat_entry \<times> bool) \<times> nat_table" where
  "nat_get_or_insert now k transport tag t =
     (case nat_get now k t of
        Some e \<Rightarrow>
          ((nat_touch now e, False), t\<lparr>nt_entries := hm_insert k (nat_touch now e) (nt_entries t)\<rparr>)
      | None \<Rightarrow>
          let e = nat_entry_new now transport tag (nt_ttl_secs t) in
          (case nat_insert k e t of (is_new, t') \<Rightarrow> ((e, is_new), t')))"

definition nat_expired_keys :: "int \<Rightarrow> nat_table \<Rightarrow> nat_key list" where
  "nat_expired_keys now t = map fst (filter (\<lambda>(k, e). nat_is_expired now e) (nt_entries t))"

text \<open>The loop over the expired keys removes them from the table and records their sources.\<close>

fun remove_keys ::
  "nat_key list \<Rightarrow> (nat_key, nat_entry) hashmap \<Rightarrow> (socket_addr \<times> string) list \<times> (nat_key, nat_entry) hashmap" where
  "remove_keys [] m = ([], m)"
| "remove_keys (k # ks) m =
     (case hm_get m k of
        Some e \<Rightarrow> (case remove_keys ks (hm_remove k m) of (ss, m') \<Rightarrow> ((nk_source k, ne_outbound_tag e) # ss, m'))
      | None \<Rightarrow> remove_keys ks m)"

definition has_active :: "(nat_key, nat_entry) hashmap \<Rightarrow> socket_addr \<times> string \<Rightarrow> bool" where
  "has_active m st = list_ex (\<lambda>(k, e). nk_source k = fst st \<and> ne_outbound_tag e = snd st) m"

definition nat_cleanup :: "int \<Rightarrow> nat_table \<Rightarrow> nat \<times> nat_table" where
  "nat_cleanup now t =
     (let keys = nat_expired_keys now t in
      case remove_keys keys (nt_entries t) of (sources, m) \<Rightarrow>
        let removed = length (nt_entries t) - length m in
        if removed > 0 then
          (removed, t\<lparr>nt_entries := m,
             nt_reverse := hm_retain (\<lambda>_ v. v \<noteq> [])
               (map (\<lambda>(tag, l). (tag, filter (\<lambda>(k, s). k \<notin> set keys) l)) (nt_reverse t)),
             nt_source_map := fold (\<lambda>st sm. if has_active m st then sm else hm_remove st sm) sources (nt_source_map t)\<rparr>)
        else (removed, t\<lparr>nt_entries := m\<rparr>))"

definition nat_len :: "nat_table \<Rightarrow> nat" where
  "nat_len t = length (nt_entries t)"

definition nat_is_empty :: "nat_table \<Rightarrow> bool" where
  "nat_is_empty t = (nt_entries t = [])"

subsection \<open>Invariant\<close>

text \<open>The two derived maps agree with the table: the reverse list of an outbound holds exactly the flows of
  that outbound, and a source has a transport for an outbound exactly if it has a flow through it.\<close>

definition reverse_agrees :: "nat_table \<Rightarrow> bool" where
  "reverse_agrees t =
     (\<forall>tag k s. (\<exists>l. hm_get (nt_reverse t) tag = Some l \<and> (k, s) \<in> set l) \<longleftrightarrow>
        (\<exists>e. hm_get (nt_entries t) k = Some e \<and> ne_outbound_tag e = tag \<and> s = nk_source k))"

definition source_agrees :: "nat_table \<Rightarrow> bool" where
  "source_agrees t =
     (\<forall>s tag. hm_get (nt_source_map t) (s, tag) \<noteq> None \<longleftrightarrow>
        (\<exists>k e. hm_get (nt_entries t) k = Some e \<and> nk_source k = s \<and> ne_outbound_tag e = tag))"

definition nat_inv :: "nat_table \<Rightarrow> bool" where
  "nat_inv t = (hm_wf (nt_entries t) \<and> hm_wf (nt_reverse t) \<and> hm_wf (nt_source_map t) \<and> reverse_agrees t \<and> source_agrees t)"

datatype nat_op = GetOrInsert int nat_key nat string | Insert nat_key nat_entry | Cleanup int

fun nat_do :: "nat_op \<Rightarrow> nat_table \<Rightarrow> nat_table" where
  "nat_do (GetOrInsert now k tr tag) t = snd (nat_get_or_insert now k tr tag t)"
| "nat_do (Insert k e) t = snd (nat_insert k e t)"
| "nat_do (Cleanup now) t = snd (nat_cleanup now t)"

section \<open>Lemmas\<close>

subsection \<open>Insertion\<close>

lemma nat_insert_inv:
  assumes "nat_inv t"
  shows "nat_inv (snd (nat_insert k e t))"
proof (cases "hm_get (nt_entries t) k")
  case None
  let ?t = "snd (nat_insert k e t)"
  have entries: "hm_get (nt_entries ?t) k' = (if k' = k then Some e else hm_get (nt_entries t) k')" for k'
    using None by (simp add: nat_insert_def Let_def)
  have rev: "hm_get (nt_reverse ?t) tag =
      (if tag = ne_outbound_tag e then Some ((case hm_get (nt_reverse t) tag of Some l \<Rightarrow> l | None \<Rightarrow> []) @ [(k, nk_source k)])
       else hm_get (nt_reverse t) tag)" for tag
    using None by (simp add: nat_insert_def Let_def)
  have src: "hm_get (nt_source_map ?t) st \<noteq> None \<longleftrightarrow>
      st = (nk_source k, ne_outbound_tag e) \<or> hm_get (nt_source_map t) st \<noteq> None" for st
    using None by (auto simp: nat_insert_def Let_def split: option.splits)
  have "reverse_agrees ?t"
    unfolding reverse_agrees_def
  proof (intro allI)
    fix tag k' s
    have old: "(\<exists>l. hm_get (nt_reverse t) tag = Some l \<and> (k', s) \<in> set l) \<longleftrightarrow>
        (\<exists>e. hm_get (nt_entries t) k' = Some e \<and> ne_outbound_tag e = tag \<and> s = nk_source k')"
      using assms by (simp add: nat_inv_def reverse_agrees_def)
    show "(\<exists>l. hm_get (nt_reverse ?t) tag = Some l \<and> (k', s) \<in> set l) \<longleftrightarrow>
        (\<exists>e. hm_get (nt_entries ?t) k' = Some e \<and> ne_outbound_tag e = tag \<and> s = nk_source k')"
      unfolding entries rev using old None by (auto split: option.splits)
  qed
  moreover have "source_agrees ?t"
    using assms None unfolding source_agrees_def entries src
    by (auto simp: nat_inv_def source_agrees_def)
  moreover have "hm_wf (nt_entries ?t)" "hm_wf (nt_reverse ?t)" "hm_wf (nt_source_map ?t)"
    using assms None by (auto simp: nat_inv_def nat_insert_def Let_def split: option.splits)
  ultimately show ?thesis by (simp add: nat_inv_def)
qed (use assms in \<open>simp add: nat_insert_def\<close>)

subsection \<open>Touching\<close>

lemma touch_tag [simp]: "ne_outbound_tag (nat_touch now e) = ne_outbound_tag e" "ne_ttl_ms (nat_touch now e) = ne_ttl_ms e"
  by (simp_all add: nat_touch_def)

lemma nat_replace_inv:
  assumes "nat_inv t" and "hm_get (nt_entries t) k = Some e" and "ne_outbound_tag e' = ne_outbound_tag e"
  shows "nat_inv (t\<lparr>nt_entries := hm_insert k e' (nt_entries t)\<rparr>)"
proof -
  let ?t = "t\<lparr>nt_entries := hm_insert k e' (nt_entries t)\<rparr>"
  have same: "(\<exists>e. hm_get (nt_entries ?t) k' = Some e \<and> ne_outbound_tag e = tag \<and> Q) \<longleftrightarrow>
      (\<exists>e. hm_get (nt_entries t) k' = Some e \<and> ne_outbound_tag e = tag \<and> Q)" for k' tag Q
    using assms(2,3) by auto
  have "reverse_agrees ?t"
    using assms(1) unfolding nat_inv_def reverse_agrees_def same by simp
  moreover have "source_agrees ?t"
    using assms unfolding nat_inv_def source_agrees_def by (auto split: if_splits)
  ultimately show ?thesis
    using assms(1) by (auto simp: nat_inv_def)
qed

lemma nat_get_or_insert_fresh:
  assumes "nat_get now k t = None"
  shows "nat_get_or_insert now k tr tag t =
    ((nat_entry_new now tr tag (nt_ttl_secs t), fst (nat_insert k (nat_entry_new now tr tag (nt_ttl_secs t)) t)),
     snd (nat_insert k (nat_entry_new now tr tag (nt_ttl_secs t)) t))"
  using assms by (simp add: nat_get_or_insert_def case_prod_unfold Let_def)

lemma nat_get_or_insert_inv:
  assumes "nat_inv t"
  shows "nat_inv (snd (nat_get_or_insert now k tr tag t))"
proof (cases "nat_get now k t")
  case None
  with nat_insert_inv [OF assms] show ?thesis
    by (simp add: nat_get_or_insert_fresh)
next
  case (Some e)
  then have "hm_get (nt_entries t) k = Some e"
    by (auto simp: nat_get_def split: option.splits if_splits)
  with Some nat_replace_inv [OF assms this, of "nat_touch now e"] show ?thesis
    by (simp add: nat_get_or_insert_def)
qed

subsection \<open>Cleanup\<close>

lemma remove_keys_facts:
  assumes "remove_keys ks m = (ss, m')" and "hm_wf m" and "distinct ks" and "\<forall>k \<in> set ks. hm_get m k \<noteq> None"
  shows "(\<forall>k. hm_get m' k = (if k \<in> set ks then None else hm_get m k)) \<and> hm_wf m' \<and>
    length m' + length ks = length m \<and>
    set ss = {(nk_source k, ne_outbound_tag e) |k e. k \<in> set ks \<and> hm_get m k = Some e}"
  using assms
proof (induction ks arbitrary: m ss)
  case (Cons k ks)
  then obtain e where e: "hm_get m k = Some e" by auto
  with Cons.prems(1) obtain ss' where r: "remove_keys ks (hm_remove k m) = (ss', m')"
    and ss: "ss = (nk_source k, ne_outbound_tag e) # ss'"
    by (auto split: prod.splits)
  have pos: "0 < length m"
    using hm.size_pos [of m k] e by simp
  have "\<forall>k' \<in> set ks. hm_get (hm_remove k m) k' \<noteq> None"
    using Cons.prems(3,4) by auto
  with Cons.IH [OF r] Cons.prems(2,3) have IH: "\<forall>k'. hm_get m' k' = (if k' \<in> set ks then None else hm_get (hm_remove k m) k')"
    "hm_wf m'" "length m' + length ks = length (hm_remove k m)"
    "set ss' = {(nk_source k', ne_outbound_tag e) |k' e. k' \<in> set ks \<and> hm_get (hm_remove k m) k' = Some e}"
    by auto
  have "length m' + length (k # ks) = length m"
    using IH(3) hm_length_remove [OF Cons.prems(2), of k] e pos by simp
  moreover have "set ss = {(nk_source k', ne_outbound_tag e) |k' e. k' \<in> set (k # ks) \<and> hm_get m k' = Some e}"
    using IH(4) ss e Cons.prems(3) by auto
  ultimately show ?case
    using IH(1,2) by auto
qed auto

lemma has_active_iff:
  "hm_wf m \<Longrightarrow> has_active m (s, tag) \<longleftrightarrow> (\<exists>k e. hm_get m k = Some e \<and> nk_source k = s \<and> ne_outbound_tag e = tag)"
  by (auto simp: has_active_def list_ex_iff hm_get_in_set [symmetric])

lemma drop_sources:
  "hm_get (fold (\<lambda>st sm. if has_active m st then sm else hm_remove st sm) ss sm) st =
     (if st \<in> set ss \<and> \<not> has_active m st then None else hm_get sm st)"
  by (induction ss arbitrary: sm) auto

lemma drop_sources_wf:
  "hm_wf sm \<Longrightarrow> hm_wf (fold (\<lambda>st sm. if has_active m st then sm else hm_remove st sm) ss sm)"
  by (induction ss arbitrary: sm) auto

lemma expired_keys_facts:
  assumes "hm_wf (nt_entries t)"
  shows "distinct (nat_expired_keys now t)"
    and "k \<in> set (nat_expired_keys now t) \<longleftrightarrow> (\<exists>e. hm_get (nt_entries t) k = Some e \<and> nat_is_expired now e)"
  using assms hm_wf_filter [OF assms, of "\<lambda>(k, e). nat_is_expired now e"]
  by (auto simp: nat_expired_keys_def hm_wf_def hm_get_in_set [OF assms, symmetric] image_iff)

text \<open>Cleanup in one equation per map.\<close>

lemma nat_cleanup_maps:
  assumes "nat_inv t" and "nat_cleanup now t = (removed, t')"
  shows "hm_get (nt_entries t') k =
      (case hm_get (nt_entries t) k of Some e \<Rightarrow> if nat_is_expired now e then None else Some e | None \<Rightarrow> None)"
    and "hm_wf (nt_entries t')"
    and "hm_get (nt_reverse t') tag =
      (case hm_get (nt_reverse t) tag of
         Some l \<Rightarrow> if nat_expired_keys now t = [] then Some l
           else let l' = filter (\<lambda>(k, s). k \<notin> set (nat_expired_keys now t)) l in if l' = [] then None else Some l'
       | None \<Rightarrow> None)"
    and "hm_wf (nt_reverse t')"
    and "hm_get (nt_source_map t') st =
      (if (\<exists>k e. hm_get (nt_entries t) k = Some e \<and> nat_is_expired now e \<and> st = (nk_source k, ne_outbound_tag e)) \<and>
         \<not> has_active (nt_entries t') st then None else hm_get (nt_source_map t) st)"
    and "hm_wf (nt_source_map t')"
    and "removed = length (nat_expired_keys now t)"
    and "nt_ttl_secs t' = nt_ttl_secs t"
proof -
  let ?ks = "nat_expired_keys now t"
  have wf: "hm_wf (nt_entries t)" "hm_wf (nt_reverse t)" "hm_wf (nt_source_map t)"
    using assms(1) by (simp_all add: nat_inv_def)
  note ks = expired_keys_facts [OF wf(1), where now = now]
  obtain ss m where r: "remove_keys ?ks (nt_entries t) = (ss, m)" by fastforce
  have "\<forall>k \<in> set ?ks. hm_get (nt_entries t) k \<noteq> None"
    using ks(2) by auto
  note f = remove_keys_facts [OF r wf(1) ks(1) this]
  have len: "length (nt_entries t) - length m = length ?ks"
    using f by linarith
  have "set ss = {(nk_source k, ne_outbound_tag e) |k e. k \<in> set ?ks \<and> hm_get (nt_entries t) k = Some e}"
    using f by blast
  moreover have "k \<in> set ?ks \<and> hm_get (nt_entries t) k = Some e \<longleftrightarrow>
      hm_get (nt_entries t) k = Some e \<and> nat_is_expired now e" for k e
    unfolding ks(2) by auto
  ultimately have ss: "st \<in> set ss \<longleftrightarrow>
      (\<exists>k e. hm_get (nt_entries t) k = Some e \<and> nat_is_expired now e \<and> st = (nk_source k, ne_outbound_tag e))" for st
    by auto
  have t': "removed = length ?ks" "nt_entries t' = m"
    "nt_reverse t' = (if ?ks = [] then nt_reverse t else hm_retain (\<lambda>_ v. v \<noteq> [])
        (map (\<lambda>(tag, l). (tag, filter (\<lambda>(k, s). k \<notin> set ?ks) l)) (nt_reverse t)))"
    "nt_source_map t' = (if ?ks = [] then nt_source_map t
        else fold (\<lambda>st sm. if has_active m st then sm else hm_remove st sm) ss (nt_source_map t))"
    "nt_ttl_secs t' = nt_ttl_secs t"
    using assms(2) r len by (auto simp: nat_cleanup_def Let_def split: if_splits)
  have ss_Nil: "?ks = [] \<Longrightarrow> st \<notin> set ss" for st
    using r by auto
  show "removed = length ?ks" "nt_ttl_secs t' = nt_ttl_secs t" "hm_wf (nt_entries t')"
    "hm_wf (nt_reverse t')" "hm_wf (nt_source_map t')"
    using t' f wf by (simp_all add: hm_wf_map_values drop_sources_wf)
  show "hm_get (nt_entries t') k =
      (case hm_get (nt_entries t) k of Some e \<Rightarrow> if nat_is_expired now e then None else Some e | None \<Rightarrow> None)"
    using f ks(2) [of k] t'(2) by (auto split: option.splits)
  show "hm_get (nt_reverse t') tag =
      (case hm_get (nt_reverse t) tag of
         Some l \<Rightarrow> if ?ks = [] then Some l
           else let l' = filter (\<lambda>(k, s). k \<notin> set ?ks) l in if l' = [] then None else Some l'
       | None \<Rightarrow> None)"
    using t'(3) wf(2) by (simp add: hm_get_retain hm_wf_map_values hm_get_map_values Let_def split: option.split)
  show "hm_get (nt_source_map t') st =
      (if (\<exists>k e. hm_get (nt_entries t) k = Some e \<and> nat_is_expired now e \<and> st = (nk_source k, ne_outbound_tag e)) \<and>
         \<not> has_active (nt_entries t') st then None else hm_get (nt_source_map t) st)"
    unfolding ss [symmetric] t'(2,4) using ss_Nil by (simp add: drop_sources)
qed

lemma nat_cleanup_inv:
  assumes "nat_inv t"
  shows "nat_inv (snd (nat_cleanup now t))"
proof -
  obtain n t' where c: "nat_cleanup now t = (n, t')" by fastforce
  note m = nat_cleanup_maps [OF assms c]
  have wf: "hm_wf (nt_entries t)" using assms by (simp add: nat_inv_def)
  note ks = expired_keys_facts(2) [OF wf, where now = now]
  have "reverse_agrees t'"
    unfolding reverse_agrees_def
  proof (intro allI)
    fix tag k s
    have old: "(\<exists>l. hm_get (nt_reverse t) tag = Some l \<and> (k, s) \<in> set l) \<longleftrightarrow>
        (\<exists>e. hm_get (nt_entries t) k = Some e \<and> ne_outbound_tag e = tag \<and> s = nk_source k)"
      using assms by (simp add: nat_inv_def reverse_agrees_def)
    have "(\<exists>l. hm_get (nt_reverse t') tag = Some l \<and> (k, s) \<in> set l) \<longleftrightarrow>
        (\<exists>l. hm_get (nt_reverse t) tag = Some l \<and> (k, s) \<in> set l) \<and> k \<notin> set (nat_expired_keys now t)"
      unfolding m(3) by (auto simp: Let_def filter_empty_conv split: option.splits if_splits)
    then show "(\<exists>l. hm_get (nt_reverse t') tag = Some l \<and> (k, s) \<in> set l) \<longleftrightarrow>
        (\<exists>e. hm_get (nt_entries t') k = Some e \<and> ne_outbound_tag e = tag \<and> s = nk_source k)"
      unfolding old ks m(1) by (auto split: option.splits if_splits)
  qed
  moreover have "source_agrees t'"
    unfolding source_agrees_def
  proof (intro allI)
    fix s tag
    have old: "hm_get (nt_source_map t) (s, tag) \<noteq> None \<longleftrightarrow>
        (\<exists>k e. hm_get (nt_entries t) k = Some e \<and> nk_source k = s \<and> ne_outbound_tag e = tag)"
      using assms by (simp add: nat_inv_def source_agrees_def)
    have live: "hm_get (nt_entries t') k = Some e \<longleftrightarrow> hm_get (nt_entries t) k = Some e \<and> \<not> nat_is_expired now e" for k e
      unfolding m(1) by (auto split: option.splits)
    show "hm_get (nt_source_map t') (s, tag) \<noteq> None \<longleftrightarrow>
        (\<exists>k e. hm_get (nt_entries t') k = Some e \<and> nk_source k = s \<and> ne_outbound_tag e = tag)"
      unfolding m(5) has_active_iff [OF m(2)] live using old by auto
  qed
  ultimately show ?thesis
    using m(2,4,6) c by (simp add: nat_inv_def)
qed

interpretation nat_ops: preserved nat_do nat_inv
proof unfold_locales
  fix op t
  assume "nat_inv t"
  then show "nat_inv (nat_do op t)"
    by (cases op) (simp_all add: nat_get_or_insert_inv nat_insert_inv nat_cleanup_inv)
qed

lemma nat_inv_empty: "nat_inv (nat_with_ttl ttl)"
  by (simp add: nat_inv_def nat_with_ttl_def reverse_agrees_def source_agrees_def)

lemma transport_after_insert:
  assumes "get_transport_for_source s tag t = Some tr"
  shows "get_transport_for_source s tag (snd (nat_insert k e t)) = Some tr"
  using assms by (auto simp: get_transport_for_source_def nat_insert_def Let_def split: option.splits)

lemma transport_after_get_or_insert:
  assumes "get_transport_for_source s tag t = Some tr"
  shows "get_transport_for_source s tag (snd (nat_get_or_insert now k x y t)) = Some tr"
proof (cases "nat_get now k t")
  case None
  then show ?thesis
    using transport_after_insert [OF assms, of k "nat_entry_new now x y (nt_ttl_secs t)"]
    by (simp add: nat_get_or_insert_fresh)
qed (use assms in \<open>simp add: nat_get_or_insert_def get_transport_for_source_def\<close>)

lemma transport_stays_or_goes:
  assumes "nat_inv t" and "get_transport_for_source s tag t = Some tr"
  shows "get_transport_for_source s tag (nat_do op t) \<in> {None, Some tr}"
proof (cases op)
  case (Cleanup now)
  obtain n t' where c: "nat_cleanup now t = (n, t')" by fastforce
  show ?thesis
    using assms(2) nat_cleanup_maps(5) [OF assms(1) c] Cleanup c by (simp add: get_transport_for_source_def)
qed (use assms in \<open>simp_all add: transport_after_insert transport_after_get_or_insert\<close>)

definition sample_source :: socket_addr where
  "sample_source = SockV4 0 5000"

definition sample_flow :: nat_key where
  "sample_flow = \<lparr>nk_source = sample_source, nk_dest = Domain ''a.b'' 53\<rparr>"

definition sample_nat :: nat_table where
  "sample_nat = snd (nat_get_or_insert 0 sample_flow 7 ''proxy'' (nat_with_ttl 1))"

section \<open>Properties\<close>


text \<open>Full cone: no operation ever replaces the transport of a source and an outbound; it stays the same
  as long as the source has any flow through the outbound, and is dropped with the last one.\<close>

theorem nat_full_cone:
  assumes "nat_inv t" and "get_transport_for_source s tag t = Some tr"
  shows "get_transport_for_source s tag (nat_do op t) =
    (if \<exists>k e. hm_get (nt_entries (nat_do op t)) k = Some e \<and> nk_source k = s \<and> ne_outbound_tag e = tag
     then Some tr else None)"
proof -
  have "nat_inv (nat_do op t)"
    by (rule nat_ops.step_inv [OF assms(1)])
  then have "get_transport_for_source s tag (nat_do op t) \<noteq> None \<longleftrightarrow>
      (\<exists>k e. hm_get (nt_entries (nat_do op t)) k = Some e \<and> nk_source k = s \<and> ne_outbound_tag e = tag)"
    by (simp add: nat_inv_def source_agrees_def get_transport_for_source_def)
  with transport_stays_or_goes [OF assms, of op] show ?thesis by auto
qed

theorem nat_full_cone_witness:
  "get_transport_for_source sample_source ''proxy''
     (nat_do (GetOrInsert 500 (sample_flow\<lparr>nk_dest := Domain ''c.d'' 53\<rparr>) 8 ''proxy'') sample_nat) = Some 7"
proof -
  have inv: "nat_inv sample_nat"
    unfolding sample_nat_def by (rule nat_get_or_insert_inv [OF nat_inv_empty])
  have tr: "get_transport_for_source sample_source ''proxy'' sample_nat = Some 7"
    by (simp add: sample_nat_def get_transport_for_source_def nat_get_or_insert_def nat_get_def nat_with_ttl_def
        nat_entry_new_def nat_insert_def Let_def sample_flow_def)
  have "hm_get (nt_entries (nat_do (GetOrInsert 500 (sample_flow\<lparr>nk_dest := Domain ''c.d'' 53\<rparr>) 8 ''proxy'') sample_nat)) sample_flow
      = Some (nat_entry_new 0 7 ''proxy'' 1)"
    by (simp add: sample_nat_def nat_get_or_insert_def nat_get_def nat_with_ttl_def
        nat_entry_new_def nat_insert_def Let_def sample_flow_def)
  then have "\<exists>k e. hm_get (nt_entries (nat_do (GetOrInsert 500 (sample_flow\<lparr>nk_dest := Domain ''c.d'' 53\<rparr>) 8 ''proxy'') sample_nat)) k = Some e \<and>
      nk_source k = sample_source \<and> ne_outbound_tag e = ''proxy''"
    by (intro exI [of _ sample_flow] exI [of _ "nat_entry_new 0 7 ''proxy'' 1"])
      (simp add: sample_flow_def nat_entry_new_def)
  then show ?thesis
    by (simp only: nat_full_cone [OF inv tr] if_True)
qed

text \<open>An expired flow that cleanup has not removed yet shadows its key: every request for it gets a fresh
  entry that is not stored, is reported as not new (so no reverse relay is started), and leaves the table as it
  was, until the next cleanup.\<close>

theorem nat_expired_entry_shadows:
  assumes "hm_get (nt_entries t) k = Some e" and "nat_is_expired now e"
  shows "nat_get_or_insert now k transport tag t = ((nat_entry_new now transport tag (nt_ttl_secs t), False), t)"
  using assms by (simp add: nat_get_or_insert_def nat_get_def nat_insert_def)

theorem nat_expired_entry_shadows_witness:
  "nat_get_or_insert 1001 sample_flow 9 ''proxy'' sample_nat = ((nat_entry_new 1001 9 ''proxy'' 1, False), sample_nat)"
proof -
  have e: "hm_get (nt_entries sample_nat) sample_flow = Some (nat_entry_new 0 7 ''proxy'' 1)" "nt_ttl_secs sample_nat = 1"
    by (simp_all add: sample_nat_def nat_get_or_insert_def nat_get_def nat_with_ttl_def
        nat_entry_new_def nat_insert_def Let_def)
  show ?thesis
    using nat_expired_entry_shadows [OF e(1), of 1001 9 "''proxy''"] e(2) by (simp add: nat_is_expired_def nat_entry_new_def)
qed

end
