(* ===== verification/ConnPool.thy ===== *)
theory ConnPool
  imports OW_Prelude
begin

text \<open>
  The pool of idle TCP connections, \<^verbatim>\<open>src/src/proxy/connection_pool.rs\<close>: one queue per target, taken
  from the back, bounded per target, with an idle and a lifetime limit.  A stream is represented by an identity
  and an instant by its milliseconds (\<^verbatim>\<open>duration_since\<close> saturates at zero, as subtraction on naturals does).
\<close>

section \<open>Definitions\<close>

record pooled_conn =
  pc_stream :: nat
  pc_created_at :: nat
  pc_last_used :: nat

record pool_config =
  max_idle_per_host :: nat
  idle_timeout :: nat
  max_lifetime :: nat
  cleanup_interval :: nat

definition pool_config_default :: pool_config where
  "pool_config_default = \<lparr>max_idle_per_host = 8, idle_timeout = 90000, max_lifetime = 300000, cleanup_interval = 30000\<rparr>"

record pool_key =
  pk_host :: string
  pk_port :: u16

definition pool_key_new :: "string \<Rightarrow> u16 \<Rightarrow> pool_key" where
  "pool_key_new h p = \<lparr>pk_host = h, pk_port = p\<rparr>"

definition pool_key_display :: "pool_key \<Rightarrow> string" where
  "pool_key_display k = pk_host k @ '':'' @ show_nat (unat (pk_port k))"

record conn_pool =
  cp_config :: pool_config
  cp_conns :: "(pool_key, pooled_conn list) hashmap"

definition conn_pool_new :: "pool_config \<Rightarrow> conn_pool" where
  "conn_pool_new c = \<lparr>cp_config = c, cp_conns = []\<rparr>"

definition conn_pool_with_defaults :: conn_pool where
  "conn_pool_with_defaults = conn_pool_new pool_config_default"

definition conn_stale :: "pool_config \<Rightarrow> nat \<Rightarrow> pooled_conn \<Rightarrow> bool" where
  "conn_stale c now e = (now - pc_last_used e > idle_timeout c \<or> now - pc_created_at e > max_lifetime c)"

text \<open>The loop of \<^verbatim>\<open>get\<close>: entries are popped from the back until a usable one is found.  The argument is
  the reversed queue, the result the stream and the entries left, reversed.\<close>

fun pop_usable :: "pool_config \<Rightarrow> nat \<Rightarrow> pooled_conn list \<Rightarrow> nat option \<times> pooled_conn list" where
  "pop_usable c now [] = (None, [])"
| "pop_usable c now (e # es) = (if conn_stale c now e then pop_usable c now es else (Some (pc_stream e), es))"

definition conn_pool_get :: "nat \<Rightarrow> pool_key \<Rightarrow> conn_pool \<Rightarrow> nat option \<times> conn_pool" where
  "conn_pool_get now k p =
     (case hm_get (cp_conns p) k of
        None \<Rightarrow> (None, p)
      | Some queue \<Rightarrow>
          (case pop_usable (cp_config p) now (rev queue) of
             (Some stream, rest) \<Rightarrow> (Some stream, p\<lparr>cp_conns := hm_insert k (rev rest) (cp_conns p)\<rparr>)
           | (None, rest) \<Rightarrow> (None, p\<lparr>cp_conns := hm_remove k (cp_conns p)\<rparr>)))"

definition conn_pool_put :: "nat \<Rightarrow> pool_key \<Rightarrow> nat \<Rightarrow> conn_pool \<Rightarrow> conn_pool" where
  "conn_pool_put now k stream p =
     (let queue = (case hm_get (cp_conns p) k of Some q \<Rightarrow> q | None \<Rightarrow> []);
          queue' = (if length queue \<ge> max_idle_per_host (cp_config p) then tl queue else queue)
      in p\<lparr>cp_conns := hm_insert k
             (queue' @ [\<lparr>pc_stream = stream, pc_created_at = now, pc_last_used = now\<rparr>]) (cp_conns p)\<rparr>)"

definition conn_pool_cleanup :: "nat \<Rightarrow> conn_pool \<Rightarrow> conn_pool" where
  "conn_pool_cleanup now p =
     p\<lparr>cp_conns := hm_retain (\<lambda>_ q. q \<noteq> [])
        (map (\<lambda>(k, q). (k, filter (\<lambda>e. now - pc_last_used e \<le> idle_timeout (cp_config p) \<and>
             now - pc_created_at e \<le> max_lifetime (cp_config p)) q)) (cp_conns p))\<rparr>"

record pool_stats =
  idle_connections :: nat
  ps_hosts :: nat

definition conn_pool_stats :: "conn_pool \<Rightarrow> pool_stats" where
  "conn_pool_stats p =
     fold (\<lambda>(k, q) s. s\<lparr>idle_connections := idle_connections s + length q, ps_hosts := ps_hosts s + 1\<rparr>)
       (cp_conns p) \<lparr>idle_connections = 0, ps_hosts = 0\<rparr>"

definition conn_pool_clear :: "conn_pool \<Rightarrow> conn_pool" where
  "conn_pool_clear p = p\<lparr>cp_conns := []\<rparr>"

text \<open>A run of the pool: its operations in the order in which they get its lock, with what was put into it and
  what it handed out.\<close>

datatype conn_op = CpGet nat pool_key | CpPut nat pool_key nat | CpCleanup nat | CpClear

record pool_run =
  run_pool :: conn_pool
  run_put :: "(pool_key \<times> nat) list"
  run_got :: "(pool_key \<times> nat) list"

definition pool_run_init :: "pool_config \<Rightarrow> pool_run" where
  "pool_run_init c = \<lparr>run_pool = conn_pool_new c, run_put = [], run_got = []\<rparr>"

fun conn_do :: "conn_op \<Rightarrow> pool_run \<Rightarrow> pool_run" where
  "conn_do (CpGet now k) r =
     (case conn_pool_get now k (run_pool r) of
        (None, p) \<Rightarrow> r\<lparr>run_pool := p\<rparr>
      | (Some s, p) \<Rightarrow> r\<lparr>run_pool := p, run_got := (k, s) # run_got r\<rparr>)"
| "conn_do (CpPut now k s) r = r\<lparr>run_pool := conn_pool_put now k s (run_pool r), run_put := (k, s) # run_put r\<rparr>"
| "conn_do (CpCleanup now) r = r\<lparr>run_pool := conn_pool_cleanup now (run_pool r)\<rparr>"
| "conn_do CpClear r = r\<lparr>run_pool := conn_pool_clear (run_pool r)\<rparr>"

text \<open>The streams the pool holds, with their targets.\<close>

definition queue_streams :: "pool_key \<times> pooled_conn list \<Rightarrow> (pool_key \<times> nat) list" where
  "queue_streams kq = map (\<lambda>e. (fst kq, pc_stream e)) (snd kq)"

definition held :: "conn_pool \<Rightarrow> (pool_key \<times> nat) multiset" where
  "held p = sum_mset (image_mset (\<lambda>kq. mset (queue_streams kq)) (mset (cp_conns p)))"

definition run_inv_conserve :: "pool_run \<Rightarrow> bool" where
  "run_inv_conserve r \<longleftrightarrow> hm_wf (cp_conns (run_pool r)) \<and> mset (run_got r) + held (run_pool r) \<subseteq># mset (run_put r)"

definition run_inv_bound :: "pool_config \<Rightarrow> pool_run \<Rightarrow> bool" where
  "run_inv_bound c r \<longleftrightarrow> cp_config (run_pool r) = c \<and> hm_wf (cp_conns (run_pool r)) \<and>
     (\<forall>k q. hm_get (cp_conns (run_pool r)) k = Some q \<longrightarrow> length q \<le> max 1 (max_idle_per_host c))"

text \<open>A client that keeps one connection in use: at every multiple of a period it takes it and returns it.\<close>

fun cycle :: "nat \<Rightarrow> pool_key \<Rightarrow> nat \<Rightarrow> nat \<Rightarrow> conn_op list" where
  "cycle period k s 0 = [CpPut 0 k s]"
| "cycle period k s (Suc n) = cycle period k s n @ [CpGet (Suc n * period) k, CpPut (Suc n * period) k s]"

section \<open>Lemmas\<close>

subsection \<open>Streams are conserved\<close>

lemma held_insert:
  "hm_wf (cp_conns p) \<Longrightarrow> held (p\<lparr>cp_conns := hm_insert k q (cp_conns p)\<rparr>) =
     mset (queue_streams (k, q)) + held (p\<lparr>cp_conns := hm_remove k (cp_conns p)\<rparr>)"
  by (simp add: held_def hm_mset_insert)

lemma held_split:
  "hm_wf (cp_conns p) \<Longrightarrow> held p =
     mset (queue_streams (k, case hm_get (cp_conns p) k of Some q \<Rightarrow> q | None \<Rightarrow> [])) +
     held (p\<lparr>cp_conns := hm_remove k (cp_conns p)\<rparr>)"
  using hm_mset_get [of "cp_conns p" k] hm_remove_absent [of k "cp_conns p"]
  by (auto simp: held_def queue_streams_def hm_get_eq_None split: option.split)

lemma pop_usable_streams:
  "case pop_usable c now es of
     (Some s, rest) \<Rightarrow> add_mset s (mset (map pc_stream rest)) \<subseteq># mset (map pc_stream es)
   | (None, rest) \<Rightarrow> rest = []"
  by (induction c now es rule: pop_usable.induct)
    (auto split: prod.splits option.splits intro: subset_mset.order_trans simp: subset_mset.le_add_same_cancel2)

lemma mset_queue_streams: "mset (queue_streams (k, q)) = image_mset (Pair k) (mset (map pc_stream q))"
  by (simp add: queue_streams_def image_mset.compositionality comp_def multiset.map_comp)

lemma get_held:
  assumes "hm_wf (cp_conns p)" and "conn_pool_get now k p = (r, p')"
  shows "(case r of Some s \<Rightarrow> {#(k, s)#} | None \<Rightarrow> {#}) + held p' \<subseteq># held p \<and> hm_wf (cp_conns p')"
proof (cases "hm_get (cp_conns p) k")
  case (Some q)
  obtain r' rest where pop: "pop_usable (cp_config p) now (rev q) = (r', rest)" by fastforce
  let ?rest = "held (p\<lparr>cp_conns := hm_remove k (cp_conns p)\<rparr>)"
  have p: "held p = image_mset (Pair k) (mset (map pc_stream q)) + ?rest"
    using held_split [OF assms(1), of k] Some by (simp add: mset_queue_streams)
  show ?thesis
  proof (cases r')
    case None
    then show ?thesis using assms Some pop p by (auto simp: conn_pool_get_def)
  next
    case (Some s)
    then have "add_mset s (mset (map pc_stream rest)) \<subseteq># mset (map pc_stream q)"
      using pop_usable_streams [of "rev q" "cp_config p" now] pop by (simp add: rev_map [symmetric])
    then have "image_mset (Pair k) (add_mset s (mset (map pc_stream rest))) \<subseteq># image_mset (Pair k) (mset (map pc_stream q))"
      by (rule image_mset_subseteq_mono)
    moreover have "r = Some s" "p' = p\<lparr>cp_conns := hm_insert k (rev rest) (cp_conns p)\<rparr>"
      using assms(2) \<open>hm_get (cp_conns p) k = Some q\<close> pop Some by (auto simp: conn_pool_get_def)
    ultimately show ?thesis
      using assms(1) p by (simp add: held_insert mset_queue_streams rev_map [symmetric])
  qed
qed (use assms in \<open>auto simp: conn_pool_get_def\<close>)

lemma put_wf: "hm_wf (cp_conns p) \<Longrightarrow> hm_wf (cp_conns (conn_pool_put now k s p))"
  by (simp add: conn_pool_put_def Let_def)

lemma put_held:
  assumes "hm_wf (cp_conns p)"
  shows "held (conn_pool_put now k s p) \<subseteq># add_mset (k, s) (held p)"
proof -
  define q where "q = (case hm_get (cp_conns p) k of Some q \<Rightarrow> q | None \<Rightarrow> [])"
  define q' where "q' = (if length q \<ge> max_idle_per_host (cp_config p) then tl q else q)"
  have "mset (map pc_stream q') \<subseteq># mset (map pc_stream q)"
    by (cases q) (auto simp: q'_def)
  then have "mset (queue_streams (k, q')) \<subseteq># mset (queue_streams (k, q))"
    unfolding mset_queue_streams by (rule image_mset_subseteq_mono)
  then show ?thesis
    using held_split [OF assms, of k] held_insert [OF assms, of k]
    by (simp add: conn_pool_put_def Let_def q_def [symmetric] q'_def [symmetric] queue_streams_def)
qed

lemma filter_held:
  "held (p\<lparr>cp_conns := filter Q (map (\<lambda>(k, q). (k, filter P q)) (cp_conns p))\<rparr>) \<subseteq># held p"
proof -
  have "sum_mset (image_mset (\<lambda>kq. mset (queue_streams kq)) (mset (filter Q (map (\<lambda>(k, q). (k, filter P q)) m))))
      \<subseteq># sum_mset (image_mset (\<lambda>kq. mset (queue_streams kq)) (mset m))" for m
  proof (induction m)
    case (Cons e m)
    have "mset (queue_streams (fst e, filter P (snd e))) \<subseteq># mset (queue_streams e)"
      unfolding queue_streams_def by (simp add: image_mset_subseteq_mono)
    with Cons show ?case
      by (cases e) (auto intro: subset_mset.add_mono subset_mset.add_increasing)
  qed simp
  then show ?thesis by (simp add: held_def)
qed

lemma conn_do_conserve:
  assumes "run_inv_conserve r"
  shows "run_inv_conserve (conn_do x r)"
proof (cases x)
  case (CpGet now k)
  obtain o' p' where g: "conn_pool_get now k (run_pool r) = (o', p')" by fastforce
  have "(case o' of Some s \<Rightarrow> {#(k, s)#} | None \<Rightarrow> {#}) + held p' \<subseteq># held (run_pool r)" "hm_wf (cp_conns p')"
    using get_held [OF _ g] assms by (auto simp: run_inv_conserve_def)
  moreover from this(1) have "mset (run_got r) + ((case o' of Some s \<Rightarrow> {#(k, s)#} | None \<Rightarrow> {#}) + held p') \<subseteq># mset (run_put r)"
    using assms unfolding run_inv_conserve_def
    by (meson subset_mset.add_left_mono subset_mset.order_trans)
  ultimately show ?thesis
    using CpGet g by (simp add: run_inv_conserve_def split: option.splits)
next
  case (CpPut now k s)
  have "mset (run_got r) + held (conn_pool_put now k s (run_pool r)) \<subseteq># add_mset (k, s) (mset (run_got r) + held (run_pool r))"
    using put_held [of "run_pool r" now k s] assms by (simp add: run_inv_conserve_def)
  also have "\<dots> \<subseteq># add_mset (k, s) (mset (run_put r))"
    using assms by (simp add: run_inv_conserve_def)
  finally show ?thesis
    using assms CpPut by (simp add: run_inv_conserve_def put_wf)
next
  case (CpCleanup now)
  then show ?thesis
    using assms filter_held [where p = "run_pool r"]
    by (auto simp: run_inv_conserve_def conn_pool_cleanup_def hm_retain_def hm_wf_map_values
        intro: subset_mset.order_trans [OF subset_mset.add_left_mono])
next
  case CpClear
  then show ?thesis
    using assms by (auto simp: run_inv_conserve_def conn_pool_clear_def held_def intro: subset_mset.order_trans [rotated])
qed

interpretation pool_streams: preserved conn_do run_inv_conserve
  by unfold_locales (rule conn_do_conserve)

subsection \<open>Queues are bounded\<close>

lemma pop_usable_suffix: "suffix (snd (pop_usable c now es)) es"
  by (induction c now es rule: pop_usable.induct) (auto simp: suffix_Cons)

lemma config_kept [simp]:
  "cp_config (snd (conn_pool_get now k p)) = cp_config p"
  "cp_config (conn_pool_put now k s p) = cp_config p"
  "cp_config (conn_pool_cleanup now p) = cp_config p"
  "cp_config (conn_pool_clear p) = cp_config p"
  by (simp_all add: conn_pool_get_def conn_pool_put_def conn_pool_cleanup_def conn_pool_clear_def Let_def
      split: option.splits prod.splits)

lemma get_queue:
  assumes "conn_pool_get now k p = (r, p')" and "hm_get (cp_conns p') k' = Some q'"
  shows "\<exists>q. hm_get (cp_conns p) k' = Some q \<and> prefix q' q"
proof (cases "hm_get (cp_conns p) k")
  case (Some q)
  then show ?thesis
    using assms pop_usable_suffix [of "cp_config p" now "rev q"]
    by (auto simp: conn_pool_get_def suffix_to_prefix split: prod.splits option.splits if_splits)
qed (use assms in \<open>auto simp: conn_pool_get_def\<close>)

lemma put_queue:
  assumes "hm_get (cp_conns (conn_pool_put now k s p)) k' = Some q'"
  shows "k' \<noteq> k \<and> hm_get (cp_conns p) k' = Some q' \<or>
    (\<exists>q. k' = k \<and> (case hm_get (cp_conns p) k of Some q \<Rightarrow> q | None \<Rightarrow> []) = q \<and>
       length q' = (if length q \<ge> max_idle_per_host (cp_config p) then Suc (length q - 1) else Suc (length q)))"
  using assms by (auto simp: conn_pool_put_def Let_def split: if_splits)

lemma conn_do_bound:
  assumes "run_inv_bound c r"
  shows "run_inv_bound c (conn_do x r)"
proof -
  have wf: "hm_wf (cp_conns (run_pool r))" and c: "cp_config (run_pool r) = c"
    and len: "hm_get (cp_conns (run_pool r)) k = Some q \<Longrightarrow> length q \<le> max 1 (max_idle_per_host c)" for k q
    using assms by (simp_all add: run_inv_bound_def)
  show ?thesis
  proof (cases x)
    case (CpGet now k)
    obtain o' p' where g: "conn_pool_get now k (run_pool r) = (o', p')" by fastforce
    have "length q' \<le> max 1 (max_idle_per_host c)" if "hm_get (cp_conns p') k' = Some q'" for k' q'
      using get_queue [OF g that] len prefix_length_le by (meson order.trans)
    moreover have "cp_config p' = c" using config_kept(1) [of now k "run_pool r"] g c by simp
    ultimately show ?thesis
      using CpGet g get_held [OF wf g] by (simp add: run_inv_bound_def split: option.splits)
  next
    case (CpPut now k s)
    have "length q' \<le> max 1 (max_idle_per_host c)"
      if "hm_get (cp_conns (conn_pool_put now k s (run_pool r))) k' = Some q'" for k' q'
      using put_queue [OF that] len [of k'] c by (fastforce split: option.splits if_splits simp: max_def)
    then show ?thesis using CpPut c wf by (simp add: run_inv_bound_def put_wf)
  next
    case (CpCleanup now)
    then show ?thesis using c wf len
      by (auto simp: run_inv_bound_def conn_pool_cleanup_def hm_wf_map_values hm_get_retain hm_get_map_values
          split: option.splits if_splits intro: le_trans [OF length_filter_le])
  qed (simp add: run_inv_bound_def c conn_pool_clear_def)
qed

interpretation pool_bound: preserved conn_do "run_inv_bound c"
  by unfold_locales (rule conn_do_bound)

subsection \<open>A connection in steady use\<close>

lemma cycle_queue:
  assumes "period \<le> idle_timeout c" and "period \<le> max_lifetime c"
  shows "cp_config (run_pool (fold conn_do (cycle period k s n) (pool_run_init c))) = c \<and>
    hm_get (cp_conns (run_pool (fold conn_do (cycle period k s n) (pool_run_init c)))) k =
      Some [\<lparr>pc_stream = s, pc_created_at = n * period, pc_last_used = n * period\<rparr>]"
proof (induction n)
  case (Suc n)
  have "\<not> conn_stale c (Suc n * period) \<lparr>pc_stream = s, pc_created_at = n * period, pc_last_used = n * period\<rparr>"
    using assms by (simp add: conn_stale_def)
  with Suc show ?case
    by (simp add: conn_pool_get_def conn_pool_put_def Let_def del: mult_Suc)
qed (simp add: pool_run_init_def conn_pool_new_def conn_pool_put_def Let_def)

section \<open>Properties\<close>

text \<open>C15. Whatever the sequence of operations on a pool, no connection is handed out more often than it was
  returned, and only for the target under which it was returned: two callers never share one idle
  connection.\<close>

theorem pool_hands_out_once:
  "mset (run_got (fold conn_do ops (pool_run_init c))) \<subseteq># mset (run_put (fold conn_do ops (pool_run_init c)))"
proof -
  have "run_inv_conserve (pool_run_init c)"
    by (simp add: run_inv_conserve_def pool_run_init_def conn_pool_new_def held_def)
  then have "run_inv_conserve (fold conn_do ops (pool_run_init c))"
    by (rule pool_streams.run_inv)
  then show ?thesis
    unfolding run_inv_conserve_def using mset_subset_eq_add_left subset_mset.order_trans by blast
qed

text \<open>No sequence of operations makes the pool keep more connections for a target than
  \<^verbatim>\<open>max_idle_per_host\<close> (than one where that is zero).\<close>

theorem pool_bounded:
  "hm_get (cp_conns (run_pool (fold conn_do ops (pool_run_init c)))) k = Some q \<Longrightarrow>
     length q \<le> max 1 (max_idle_per_host c)"
proof -
  have "run_inv_bound c (pool_run_init c)"
    by (simp add: run_inv_bound_def pool_run_init_def conn_pool_new_def)
  from pool_bound.run_inv [OF this, of ops]
  show "hm_get (cp_conns (run_pool (fold conn_do ops (pool_run_init c)))) k = Some q \<Longrightarrow> ?thesis"
    by (simp add: run_inv_bound_def)
qed

theorem pool_bounded_witness:
  "length [\<lparr>pc_stream = 7, pc_created_at = 0, pc_last_used = 0\<rparr>] \<le> max 1 (max_idle_per_host pool_config_default)"
  by (rule pool_bounded [of "[CpPut 0 (pool_key_new ''a'' 80) 7]" _ "pool_key_new ''a'' 80"])
    (simp add: pool_run_init_def conn_pool_new_def conn_pool_put_def)

text \<open>The lifetime limit counts from the last return, not from the creation of the connection: a connection
  that is taken and returned once per period is handed out again for ever, whatever its real age.\<close>

theorem pool_lifetime_restarts:
  assumes "period \<le> idle_timeout c" and "period \<le> max_lifetime c"
  shows "fst (conn_pool_get (Suc n * period) k (run_pool (fold conn_do (cycle period k s n) (pool_run_init c)))) = Some s"
proof -
  have "\<not> conn_stale c (Suc n * period) \<lparr>pc_stream = s, pc_created_at = n * period, pc_last_used = n * period\<rparr>"
    using assms by (simp add: conn_stale_def)
  with cycle_queue [OF assms, of k s n] show ?thesis
    by (simp add: conn_pool_get_def del: mult_Suc)
qed

theorem pool_lifetime_restarts_witness:
  "fst (conn_pool_get 990000 (pool_key_new ''a'' 80) (run_pool (fold conn_do (cycle 90000 (pool_key_new ''a'' 80) 7 10) (pool_run_init pool_config_default)))) = Some 7 \<and>
   990000 > max_lifetime pool_config_default"
  using pool_lifetime_restarts [of 90000 pool_config_default 10 "pool_key_new ''a'' 80" 7] by (simp add: pool_config_default_def del: cycle.simps)

end
