(* ===== verification/Resilience.thy ===== *)
theory Resilience
  imports OW_Prelude
begin

text \<open>
  Retries with exponential backoff and the circuit breaker, \<^verbatim>\<open>src/src/app/resilience.rs\<close>.  Durations and
  instants are whole milliseconds; the outcome of every attempt is an argument of the retry loop, which returns
  its result with the list of its pauses.  The counters of the breaker are naturals: the invariant bounds them
  by the thresholds, which are 32 bits wide, so the 64 bit counters of the code never wrap.
\<close>

section \<open>Definitions\<close>

subsection \<open>Retries\<close>

record retry_policy =
  max_retries :: nat
  base_delay :: nat
  max_delay :: nat
  jitter :: bool

definition retry_policy_default :: retry_policy where
  "retry_policy_default = \<lparr>max_retries = 3, base_delay = 200, max_delay = 10000, jitter = True\<rparr>"

definition u64_sat :: "nat \<Rightarrow> nat" where
  "u64_sat n = min n (2 ^ 64 - 1)"

definition simple_hash :: "u64 \<Rightarrow> u64" where
  "simple_hash val =
     (let h = val * 6364136223846793005; h' = h + 1442695040888963407 in h' XOR drop_bit 33 h')"

definition capped_ms :: "retry_policy \<Rightarrow> nat \<Rightarrow> nat" where
  "capped_ms p attempt =
     min (u64_sat (base_delay p mod 2 ^ 64 * 2 ^ min attempt 16)) (max_delay p mod 2 ^ 64)"

definition delay_for :: "retry_policy \<Rightarrow> nat \<Rightarrow> nat" where
  "delay_for p attempt =
     (let capped = capped_ms p attempt in
      if jitter p then
        let jitter_range = capped div 4;
            j = unat (simple_hash (of_nat attempt)) mod max jitter_range 1
        in u64_sat (capped + j)
      else capped)"

text \<open>The loop from an attempt on, with the number of attempts that are left after it.\<close>

fun retry_from :: "retry_policy \<Rightarrow> (nat \<Rightarrow> ('e, 'a) result) \<Rightarrow> nat \<Rightarrow> nat \<Rightarrow> ('e, 'a) result \<times> nat list" where
  "retry_from p f attempt 0 = (f attempt, [])"
| "retry_from p f attempt (Suc left) =
     (case f attempt of
        Inr v \<Rightarrow> (Inr v, [])
      | Inl e \<Rightarrow> (case retry_from p f (Suc attempt) left of (r, ds) \<Rightarrow> (r, delay_for p attempt # ds)))"

definition retry_with_backoff :: "retry_policy \<Rightarrow> (nat \<Rightarrow> ('e, 'a) result) \<Rightarrow> ('e, 'a) result \<times> nat list" where
  "retry_with_backoff p f = retry_from p f 0 (max_retries p)"

subsection \<open>Circuit breaker\<close>

datatype circuit_state = Closed | Open | HalfOpen

record breaker_config =
  failure_threshold :: u32
  success_threshold :: u32
  open_duration :: nat

definition breaker_config_default :: breaker_config where
  "breaker_config_default = \<lparr>failure_threshold = 5, success_threshold = 2, open_duration = 30000\<rparr>"

record breaker =
  cb_config :: breaker_config
  cb_state :: circuit_state
  cb_failure_count :: nat
  cb_success_count :: nat
  cb_last_failure_time :: "nat option"
  cb_tag :: string

definition breaker_new :: "string \<Rightarrow> breaker_config \<Rightarrow> breaker" where
  "breaker_new tag c = \<lparr>cb_config = c, cb_state = Closed, cb_failure_count = 0, cb_success_count = 0,
     cb_last_failure_time = None, cb_tag = tag\<rparr>"

definition allow_request :: "nat \<Rightarrow> breaker \<Rightarrow> bool \<times> breaker" where
  "allow_request now b =
     (case cb_state b of
        Closed \<Rightarrow> (True, b)
      | Open \<Rightarrow>
          (if (case cb_last_failure_time b of Some t \<Rightarrow> now - t \<ge> open_duration (cb_config b) | None \<Rightarrow> False)
           then (True, b\<lparr>cb_state := HalfOpen, cb_success_count := 0\<rparr>)
           else (False, b))
      | HalfOpen \<Rightarrow> (True, b))"

definition record_success :: "breaker \<Rightarrow> breaker" where
  "record_success b =
     (case cb_state b of
        HalfOpen \<Rightarrow>
          (let count = cb_success_count b + 1 in
           if count \<ge> unat (success_threshold (cb_config b))
           then b\<lparr>cb_state := Closed, cb_failure_count := 0, cb_success_count := 0\<rparr>
           else b\<lparr>cb_success_count := count\<rparr>)
      | Closed \<Rightarrow> b\<lparr>cb_failure_count := 0\<rparr>
      | Open \<Rightarrow> b)"

definition record_failure :: "nat \<Rightarrow> breaker \<Rightarrow> breaker" where
  "record_failure now b =
     (case cb_state b of
        Closed \<Rightarrow>
          (let count = cb_failure_count b + 1 in
           if count \<ge> unat (failure_threshold (cb_config b))
           then b\<lparr>cb_failure_count := count, cb_state := Open, cb_last_failure_time := Some now\<rparr>
           else b\<lparr>cb_failure_count := count\<rparr>)
      | HalfOpen \<Rightarrow> b\<lparr>cb_state := Open, cb_last_failure_time := Some now, cb_success_count := 0\<rparr>
      | Open \<Rightarrow> b)"

definition breaker_reset :: "breaker \<Rightarrow> breaker" where
  "breaker_reset b = b\<lparr>cb_state := Closed, cb_failure_count := 0, cb_success_count := 0, cb_last_failure_time := None\<rparr>"

datatype breaker_op = Allow nat | Success | Failure nat | Reset

fun breaker_do :: "breaker_op \<Rightarrow> breaker \<Rightarrow> breaker" where
  "breaker_do (Allow now) b = snd (allow_request now b)"
| "breaker_do Success b = record_success b"
| "breaker_do (Failure now) b = record_failure now b"
| "breaker_do Reset b = breaker_reset b"

text \<open>The counters stay below the thresholds while they count, and an open breaker knows since when.\<close>

definition breaker_inv :: "breaker_config \<Rightarrow> breaker \<Rightarrow> bool" where
  "breaker_inv c b \<longleftrightarrow> cb_config b = c \<and>
     cb_failure_count b \<le> max 1 (unat (failure_threshold c)) \<and>
     cb_success_count b \<le> max 1 (unat (success_threshold c)) \<and>
     (cb_state b = Closed \<longrightarrow> cb_failure_count b < max 1 (unat (failure_threshold c))) \<and>
     (cb_state b = HalfOpen \<longrightarrow> cb_success_count b < max 1 (unat (success_threshold c))) \<and>
     (cb_state b = Open \<longrightarrow> cb_last_failure_time b \<noteq> None)"

text \<open>Outcomes of requests alone, and the length of the run of failures at their end.\<close>

fun is_failure :: "breaker_op \<Rightarrow> bool" where
  "is_failure (Failure _) = True"
| "is_failure _ = False"

fun is_outcome :: "breaker_op \<Rightarrow> bool" where
  "is_outcome (Failure _) = True"
| "is_outcome Success = True"
| "is_outcome _ = False"

definition trailing_failures :: "breaker_op list \<Rightarrow> nat" where
  "trailing_failures es = length (takeWhile is_failure (rev es))"

definition failure_run :: "nat \<Rightarrow> breaker_op list \<Rightarrow> bool" where
  "failure_run n es = (\<exists>a fs b. es = a @ fs @ b \<and> length fs = n \<and> list_all is_failure fs)"

section \<open>Lemmas\<close>

subsection \<open>Retries\<close>

lemma delay_for_bounds:
  "capped_ms p n \<le> delay_for p n \<and> delay_for p n \<le> capped_ms p n + capped_ms p n div 4"
proof -
  have "capped_ms p n \<le> max_delay p mod 2 ^ 64"
    by (simp add: capped_ms_def)
  also have "\<dots> \<le> 2 ^ 64 - 1"
    using mod_less_divisor [of "2 ^ 64" "max_delay p"] by simp
  finally have le: "capped_ms p n \<le> 2 ^ 64 - 1" .
  have "unat (simple_hash (of_nat n)) mod max (capped_ms p n div 4) 1 < max (capped_ms p n div 4) 1"
    by (rule mod_less_divisor) simp
  then have "unat (simple_hash (of_nat n)) mod max (capped_ms p n div 4) 1 \<le> capped_ms p n div 4"
    by (cases "capped_ms p n div 4") auto
  with le show ?thesis
    by (auto simp: delay_for_def Let_def u64_sat_def min_def)
qed

lemma delay_for_le: "delay_for p n \<le> max_delay p + max_delay p div 4"
proof -
  have "capped_ms p n \<le> max_delay p"
    by (simp add: capped_ms_def min.coboundedI2)
  then have "capped_ms p n + capped_ms p n div 4 \<le> max_delay p + max_delay p div 4"
    by (intro add_mono div_le_mono)
  with delay_for_bounds [of p n] show ?thesis by linarith
qed

lemma retry_from_spec:
  "retry_from p f a n =
     (let k = (LEAST k. k = n \<or> is_ok (f (a + k))) in (f (a + k), map (delay_for p) [a ..< a + k]))"
proof (induction p f a n rule: retry_from.induct)
  case (2 p f a n)
  show ?case
  proof (cases "f a")
    case (Inl e)
    let ?P = "\<lambda>k. k = Suc n \<or> is_ok (f (a + k))"
    have "(LEAST k. ?P k) = Suc (LEAST k. ?P (Suc k))"
      by (rule Least_Suc [of _ "Suc n"]) (simp_all add: Inl)
    then have "(LEAST k. ?P k) = Suc (LEAST k. k = n \<or> is_ok (f (Suc a + k)))"
      by simp
    moreover have "[a ..< a + Suc k] = a # [Suc a ..< Suc a + k]" for k
      by (simp add: upt_conv_Cons del: upt_Suc)
    ultimately show ?thesis
      using Inl 2 by (simp add: Let_def del: upt_Suc)
  next
    case (Inr v)
    have "(LEAST k. k = Suc n \<or> is_ok (f (a + k))) = 0"
      by (rule Least_equality) (simp_all add: Inr)
    with Inr show ?thesis by (simp add: Let_def)
  qed
qed (simp add: Let_def)

subsection \<open>Circuit breaker\<close>

lemmas breaker_ops_defs = allow_request_def record_success_def record_failure_def breaker_reset_def

lemma breaker_do_inv: "breaker_inv c b \<Longrightarrow> breaker_inv c (breaker_do x b)"
  by (cases x; cases "cb_state b")
    (auto simp: breaker_inv_def breaker_ops_defs Let_def split: option.splits)

interpretation breaker_ops: preserved breaker_do "breaker_inv c"
  by unfold_locales (rule breaker_do_inv)

lemma breaker_new_inv: "breaker_inv c (breaker_new tag c)"
  by (simp add: breaker_inv_def breaker_new_def)

lemma trailing_failures_ge:
  "n \<le> trailing_failures es \<longleftrightarrow> (\<exists>a fs. es = a @ fs \<and> length fs = n \<and> list_all is_failure fs)"
proof
  assume n: "n \<le> trailing_failures es"
  let ?t = "takeWhile is_failure (rev es)"
  have "take n (rev es) = take n ?t"
    using n by (metis append_take_drop_id take_append diff_is_0_eq' takeWhile_dropWhile_id
        take0 append.right_neutral trailing_failures_def)
  then have "list_all is_failure (rev (take n (rev es)))"
    by (auto simp: list_all_iff dest: in_set_takeD set_takeWhileD)
  moreover have "n \<le> length es"
    using n length_takeWhile_le [of is_failure "rev es"] by (simp add: trailing_failures_def)
  moreover have "es = rev (drop n (rev es)) @ rev (take n (rev es))"
    by (metis append_take_drop_id rev_append rev_rev_ident)
  ultimately show "\<exists>a fs. es = a @ fs \<and> length fs = n \<and> list_all is_failure fs"
    by (metis length_rev length_take min.absorb2)
next
  assume "\<exists>a fs. es = a @ fs \<and> length fs = n \<and> list_all is_failure fs"
  then obtain a fs where "es = a @ fs" "length fs = n" "list_all is_failure fs" by blast
  then show "n \<le> trailing_failures es"
    by (auto simp: trailing_failures_def takeWhile_append list_all_iff)
qed

lemma failure_run_snoc:
  "failure_run (Suc n) (es @ [e]) \<longleftrightarrow> failure_run (Suc n) es \<or> (is_failure e \<and> n \<le> trailing_failures es)"
proof
  assume "failure_run (Suc n) (es @ [e])"
  then obtain a fs b where es: "es @ [e] = a @ fs @ b" and fs: "length fs = Suc n" "list_all is_failure fs"
    by (auto simp: failure_run_def)
  show "failure_run (Suc n) es \<or> (is_failure e \<and> n \<le> trailing_failures es)"
  proof (cases b rule: rev_cases)
    case Nil
    from fs(1) obtain fs' x where fs': "fs = fs' @ [x]" by (cases fs rule: rev_cases) auto
    with es Nil have "es = a @ fs'" "x = e"
      by (metis append.assoc append1_eq_conv append_Nil2)+
    with fs fs' show ?thesis
      unfolding trailing_failures_ge by auto
  next
    case (snoc b' x)
    with es have "es = a @ fs @ b'" by (metis append.assoc append1_eq_conv)
    with fs show ?thesis by (auto simp: failure_run_def)
  qed
next
  assume "failure_run (Suc n) es \<or> (is_failure e \<and> n \<le> trailing_failures es)"
  then show "failure_run (Suc n) (es @ [e])"
  proof
    assume "failure_run (Suc n) es"
    then show ?thesis unfolding failure_run_def by (metis append.assoc)
  next
    assume "is_failure e \<and> n \<le> trailing_failures es"
    then obtain a fs where "es = a @ fs" "length fs = n" "list_all is_failure fs" "is_failure e"
      unfolding trailing_failures_ge by blast
    then show ?thesis
      unfolding failure_run_def by (intro exI [of _ a] exI [of _ "fs @ [e]"] exI [of _ "[]"]) simp
  qed
qed

text \<open>Fed with outcomes only, a new breaker opens at the first run of failures of the length of the threshold.\<close>

lemma outcomes_state:
  fixes c :: breaker_config and tag :: string
  assumes "list_all is_outcome es"
  defines "m \<equiv> max 1 (unat (failure_threshold c))"
  defines "b \<equiv> fold breaker_do es (breaker_new tag c)"
  shows "cb_config b = c \<and> (if failure_run m es then cb_state b = Open
     else cb_state b = Closed \<and> cb_failure_count b = trailing_failures es)"
  using assms(1) unfolding b_def
proof (induction es rule: rev_induct)
  case Nil
  have "\<not> failure_run m []" by (simp add: failure_run_def m_def)
  then show ?case by (simp add: breaker_new_def trailing_failures_def)
next
  case (snoc e es)
  obtain n where n: "m = Suc n" by (cases m) (auto simp: m_def)
  let ?b = "fold breaker_do es (breaker_new tag c)"
  have IH: "cb_config ?b = c" "failure_run m es \<Longrightarrow> cb_state ?b = Open"
    "\<not> failure_run m es \<Longrightarrow> cb_state ?b = Closed \<and> cb_failure_count ?b = trailing_failures es"
    using snoc by auto
  have thr: "unat (failure_threshold c) \<le> Suc k \<longleftrightarrow> n \<le> k" for k
    using n by (auto simp: m_def max_def split: if_splits)
  consider (f) t where "e = Failure t" | (s) "e = Success"
    using snoc.prems by (cases e) auto
  then show ?case
  proof cases
    case f
    then have "trailing_failures (es @ [e]) = Suc (trailing_failures es)"
      by (simp add: trailing_failures_def)
    with f IH show ?thesis
      by (cases "failure_run m es") (auto simp: n failure_run_snoc record_failure_def Let_def thr split: if_splits)
  next
    case s
    then have "trailing_failures (es @ [e]) = 0"
      by (simp add: trailing_failures_def)
    with s IH show ?thesis
      by (cases "failure_run m es") (auto simp: n failure_run_snoc record_success_def)
  qed
qed

section \<open>Properties\<close>

text \<open>C24. Fed with the outcomes of requests, a new breaker is open exactly if somewhere among them there were
  as many failures in a row as its threshold asks for (one, if that is zero).\<close>

theorem breaker_opens_on_failure_run:
  assumes "list_all is_outcome es"
  shows "cb_state (fold breaker_do es (breaker_new tag c)) = Open \<longleftrightarrow>
    failure_run (max 1 (unat (failure_threshold c))) es"
  using outcomes_state [OF assms, of tag c] by (auto split: if_splits)

theorem breaker_opens_on_failure_run_witness:
  "cb_state (fold breaker_do [Failure 1, Success, Failure 2, Failure 3]
     (breaker_new ''a'' (breaker_config_default\<lparr>failure_threshold := 2\<rparr>))) = Open \<and>
   failure_run (Suc (Suc 0)) [Failure 1, Success, Failure 2, Failure 3]"
proof -
  have "cb_state (fold breaker_do [Failure 1, Success, Failure 2, Failure 3]
     (breaker_new ''a'' (breaker_config_default\<lparr>failure_threshold := 2\<rparr>))) = Open"
    by (simp add: breaker_new_def record_failure_def record_success_def)
  then show ?thesis
    using breaker_opens_on_failure_run [of "[Failure 1, Success, Failure 2, Failure 3]" "''a''"
        "breaker_config_default\<lparr>failure_threshold := 2\<rparr>"] by simp
qed

text \<open>C25. No history blocks an outbound for ever: after any sequence of operations there is a time from which on
  every request is admitted, and while the breaker is open that is exactly the time
  \<^verbatim>\<open>open_duration\<close> after the failure that opened it.\<close>

theorem breaker_never_stuck:
  "\<exists>t. \<forall>now. fst (allow_request now (fold breaker_do ops (breaker_new tag c))) =
     (if cb_state (fold breaker_do ops (breaker_new tag c)) = Open then now - t \<ge> open_duration c else True)"
proof -
  let ?b = "fold breaker_do ops (breaker_new tag c)"
  have inv: "breaker_inv c ?b"
    by (rule breaker_ops.run_inv [OF breaker_new_inv])
  show ?thesis
  proof (cases "cb_state ?b")
    case Open
    with inv obtain t where "cb_last_failure_time ?b = Some t" "cb_config ?b = c"
      by (auto simp: breaker_inv_def)
    with Open have "fst (allow_request now ?b) \<longleftrightarrow> now - t \<ge> open_duration c" for now
      by (simp add: allow_request_def)
    with Open show ?thesis by auto
  qed (auto simp: allow_request_def)
qed

text \<open>C26. The retry loop returns the first success among the attempts 0 to \<^verbatim>\<open>max_retries\<close>, or else the error
  of the last attempt; before each attempt but the first it pauses once, for the delay of the attempt that
  failed, and no pause exceeds the maximal delay by more than the jitter of a quarter.\<close>

theorem retry_first_success:
  "retry_with_backoff p f = (f k, map (delay_for p) [0 ..< k]) \<and>
     (\<forall>d \<in> set (snd (retry_with_backoff p f)). d \<le> max_delay p + max_delay p div 4)"
  if "k \<le> max_retries p" and "\<forall>i < k. \<not> is_ok (f i)" and "is_ok (f k) \<or> k = max_retries p"
proof -
  have "(LEAST i. i = max_retries p \<or> is_ok (f (0 + i))) = k"
    using that by (intro Least_equality) (auto simp: not_less [symmetric])
  then have "retry_with_backoff p f = (f k, map (delay_for p) [0 ..< k])"
    by (simp add: retry_with_backoff_def retry_from_spec Let_def)
  then show ?thesis
    using delay_for_le [of p] by auto
qed

theorem retry_first_success_witness:
  "retry_with_backoff retry_policy_default (\<lambda>i. if i = 1 then Inr ''ok'' else Inl ''down'') =
     (Inr ''ok'', [delay_for retry_policy_default 0])"
  using retry_first_success [of 1 retry_policy_default "\<lambda>i. if i = 1 then Inr ''ok'' else Inl ''down''"]
  by (simp add: retry_policy_default_def)

end
