(* ===== verification/ProxyGroups.thy ===== *)
theory ProxyGroups
  imports Router
begin

text \<open>
  Proxy groups, \<^verbatim>\<open>src/src/proxy/group/\<close>: the builder and the nesting check, and how each kind of group
  chooses one of its proxies: manual selection, lowest latency with a tolerance, first available, load balancing,
  sticky.  A group is parametric in the type of its proxies.  The health checker is the map of its last
  measurements; its task replaces the map as a whole.  The hash of a string by the standard library's default
  hasher, whose algorithm is not specified, is a parameter.
\<close>

section \<open>Definitions\<close>

subsection \<open>Selection by hand and by health\<close>

record 'h selector_group =
  sg_name :: string
  sg_proxies :: "'h list"
  sg_proxy_names :: "string list"
  sg_selected :: nat

definition selector_new :: "string \<Rightarrow> 'h list \<Rightarrow> string list \<Rightarrow> 'h selector_group" where
  "selector_new name ps ns = \<lparr>sg_name = name, sg_proxies = ps, sg_proxy_names = ns, sg_selected = 0\<rparr>"

fun position_of :: "'a \<Rightarrow> 'a list \<Rightarrow> nat option" where
  "position_of x [] = None"
| "position_of x (y # ys) = (if y = x then Some 0 else map_option Suc (position_of x ys))"

definition selector_select :: "string \<Rightarrow> 'h selector_group \<Rightarrow> bool \<times> 'h selector_group" where
  "selector_select name g =
     (case position_of name (sg_proxy_names g) of
        Some i \<Rightarrow> (True, g\<lparr>sg_selected := i\<rparr>)
      | None \<Rightarrow> (False, g))"

definition selector_selected_name :: "'h selector_group \<Rightarrow> string" where
  "selector_selected_name g = sg_proxy_names g ! sg_selected g"

definition selector_connect :: "'h selector_group \<Rightarrow> 'h" where
  "selector_connect g = sg_proxies g ! sg_selected g"

text \<open>The health checker: \<^verbatim>\<open>None\<close> for a proxy that was tested and did not answer.  One round tests every proxy;
  \<^verbatim>\<open>test\<close> is the measurement of one proxy, as \<^verbatim>\<open>test_proxy\<close> performs it over the network.\<close>

type_synonym latency_map = "(string, u64 option) hashmap"

definition check_all :: "('h \<Rightarrow> u64 option) \<Rightarrow> 'h list \<Rightarrow> string list \<Rightarrow> latency_map" where
  "check_all test ps ns = fold (\<lambda>(p, n) m. hm_insert n (test p) m) (zip ps ns) []"

definition test_single :: "('h \<Rightarrow> u64 option) \<Rightarrow> 'h list \<Rightarrow> string list \<Rightarrow> string \<Rightarrow> u64 option" where
  "test_single test ps ns name =
     (case position_of name ns of Some i \<Rightarrow> test (ps ! i) | None \<Rightarrow> None)"

definition latency_of :: "latency_map \<Rightarrow> string \<Rightarrow> u64 option" where
  "latency_of m n = (case hm_get m n of Some l \<Rightarrow> l | None \<Rightarrow> None)"

record 'h urltest_group =
  ug_name :: string
  ug_proxies :: "'h list"
  ug_proxy_names :: "string list"
  ug_selected :: nat
  ug_tolerance :: u64

definition urltest_new :: "string \<Rightarrow> 'h list \<Rightarrow> string list \<Rightarrow> u64 \<Rightarrow> 'h urltest_group" where
  "urltest_new name ps ns tol =
     \<lparr>ug_name = name, ug_proxies = ps, ug_proxy_names = ns, ug_selected = 0, ug_tolerance = tol\<rparr>"

text \<open>The loop over the names keeps the best index and latency; it starts with the largest 64 bit number.\<close>

fun best_proxy :: "latency_map \<Rightarrow> nat \<Rightarrow> string list \<Rightarrow> nat option \<Rightarrow> u64 \<Rightarrow> nat option \<times> u64" where
  "best_proxy m i [] best lat = (best, lat)"
| "best_proxy m i (n # ns) best lat =
     (case hm_get m n of
        Some (Some l) \<Rightarrow> if l < lat then best_proxy m (Suc i) ns (Some i) l else best_proxy m (Suc i) ns best lat
      | _ \<Rightarrow> best_proxy m (Suc i) ns best lat)"

definition update_selection :: "latency_map \<Rightarrow> 'h urltest_group \<Rightarrow> 'h urltest_group" where
  "update_selection m g =
     (let current_idx = ug_selected g;
          current_latency = latency_of m (ug_proxy_names g ! current_idx)
      in case best_proxy m 0 (ug_proxy_names g) None (- 1) of
           (Some best, best_latency) \<Rightarrow>
             (let should_switch = (case current_latency of
                  Some cur \<Rightarrow> cur > best_latency + ug_tolerance g
                | None \<Rightarrow> True)
              in if should_switch \<and> best \<noteq> current_idx then g\<lparr>ug_selected := best\<rparr> else g)
         | (None, _) \<Rightarrow> g)"

definition urltest_selected_name :: "latency_map \<Rightarrow> 'h urltest_group \<Rightarrow> string \<times> 'h urltest_group" where
  "urltest_selected_name m g = (let g' = update_selection m g in (ug_proxy_names g' ! ug_selected g', g'))"

definition urltest_connect :: "latency_map \<Rightarrow> 'h urltest_group \<Rightarrow> 'h \<times> 'h urltest_group" where
  "urltest_connect m g = (let g' = update_selection m g in (ug_proxies g' ! ug_selected g', g'))"

fun first_available_from :: "latency_map \<Rightarrow> nat \<Rightarrow> string list \<Rightarrow> nat" where
  "first_available_from m i [] = 0"
| "first_available_from m i (n # ns) =
     (case hm_get m n of Some (Some _) \<Rightarrow> i | _ \<Rightarrow> first_available_from m (Suc i) ns)"

definition first_available :: "latency_map \<Rightarrow> string list \<Rightarrow> nat" where
  "first_available m ns = first_available_from m 0 ns"

definition fallback_connect :: "latency_map \<Rightarrow> 'h list \<Rightarrow> string list \<Rightarrow> 'h" where
  "fallback_connect m ps ns = ps ! first_available m ns"

subsection \<open>Load balancing\<close>

datatype lb_strategy = RoundRobin | Random | ConsistentHash | Sticky

definition from_str_opt :: "string option \<Rightarrow> lb_strategy" where
  "from_str_opt s =
     (if s = Some ''random'' then Random
      else if s = Some ''consistent-hash'' \<or> s = Some ''consistent-hashing'' then ConsistentHash
      else if s = Some ''sticky'' then Sticky
      else RoundRobin)"

record 'h lb_group =
  lb_name :: string
  lb_proxies :: "'h list"
  lb_proxy_names :: "string list"
  lb_counter :: u64
  lb_strategy :: lb_strategy

definition lb_new :: "string \<Rightarrow> 'h list \<Rightarrow> string list \<Rightarrow> lb_strategy \<Rightarrow> 'h lb_group" where
  "lb_new name ps ns st =
     \<lparr>lb_name = name, lb_proxies = ps, lb_proxy_names = ns, lb_counter = 0, lb_strategy = st\<rparr>"

text \<open>One step of the jump hash.  The code divides in double precision and truncates.  The dividend is exact,
  a quotient below $2^{21}$ is at least $2^{-31}$ away from the next integer and is rounded by less than that,
  and rounding is monotone; so with at most $2^{21}$ buckets truncation is the integer quotient wherever that is
  below the number of buckets, and is not below it otherwise.\<close>

definition jump_hash_next :: "u64 \<Rightarrow> u64" where
  "jump_hash_next h = h * 2862933555777941757 + 1"

definition jump_next :: "u64 \<Rightarrow> int \<Rightarrow> int" where
  "jump_next h b = (b + 1) * 2 ^ 31 div (uint (drop_bit 33 h) + 1)"

lemma drop_33_bound: "uint (drop_bit 33 (h :: u64)) + 1 \<le> 2 ^ 31"
proof -
  have "uint (drop_bit 33 h) = uint h div 2 ^ 33"
    by (simp add: drop_bit_eq_div uint_div)
  moreover have "uint h < 2 ^ 64"
    using uint_bounded [of h] by simp
  ultimately show ?thesis by simp
qed

lemma jump_next_gt: "0 \<le> b \<Longrightarrow> b < jump_next h b"
proof -
  assume "0 \<le> b"
  have "(b + 1) * (uint (drop_bit 33 h) + 1) \<le> (b + 1) * 2 ^ 31"
    using drop_33_bound [of h] \<open>0 \<le> b\<close> by (intro mult_left_mono) auto
  moreover have "0 < uint (drop_bit 33 h) + 1"
    using uint_nonnegative [of "drop_bit 33 h"] by linarith
  ultimately have "b + 1 \<le> jump_next h b"
    unfolding jump_next_def by (metis nonzero_mult_div_cancel_right order_less_irrefl zdiv_mono1)
  then show ?thesis by simp
qed

text \<open>The loop of the jump hash; the index starts at zero and only grows, which the guard repeats so that the
  loop is total.\<close>

function jump_loop :: "int \<Rightarrow> u64 \<Rightarrow> int \<Rightarrow> int \<Rightarrow> int" where
  "jump_loop buckets h b j =
     (if 0 \<le> j \<and> j < buckets
      then jump_loop buckets (jump_hash_next h) j (jump_next (jump_hash_next h) j)
      else b)"
  by pat_completeness auto
termination
proof (relation "measure (\<lambda>(n, h, b, j). nat (n - j))", goal_cases)
  case (2 n h b j)
  then have "j < jump_next (jump_hash_next h) j" by (intro jump_next_gt) simp
  with 2 show ?case by simp
qed simp

declare jump_loop.simps [simp del]

definition consistent_hash :: "(string \<Rightarrow> u64) \<Rightarrow> string \<Rightarrow> nat \<Rightarrow> nat" where
  "consistent_hash hash key buckets = nat (jump_loop (int buckets) (hash key) (- 1) 0 mod 2 ^ 64)"

definition lb_select_index :: "(string \<Rightarrow> u64) \<Rightarrow> u64 \<Rightarrow> session \<Rightarrow> 'h lb_group \<Rightarrow> nat \<times> 'h lb_group" where
  "lb_select_index hash subsec_nanos s g =
     (let len = length (lb_proxies g); bumped = g\<lparr>lb_counter := lb_counter g + 1\<rparr> in
      if len = 0 then (0, g)
      else case lb_strategy g of
          RoundRobin \<Rightarrow> (unat (lb_counter g) mod len, bumped)
        | Random \<Rightarrow> (unat (lb_counter g + subsec_nanos) mod len, bumped)
        | ConsistentHash \<Rightarrow> (consistent_hash hash (show_address (s_target s)) len, g)
        | Sticky \<Rightarrow>
            (consistent_hash hash
               (case s_source s of Some a \<Rightarrow> show_ip (sock_ip a) | None \<Rightarrow> show_address (s_target s)) len, g))"

definition lb_connect :: "(string \<Rightarrow> u64) \<Rightarrow> u64 \<Rightarrow> session \<Rightarrow> 'h lb_group \<Rightarrow> 'h \<times> 'h lb_group" where
  "lb_connect hash subsec_nanos s g =
     (case lb_select_index hash subsec_nanos s g of (i, g') \<Rightarrow> (lb_proxies g ! i, g'))"

subsection \<open>Sticky groups and filters\<close>

record 'h sticky_group =
  st_tag :: string
  st_proxies :: "'h list"
  st_proxy_names :: "string list"
  st_map :: "(string, nat) hashmap"

definition sticky_new :: "string \<Rightarrow> 'h list \<Rightarrow> string list \<Rightarrow> 'h sticky_group" where
  "sticky_new tag ps ns = \<lparr>st_tag = tag, st_proxies = ps, st_proxy_names = ns, st_map = []\<rparr>"

definition sticky_hash :: "string \<Rightarrow> u64" where
  "sticky_hash s = fold (\<lambda>b h. h * 33 + ucast b) (as_bytes s) 5381"

definition target_key :: "session \<Rightarrow> string" where
  "target_key s = show_address (s_target s)"

text \<open>The index that \<^verbatim>\<open>connect\<close> uses; without proxies the remainder panics, which is \<^verbatim>\<open>None\<close>.\<close>

definition sticky_connect :: "session \<Rightarrow> 'h sticky_group \<Rightarrow> nat option \<times> 'h sticky_group" where
  "sticky_connect s g =
     (let key = target_key s; len = length (st_proxies g) in
      case hm_get (st_map g) key of
        Some i \<Rightarrow> let j = (if i < len then i else 0) in (if j < len then Some j else None, g)
      | None \<Rightarrow>
          (if len = 0 then (None, g)
           else let i = unat (sticky_hash key) mod len in (Some i, g\<lparr>st_map := hm_insert key i (st_map g)\<rparr>)))"

definition sticky_map_size :: "'h sticky_group \<Rightarrow> nat" where
  "sticky_map_size g = length (st_map g)"

definition clear_sticky :: "'h sticky_group \<Rightarrow> 'h sticky_group" where
  "clear_sticky g = g\<lparr>st_map := []\<rparr>"

definition filter_proxies :: "string list \<Rightarrow> string option \<Rightarrow> string option \<Rightarrow> string list" where
  "filter_proxies names include_pattern exclude_pattern =
     filter (\<lambda>n. (case include_pattern of Some p \<Rightarrow> str_contains n p | None \<Rightarrow> True) \<and>
                 (case exclude_pattern of Some p \<Rightarrow> \<not> str_contains n p | None \<Rightarrow> True)) names"

definition filter_proxies_keyword :: "string list \<Rightarrow> string list \<Rightarrow> bool \<Rightarrow> string list" where
  "filter_proxies_keyword names keywords excl =
     filter (\<lambda>n. let m = list_ex (str_contains n) keywords in if excl then \<not> m else m) names"

subsection \<open>Latency history\<close>

text \<open>The history of a latency weighted group and the average its weights are computed from.  The weights
  themselves are floating point powers and are not modelled.\<close>

record latency_sample =
  ls_timestamp_ms :: nat
  ls_latency_ms :: nat

definition record_latency ::
  "nat \<Rightarrow> nat \<Rightarrow> string \<Rightarrow> nat \<Rightarrow> (string, latency_sample list) hashmap \<Rightarrow> (string, latency_sample list) hashmap" where
  "record_latency max_history now name lat h =
     (let samples = (case hm_get h name of Some l \<Rightarrow> l | None \<Rightarrow> []) @ [\<lparr>ls_timestamp_ms = now, ls_latency_ms = lat\<rparr>]
      in hm_insert name (drop (length samples - max_history) samples) h)"

definition history_size :: "string \<Rightarrow> (string, latency_sample list) hashmap \<Rightarrow> nat" where
  "history_size name h = (case hm_get h name of Some l \<Rightarrow> length l | None \<Rightarrow> 0)"

subsection \<open>Building groups\<close>

record group_config =
  pg_name :: string
  pg_type :: string
  pg_proxies :: "string list"
  pg_url :: "string option"
  pg_interval :: u64
  pg_tolerance :: u64
  pg_strategy :: "string option"

datatype group_kind =
    KSelector
  | KUrlTest string u64 u64
  | KFallback string u64
  | KLoadBalance lb_strategy
  | KLatencyWeighted string u64
  | KSticky

datatype handler = Plain string | Group string group_kind "handler list" "string list"

datatype group_error =
    UnknownProxy string string
  | NoProxies string
  | UnsupportedType string string
  | TooDeep nat string
  | Circular string

definition default_url :: string where
  "default_url = ''http://www.gstatic.com/generate_204''"

definition kind_of :: "group_config \<Rightarrow> (group_error, group_kind) result" where
  "kind_of c =
     (let url = (case pg_url c of Some u \<Rightarrow> u | None \<Rightarrow> default_url) in
      if pg_type c = ''selector'' then Inr KSelector
      else if pg_type c = ''url-test'' then Inr (KUrlTest url (pg_interval c) (pg_tolerance c))
      else if pg_type c = ''fallback'' then Inr (KFallback url (pg_interval c))
      else if pg_type c = ''load-balance'' then Inr (KLoadBalance (from_str_opt (pg_strategy c)))
      else if pg_type c = ''latency-weighted'' then Inr (KLatencyWeighted url (pg_interval c))
      else if pg_type c = ''sticky'' then Inr KSticky
      else Inl (UnsupportedType (pg_type c) (pg_name c)))"

definition find_handler ::
  "(string, handler) hashmap \<Rightarrow> (string \<times> handler) list \<Rightarrow> string \<Rightarrow> handler option" where
  "find_handler existing built name =
     (case hm_get existing name of Some h \<Rightarrow> Some h | None \<Rightarrow> map_of built name)"

fun find_all :: "(string, handler) hashmap \<Rightarrow> (string \<times> handler) list \<Rightarrow> string \<Rightarrow> string list \<Rightarrow> (group_error, handler list) result" where
  "find_all existing built g [] = Inr []"
| "find_all existing built g (n # ns) =
     (case find_handler existing built n of
        None \<Rightarrow> Inl (UnknownProxy g n)
      | Some h \<Rightarrow> (case find_all existing built g ns of Inl e \<Rightarrow> Inl e | Inr hs \<Rightarrow> Inr (h # hs)))"

definition build_group ::
  "(string, handler) hashmap \<Rightarrow> (string \<times> handler) list \<Rightarrow> group_config \<Rightarrow> (group_error, string \<times> handler) result" where
  "build_group existing built c =
     (case find_all existing built (pg_name c) (pg_proxies c) of
        Inl e \<Rightarrow> Inl e
      | Inr hs \<Rightarrow>
          (if hs = [] then Inl (NoProxies (pg_name c))
           else case kind_of c of
               Inl e \<Rightarrow> Inl e
             | Inr k \<Rightarrow> Inr (pg_name c, Group (pg_name c) k hs (pg_proxies c))))"

fun build_from ::
  "(string, handler) hashmap \<Rightarrow> (string \<times> handler) list \<Rightarrow> group_config list \<Rightarrow> (group_error, (string \<times> handler) list) result" where
  "build_from existing built [] = Inr built"
| "build_from existing built (c # cs) =
     (case build_group existing built c of Inl e \<Rightarrow> Inl e | Inr g \<Rightarrow> build_from existing (built @ [g]) cs)"

definition build_proxy_groups ::
  "group_config list \<Rightarrow> (string, handler) hashmap \<Rightarrow> (group_error, (string \<times> handler) list) result" where
  "build_proxy_groups configs existing = build_from existing [] configs"

text \<open>The nesting check.  The depth is counted down: \<^verbatim>\<open>left\<close> is \<^verbatim>\<open>max_depth + 1 - depth\<close>, so that the code's
  test \<^verbatim>\<open>depth > max_depth\<close> is that nothing is left.  The set of visited names is extended on the way down and
  restored on the way up.\<close>

function (sequential) check_depth :: "group_config list \<Rightarrow> nat \<Rightarrow> nat \<Rightarrow> string \<Rightarrow> string list \<Rightarrow> (group_error, unit) result"
  and check_children :: "group_config list \<Rightarrow> nat \<Rightarrow> nat \<Rightarrow> string list \<Rightarrow> string list \<Rightarrow> (group_error, unit) result" where
  "check_depth cfgs max_depth 0 name visited = Inl (TooDeep max_depth name)"
| "check_depth cfgs max_depth (Suc left) name visited =
     (if name \<in> set visited then Inl (Circular name)
      else case find (\<lambda>c. pg_name c = name) cfgs of
          Some c \<Rightarrow> check_children cfgs max_depth left (pg_proxies c) (name # visited)
        | None \<Rightarrow> Inr ())"
| "check_children cfgs max_depth left [] visited = Inr ()"
| "check_children cfgs max_depth left (p # ps) visited =
     (if p \<in> pg_name ` set cfgs
      then (case check_depth cfgs max_depth left p visited of
              Inl e \<Rightarrow> Inl e
            | Inr _ \<Rightarrow> check_children cfgs max_depth left ps visited)
      else check_children cfgs max_depth left ps visited)"
  by pat_completeness auto
termination
  by (relation "inv_image (less_than <*lex*> less_than <*lex*> less_than)
    (\<lambda>x. case x of Inl (c, m, l, n, v) \<Rightarrow> (l, 0, 0) | Inr (c, m, l, ps, v) \<Rightarrow> (l, Suc 0, length ps))") auto

fun check_configs :: "group_config list \<Rightarrow> nat \<Rightarrow> string list \<Rightarrow> (group_error, unit) result" where
  "check_configs cfgs max_depth [] = Inr ()"
| "check_configs cfgs max_depth (n # ns) =
     (case check_depth cfgs max_depth (Suc max_depth) n [] of Inl e \<Rightarrow> Inl e | Inr _ \<Rightarrow> check_configs cfgs max_depth ns)"

definition validate_group_nesting :: "group_config list \<Rightarrow> nat \<Rightarrow> (group_error, unit) result" where
  "validate_group_nesting cfgs max_depth = check_configs cfgs max_depth (map pg_name cfgs)"

text \<open>The reference relation between groups that the check is about.\<close>

definition group_refs :: "group_config list \<Rightarrow> (string \<times> string) set" where
  "group_refs cfgs = {(a, b). \<exists>c. find (\<lambda>c. pg_name c = a) cfgs = Some c \<and> b \<in> set (pg_proxies c) \<and> b \<in> pg_name ` set cfgs}"

text \<open>An index of the list, counted from an offset, with a measured latency.\<close>

definition measured_at :: "latency_map \<Rightarrow> nat \<Rightarrow> string list \<Rightarrow> nat option \<Rightarrow> u64 \<Rightarrow> bool" where
  "measured_at m i ns r l \<longleftrightarrow> (\<exists>k < length ns. r = Some (i + k) \<and> latency_of m (ns ! k) = Some l)"

section \<open>Lemmas\<close>

subsection \<open>Nesting\<close>

lemma check_children_ok:
  "check_children cfgs m left ps visited = Inr () \<longleftrightarrow>
     (\<forall>p \<in> set ps. p \<in> pg_name ` set cfgs \<longrightarrow> check_depth cfgs m left p visited = Inr ())"
  by (induction ps) (auto split: sum.splits)

lemma check_depth_Suc:
  "check_depth cfgs m (Suc left) name visited = Inr () \<longleftrightarrow>
     name \<notin> set visited \<and> (\<forall>b. (name, b) \<in> group_refs cfgs \<longrightarrow> check_depth cfgs m left b (name # visited) = Inr ())"
  by (auto simp: group_refs_def check_children_ok split: option.splits)

lemma check_depth_sound:
  "check_depth cfgs m left name visited = Inr () \<Longrightarrow> (name, b) \<in> group_refs cfgs ^^ n \<Longrightarrow> n < left"
proof (induction left arbitrary: name visited n)
  case (Suc left)
  show ?case
  proof (cases n)
    case (Suc k)
    with Suc.prems(2) obtain c where c: "(name, c) \<in> group_refs cfgs" "(c, b) \<in> group_refs cfgs ^^ k"
      using relpow_Suc_D2 by metis
    with Suc.prems(1) have "check_depth cfgs m left c (name # visited) = Inr ()"
      by (simp add: check_depth_Suc del: check_depth.simps)
    with Suc.IH c(2) Suc show ?thesis by auto
  qed simp
qed simp

lemma cycle_relpow:
  assumes "(a, a) \<in> R ^^ Suc k"
  shows "(a, a) \<in> R ^^ (n * Suc k)"
proof (induction n)
  case (Suc n)
  then have "(a, a) \<in> R ^^ Suc k O R ^^ (n * Suc k)"
    using assms by blast
  then show ?case by (simp only: relpow_add mult_Suc)
qed simp

lemma check_depth_complete:
  assumes "\<And>b n. (name, b) \<in> group_refs cfgs ^^ n \<Longrightarrow> n < left"
    and "\<And>v. v \<in> set visited \<Longrightarrow> (v, name) \<in> (group_refs cfgs)\<^sup>+"
  shows "check_depth cfgs m left name visited = Inr ()"
  using assms
proof (induction left arbitrary: name visited)
  case 0
  from 0(1) [of name 0] show ?case by simp
next
  case (Suc left)
  have "name \<notin> set visited"
  proof
    assume "name \<in> set visited"
    then obtain k where "(name, name) \<in> group_refs cfgs ^^ Suc k"
      using Suc.prems(2) by (metis trancl_power Suc_pred)
    from Suc.prems(1) [OF cycle_relpow [OF this, of "Suc left"]] show False by simp
  qed
  moreover have "check_depth cfgs m left b (name # visited) = Inr ()" if b: "(name, b) \<in> group_refs cfgs" for b
  proof (rule Suc.IH)
    fix c n
    assume "(b, c) \<in> group_refs cfgs ^^ n"
    with b have "(name, c) \<in> group_refs cfgs ^^ Suc n" by (rule relpow_Suc_I2)
    from Suc.prems(1) [OF this] show "n < left" by simp
  next
    fix v
    assume "v \<in> set (name # visited)"
    with b Suc.prems(2) show "(v, b) \<in> (group_refs cfgs)\<^sup>+" by (auto intro: trancl_into_trancl)
  qed
  ultimately show ?case by (simp add: check_depth_Suc del: check_depth.simps)
qed

lemma check_configs_ok:
  "check_configs cfgs m ns = Inr () \<longleftrightarrow> (\<forall>n \<in> set ns. check_depth cfgs m (Suc m) n [] = Inr ())"
  by (induction ns) (auto split: sum.splits simp del: check_depth.simps)

subsection \<open>Jump hash\<close>

lemma jump_loop_range:
  "0 \<le> j \<Longrightarrow> b < n \<Longrightarrow> jump_loop n h b j < n \<and> (jump_loop n h b j = b \<or> j \<le> jump_loop n h b j)"
proof (induction n h b j rule: jump_loop.induct)
  case (1 n h b j)
  let ?h = "jump_hash_next h"
  show ?case
  proof (cases "j < n")
    case True
    have "j < jump_next ?h j" using 1(2) by (rule jump_next_gt)
    with 1 True show ?thesis
      by (auto simp: jump_loop.simps [of n h b j])
  qed (use 1 in \<open>auto simp: jump_loop.simps [of n h b j]\<close>)
qed

lemma jump_loop_grow:
  "0 \<le> j \<Longrightarrow> jump_loop (n + 1) h b j = jump_loop n h b j \<or> jump_loop (n + 1) h b j = n"
proof (induction n h b j rule: jump_loop.induct)
  case (1 n h b j)
  let ?h = "jump_hash_next h"
  have next_gt: "j < jump_next ?h j" using 1(2) by (rule jump_next_gt)
  consider "j < n" | "j = n" | "n + 1 \<le> j" by linarith
  then show ?case
  proof cases
    case 1
    with "1.IH" "1.prems" next_gt show ?thesis
      by (simp add: jump_loop.simps [of n h b j] jump_loop.simps [of "n + 1" h b j])
  next
    case 2
    with next_gt "1.prems" have "jump_loop (n + 1) h b j = n"
      by (simp add: jump_loop.simps [of "n + 1" h b n] jump_loop.simps [of "n + 1" ?h n])
    then show ?thesis ..
  next
    case 3
    then show ?thesis
      by (simp add: jump_loop.simps [of n h b j] jump_loop.simps [of "n + 1" h b j])
  qed
qed

lemma consistent_hash_int:
  assumes "0 < n" and "n \<le> 2 ^ 64"
  shows "int (consistent_hash hash key n) = jump_loop (int n) (hash key) (- 1) 0 \<and> consistent_hash hash key n < n"
proof -
  let ?r = "jump_loop (int n) (hash key) (- 1) 0"
  let ?h = "jump_hash_next (hash key)"
  have "?r = jump_loop (int n) ?h 0 (jump_next ?h 0)"
    using assms by (simp add: jump_loop.simps [of "int n" "hash key"])
  moreover have "0 < jump_next ?h 0" by (rule jump_next_gt) simp
  ultimately have r: "0 \<le> ?r" "?r < int n"
    using jump_loop_range [of "jump_next ?h 0" 0 "int n" ?h] assms by auto
  moreover have "int n \<le> 2 ^ 64"
    using assms(2) of_nat_le_iff [of n "2 ^ 64", where ?'a = int] by simp
  ultimately have "?r mod 2 ^ 64 = ?r"
    by (intro mod_pos_pos_trivial) auto
  with r show ?thesis
    unfolding consistent_hash_def by (simp only: int_nat_eq) (auto simp: nat_less_iff)
qed

subsection \<open>Lowest latency\<close>

lemma latency_of_Some: "latency_of m n = Some l \<longleftrightarrow> hm_get m n = Some (Some l)"
  by (auto simp: latency_of_def split: option.splits)

lemma best_proxy_Cons:
  "best_proxy m i (n # ns) best lat =
     (case latency_of m n of
        Some l \<Rightarrow> if l < lat then best_proxy m (Suc i) ns (Some i) l else best_proxy m (Suc i) ns best lat
      | None \<Rightarrow> best_proxy m (Suc i) ns best lat)"
  by (auto simp: latency_of_def split: option.splits)

declare best_proxy.simps(2) [simp del]

lemma measured_at_Cons:
  "measured_at m i (n # ns) r l \<longleftrightarrow> r = Some i \<and> latency_of m n = Some l \<or> measured_at m (Suc i) ns r l"
proof -
  have "(\<exists>k < length (n # ns). r = Some (i + k) \<and> latency_of m ((n # ns) ! k) = Some l) \<longleftrightarrow>
      r = Some i \<and> latency_of m n = Some l \<or>
      (\<exists>k < length ns. r = Some (Suc i + k) \<and> latency_of m (ns ! k) = Some l)"
    by (simp add: Ex_less_Suc2)
  then show ?thesis unfolding measured_at_def .
qed

lemma best_proxy_spec:
  assumes "best_proxy m i ns best lat = (r, l)"
  shows "(\<forall>n \<in> set ns. \<forall>x. latency_of m n = Some x \<longrightarrow> l \<le> x) \<and> l \<le> lat \<and>
    (r = best \<and> l = lat \<or> measured_at m i ns r l)"
  using assms
proof (induction ns arbitrary: i best lat)
  case (Cons n ns)
  show ?case
  proof (cases "latency_of m n")
    case None
    with Cons show ?thesis by (auto simp: best_proxy_Cons measured_at_Cons)
  next
    case (Some x)
    show ?thesis
    proof (cases "x < lat")
      case True
      with Cons.prems Some have "best_proxy m (Suc i) ns (Some i) x = (r, l)" by (simp add: best_proxy_Cons)
      from Cons.IH [OF this] Some True show ?thesis by (auto simp: measured_at_Cons)
    next
      case False
      with Cons.prems Some have "best_proxy m (Suc i) ns best lat = (r, l)" by (simp add: best_proxy_Cons)
      from Cons.IH [OF this] Some False show ?thesis by (auto simp: measured_at_Cons)
    qed
  qed
qed simp

lemma urltest_update:
  assumes "ug_selected g < length (ug_proxy_names g)"
    and "k < length (ug_proxy_names g)" and x: "latency_of m (ug_proxy_names g ! k) = Some x" and "x \<noteq> - 1"
  obtains best l where "measured_at m 0 (ug_proxy_names g) (Some best) l"
    and "\<forall>n \<in> set (ug_proxy_names g). \<forall>y. latency_of m n = Some y \<longrightarrow> l \<le> y"
    and "update_selection m g =
      (if (case latency_of m (ug_proxy_names g ! ug_selected g) of Some cur \<Rightarrow> cur > l + ug_tolerance g | None \<Rightarrow> True)
       then g\<lparr>ug_selected := best\<rparr> else g)"
proof -
  obtain r l where b: "best_proxy m 0 (ug_proxy_names g) None (- 1) = (r, l)" by fastforce
  note spec = best_proxy_spec [OF b]
  have "l \<le> x" using spec x assms(2) nth_mem by blast
  then have "l \<noteq> - 1" using \<open>x \<noteq> - 1\<close> by (metis word_order.extremum_uniqueI)
  with spec have m: "measured_at m 0 (ug_proxy_names g) r l" by blast
  then obtain best where r: "r = Some best" by (auto simp: measured_at_def)
  have "update_selection m g =
      (if (case latency_of m (ug_proxy_names g ! ug_selected g) of Some cur \<Rightarrow> cur > l + ug_tolerance g | None \<Rightarrow> True)
       then g\<lparr>ug_selected := best\<rparr> else g)"
    using b r by (auto simp: update_selection_def Let_def)
  with that m r spec show ?thesis by blast
qed

lemma word_add_le:
  assumes "(c :: u64) \<le> l + t" and "unat l + unat t < 2 ^ 64"
  shows "unat c \<le> unat l + unat t"
  using assms by (simp add: word_le_nat_alt unat_word_ariths)

subsection \<open>Sticky groups\<close>

lemma sticky_connect_index:
  "sticky_connect s g = (Some i, g') \<Longrightarrow> i < length (st_proxies g) \<and> st_proxies g' = st_proxies g"
  by (auto simp: sticky_connect_def Let_def split: option.splits if_splits)

text \<open>A target keeps its proxy until the map is cleared, whatever other targets are connected to in between.\<close>

lemma sticky_connect_keeps:
  assumes "hm_get (st_map g) k = Some i" and "sticky_connect s g = (r, g')"
  shows "hm_get (st_map g') k = Some i"
  using assms by (auto simp: sticky_connect_def Let_def split: option.splits if_splits)

lemma sticky_run_keeps:
  assumes "hm_get (st_map g) k = Some i"
  shows "hm_get (st_map (fold (\<lambda>s g. snd (sticky_connect s g)) ss g)) k = Some i \<and>
    st_proxies (fold (\<lambda>s g. snd (sticky_connect s g)) ss g) = st_proxies g"
  using assms
proof (induction ss arbitrary: g)
  case (Cons s ss)
  obtain r g' where c: "sticky_connect s g = (r, g')" by fastforce
  have "st_proxies g' = st_proxies g"
    using c by (auto simp: sticky_connect_def Let_def split: option.splits if_splits)
  with Cons.IH [OF sticky_connect_keeps [OF Cons.prems c]] c show ?case by simp
qed simp

lemma sticky_stable:
  assumes "sticky_connect s g = (Some i, g')" and "target_key s' = target_key s"
  shows "fst (sticky_connect s' (fold (\<lambda>s g. snd (sticky_connect s g)) ss g')) = Some i"
proof -
  from assms(1) obtain j where j: "hm_get (st_map g') (target_key s) = Some j"
    "(if j < length (st_proxies g') then j else 0) = i" "i < length (st_proxies g')"
    by (auto simp: sticky_connect_def Let_def split: option.splits if_splits)
  with sticky_run_keeps [OF j(1), of ss] assms(2) show ?thesis
    by (simp add: sticky_connect_def Let_def)
qed

subsection \<open>Building\<close>

lemma find_all_ok:
  "find_all existing built g ns = Inr hs \<longleftrightarrow> map (find_handler existing built) ns = map Some hs"
proof (induction ns arbitrary: hs)
  case (Cons n ns)
  then show ?case
    by (cases hs; cases "find_handler existing built n"; cases "find_all existing built g ns") auto
qed auto

lemma find_all_length: "find_all existing built g ns = Inr hs \<Longrightarrow> length hs = length ns"
  by (metis find_all_ok length_map)

lemma build_group_ok:
  "build_group existing built c = Inr e \<longleftrightarrow>
     (\<exists>hs k. map (find_handler existing built) (pg_proxies c) = map Some hs \<and> hs \<noteq> [] \<and> kind_of c = Inr k \<and>
        e = (pg_name c, Group (pg_name c) k hs (pg_proxies c)))"
  unfolding find_all_ok [where g = "pg_name c", symmetric] by (auto simp: build_group_def split: sum.splits)

lemma build_from_ok:
  "build_from existing built cs = Inr gs \<longleftrightarrow>
     length gs = length built + length cs \<and> take (length built) gs = built \<and>
     (\<forall>i < length cs. build_group existing (take (length built + i) gs) (cs ! i) = Inr (gs ! (length built + i)))"
proof (induction cs arbitrary: built)
  case Nil
  show ?case by auto
next
  case (Cons c cs)
  have take: "take (Suc (length built)) gs = built @ [g] \<longleftrightarrow> take (length built) gs = built \<and> gs ! length built = g"
    if "length built < length gs" for g
    using that by (auto simp: take_Suc_conv_app_nth)
  show ?case
  proof (cases "build_group existing built c")
    case (Inl e)
    then show ?thesis by (auto simp: All_less_Suc2)
  next
    case (Inr g)
    then show ?thesis
      using take [of g] by (auto simp: Cons.IH All_less_Suc2)
  qed
qed

definition sample_group :: "string \<Rightarrow> string list \<Rightarrow> group_config" where
  "sample_group name ps = \<lparr>pg_name = name, pg_type = ''selector'', pg_proxies = ps, pg_url = None,
     pg_interval = 300, pg_tolerance = 150, pg_strategy = None\<rparr>"

definition sample_urltest :: "nat urltest_group" where
  "sample_urltest = urltest_new ''auto'' [1, 2] [''a'', ''b''] 50"

section \<open>Properties\<close>

text \<open>C22. The nesting check accepts a configuration exactly if no chain of references from group to group is
  longer than the maximal depth; so an accepted configuration has no cycle.\<close>

theorem nesting_check_exact:
  "validate_group_nesting cfgs max_depth = Inr () \<longleftrightarrow>
     (\<forall>a b n. a \<in> pg_name ` set cfgs \<and> (a, b) \<in> group_refs cfgs ^^ n \<longrightarrow> n \<le> max_depth)"
proof -
  have "validate_group_nesting cfgs max_depth = Inr () \<longleftrightarrow>
      (\<forall>a \<in> pg_name ` set cfgs. check_depth cfgs max_depth (Suc max_depth) a [] = Inr ())"
    by (simp add: validate_group_nesting_def check_configs_ok del: check_depth.simps)
  also have "\<dots> \<longleftrightarrow> (\<forall>a \<in> pg_name ` set cfgs. \<forall>b n. (a, b) \<in> group_refs cfgs ^^ n \<longrightarrow> n < Suc max_depth)"
    using check_depth_sound [of cfgs max_depth "Suc max_depth" _ "[]"] check_depth_complete [of _ cfgs "Suc max_depth" "[]" max_depth]
    by (auto simp del: check_depth.simps)
  finally show ?thesis by (auto simp: less_Suc_eq_le)
qed

theorem nesting_check_exact_witness:
  "(''a'', ''b'') \<in> group_refs [sample_group ''a'' [''b''], sample_group ''b'' [''direct'']] ^^ 1 \<and>
   (''a'', ''b'') \<notin> group_refs [sample_group ''a'' [''b''], sample_group ''b'' [''direct'']] ^^ 2"
proof -
  have "validate_group_nesting [sample_group ''a'' [''b''], sample_group ''b'' [''direct'']] 1 = Inr ()"
    by (simp add: validate_group_nesting_def sample_group_def)
  with nesting_check_exact [of "[sample_group ''a'' [''b''], sample_group ''b'' [''direct'']]" 1]
  have "''a'' \<in> pg_name ` set [sample_group ''a'' [''b''], sample_group ''b'' [''direct'']] \<and>
      (''a'', ''b'') \<in> group_refs [sample_group ''a'' [''b''], sample_group ''b'' [''direct'']] ^^ 2 \<longrightarrow> 2 \<le> (1 :: nat)"
    by blast
  then have "(''a'', ''b'') \<notin> group_refs [sample_group ''a'' [''b''], sample_group ''b'' [''direct'']] ^^ 2"
    by (simp add: sample_group_def)
  moreover have "(''a'', ''b'') \<in> group_refs [sample_group ''a'' [''b''], sample_group ''b'' [''direct'']] ^^ 1"
    by (simp add: group_refs_def sample_group_def)
  ultimately show ?thesis by blast
qed

text \<open>C23. The jump hash names one of the buckets, and adding a bucket moves a key only to the new one: the keys
  that do not move to the new proxy keep theirs.\<close>

theorem jump_hash_minimal_disruption:
  assumes "0 < n" and "n < 2 ^ 21"
  shows "consistent_hash hash key n < n \<and>
    consistent_hash hash key (Suc n) \<in> {consistent_hash hash key n, n}"
proof -
  have "int (consistent_hash hash key (Suc n)) = int (consistent_hash hash key n) \<or>
      int (consistent_hash hash key (Suc n)) = int n"
    using consistent_hash_int [of n hash key] consistent_hash_int [of "Suc n" hash key] assms
      jump_loop_grow [of 0 "int n" "hash key" "- 1"] by (simp add: add.commute)
  with consistent_hash_int [of n hash key] assms show ?thesis by auto
qed

theorem jump_hash_minimal_disruption_witness:
  "consistent_hash (\<lambda>s. of_nat (length s)) ''example.com:443'' 8 < 8 \<and>
   consistent_hash (\<lambda>s. of_nat (length s)) ''example.com:443'' (Suc 8)
     \<in> {consistent_hash (\<lambda>s. of_nat (length s)) ''example.com:443'' 8, 8}"
  by (rule jump_hash_minimal_disruption) simp_all

text \<open>After the selection of a lowest latency group was updated, the selected proxy has answered, and its
  latency is within the tolerance of every measured one; and the update changes the selection only away from a
  proxy that has not answered or is slower than the best by more than the tolerance.\<close>

theorem urltest_within_tolerance:
  assumes "ug_selected g < length (ug_proxy_names g)"
    and "k < length (ug_proxy_names g)" and "latency_of m (ug_proxy_names g ! k) = Some x"
    and "x \<noteq> - 1" and "unat x + unat (ug_tolerance g) < 2 ^ 64"
  shows "(\<exists>y. latency_of m (ug_proxy_names g ! ug_selected (update_selection m g)) = Some y \<and>
      unat y \<le> unat x + unat (ug_tolerance g)) \<and>
    ug_selected (update_selection m g) < length (ug_proxy_names g) \<and>
    (update_selection m g = g \<or> (case latency_of m (ug_proxy_names g ! ug_selected g) of
       None \<Rightarrow> True | Some cur \<Rightarrow> \<exists>y. latency_of m (ug_proxy_names g ! ug_selected (update_selection m g)) = Some y \<and>
         cur > y + ug_tolerance g))"
proof -
  obtain best l where b: "measured_at m 0 (ug_proxy_names g) (Some best) l"
    and le: "\<forall>n \<in> set (ug_proxy_names g). \<forall>y. latency_of m n = Some y \<longrightarrow> l \<le> y"
    and u: "update_selection m g =
      (if (case latency_of m (ug_proxy_names g ! ug_selected g) of Some cur \<Rightarrow> cur > l + ug_tolerance g | None \<Rightarrow> True)
       then g\<lparr>ug_selected := best\<rparr> else g)"
    using urltest_update [OF assms(1-4)] by blast
  have best: "best < length (ug_proxy_names g)" "latency_of m (ug_proxy_names g ! best) = Some l"
    using b by (auto simp: measured_at_def)
  have "l \<le> x" using le assms(2,3) nth_mem by blast
  then have lx: "unat l \<le> unat x" by (simp add: word_le_nat_alt)
  have "unat cur \<le> unat x + unat (ug_tolerance g)" if "\<not> cur > l + ug_tolerance g" for cur
    using word_add_le [of cur l "ug_tolerance g"] that lx assms(5) by (simp add: not_less)
  with u best lx assms(1) show ?thesis by (auto split: option.splits)
qed

theorem urltest_within_tolerance_witness:
  "\<exists>y. latency_of [(''a'', Some 300), (''b'', Some 100)]
     ([''a'', ''b''] ! ug_selected (update_selection [(''a'', Some 300), (''b'', Some 100)] sample_urltest)) = Some y \<and>
     unat y \<le> 150"
  using urltest_within_tolerance [of sample_urltest 1 "[(''a'', Some 300), (''b'', Some 100)]" 100]
  by (simp add: sample_urltest_def urltest_new_def latency_of_def hm_get_def)

text \<open>Building succeeds exactly if every group has proxies, a known type, and references only handlers given
  in advance or groups built before it; the handlers it gets are then these, in the order of its configuration.\<close>

theorem build_groups_exact:
  "build_proxy_groups cfgs existing = Inr gs \<longleftrightarrow>
     length gs = length cfgs \<and>
     (\<forall>i < length cfgs. \<exists>hs k. map (find_handler existing (take i gs)) (pg_proxies (cfgs ! i)) = map Some hs \<and> hs \<noteq> [] \<and>
        kind_of (cfgs ! i) = Inr k \<and>
        gs ! i = (pg_name (cfgs ! i), Group (pg_name (cfgs ! i)) k hs (pg_proxies (cfgs ! i))))"
  unfolding build_proxy_groups_def build_from_ok by (simp add: build_group_ok)

theorem build_groups_exact_witness:
  "build_proxy_groups [sample_group ''a'' [''direct''], sample_group ''b'' [''a'']] [(''direct'', Plain ''direct'')] =
     Inr [(''a'', Group ''a'' KSelector [Plain ''direct''] [''direct'']),
          (''b'', Group ''b'' KSelector [Group ''a'' KSelector [Plain ''direct''] [''direct'']] [''a''])]"
  unfolding build_groups_exact
  by (auto simp: sample_group_def find_handler_def hm_get_def kind_of_def less_Suc_eq)

end
