(* ===== verification/Auth.thy ===== *)
theory Auth
  imports OW_Prelude
begin

text \<open>
  Authentication of inbound users, \<^verbatim>\<open>src/src/app/auth.rs\<close>: credentials, the users registered per inbound, and
  the counters of attempts, which are 64 bits wide and wrap.
\<close>

section \<open>Definitions\<close>

datatype credential = UserPass string string | Uuid string | Password string | NoCredential

record auth_result =
  ar_success :: bool
  ar_user :: "string option"
  ar_reason :: "string option"

definition auth_ok :: "string \<Rightarrow> auth_result" where
  "auth_ok u = \<lparr>ar_success = True, ar_user = Some u, ar_reason = None\<rparr>"

definition auth_anonymous :: auth_result where
  "auth_anonymous = \<lparr>ar_success = True, ar_user = None, ar_reason = None\<rparr>"

definition auth_denied :: "string \<Rightarrow> auth_result" where
  "auth_denied r = \<lparr>ar_success = False, ar_user = None, ar_reason = Some r\<rparr>"

record user_info =
  ui_name :: string
  ui_credential :: credential
  ui_speed_limit :: "u64 option"
  ui_max_connections :: "u32 option"
  ui_enabled :: bool

record auth_stats =
  as_total_attempts :: u64
  as_success_count :: u64
  as_failure_count :: u64

definition stats_success :: "auth_stats \<Rightarrow> auth_stats" where
  "stats_success s = s\<lparr>as_total_attempts := as_total_attempts s + 1, as_success_count := as_success_count s + 1\<rparr>"

definition stats_failure :: "auth_stats \<Rightarrow> auth_stats" where
  "stats_failure s = s\<lparr>as_total_attempts := as_total_attempts s + 1, as_failure_count := as_failure_count s + 1\<rparr>"

definition stats_snapshot :: "auth_stats \<Rightarrow> u64 \<times> u64 \<times> u64" where
  "stats_snapshot s = (as_total_attempts s, as_success_count s, as_failure_count s)"

record authenticator =
  au_users :: "(string, user_info list) hashmap"
  au_stats :: auth_stats
  au_allow_anonymous :: bool

definition authenticator_new :: "bool \<Rightarrow> authenticator" where
  "authenticator_new anon = \<lparr>au_users = [],
     au_stats = \<lparr>as_total_attempts = 0, as_success_count = 0, as_failure_count = 0\<rparr>, au_allow_anonymous = anon\<rparr>"

definition register_users :: "string \<Rightarrow> user_info list \<Rightarrow> authenticator \<Rightarrow> authenticator" where
  "register_users tag us a = a\<lparr>au_users := hm_insert tag us (au_users a)\<rparr>"

fun credentials_match :: "credential \<Rightarrow> credential \<Rightarrow> bool" where
  "credentials_match (UserPass su sp) (UserPass pu pp) = (su = pu \<and> sp = pp)"
| "credentials_match (Uuid s) (Uuid p) = eq_ignore_ascii_case s p"
| "credentials_match (Password s) (Password p) = (s = p)"
| "credentials_match (Password s) (UserPass _ p) = (s = p)"
| "credentials_match _ _ = False"

fun find_user :: "credential \<Rightarrow> user_info list \<Rightarrow> user_info option" where
  "find_user c [] = None"
| "find_user c (u # us) =
     (if \<not> ui_enabled u then find_user c us
      else if credentials_match (ui_credential u) c then Some u
      else find_user c us)"

definition authenticate :: "string \<Rightarrow> credential \<Rightarrow> authenticator \<Rightarrow> auth_result \<times> authenticator" where
  "authenticate tag c a =
     (let succeeded = a\<lparr>au_stats := stats_success (au_stats a)\<rparr>; failed = a\<lparr>au_stats := stats_failure (au_stats a)\<rparr> in
      case hm_get (au_users a) tag of
        None \<Rightarrow>
          (if au_allow_anonymous a then (auth_anonymous, succeeded)
           else (auth_denied ''no users configured'', failed))
      | Some users \<Rightarrow>
          (if users = [] \<and> au_allow_anonymous a then (auth_anonymous, succeeded)
           else case find_user c users of
               Some u \<Rightarrow> (auth_ok (ui_name u), succeeded)
             | None \<Rightarrow> (auth_denied ''invalid credentials'', failed)))"

datatype auth_op = Register string "user_info list" | Authenticate string credential

fun auth_do :: "auth_op \<Rightarrow> authenticator \<Rightarrow> authenticator" where
  "auth_do (Register tag us) a = register_users tag us a"
| "auth_do (Authenticate tag c) a = snd (authenticate tag c a)"

definition stats_inv :: "authenticator \<Rightarrow> bool" where
  "stats_inv a \<longleftrightarrow> as_total_attempts (au_stats a) = as_success_count (au_stats a) + as_failure_count (au_stats a)"

definition access_granted :: "string \<Rightarrow> credential \<Rightarrow> authenticator \<Rightarrow> user_info \<Rightarrow> bool" where
  "access_granted tag c a u \<longleftrightarrow>
     (\<exists>us. hm_get (au_users a) tag = Some us \<and> u \<in> set us \<and> ui_enabled u \<and> credentials_match (ui_credential u) c)"

section \<open>Lemmas\<close>

lemma find_user_Some:
  "find_user c us = Some u \<longleftrightarrow>
     (\<exists>i < length us. us ! i = u \<and> ui_enabled u \<and> credentials_match (ui_credential u) c \<and>
        (\<forall>j < i. \<not> (ui_enabled (us ! j) \<and> credentials_match (ui_credential (us ! j)) c)))"
proof (induction us)
  case (Cons v us)
  then show ?case by (auto simp: Ex_less_Suc2 All_less_Suc2)
qed simp

lemma find_user_None:
  "find_user c us = None \<longleftrightarrow> (\<forall>u \<in> set us. \<not> (ui_enabled u \<and> credentials_match (ui_credential u) c))"
  by (induction us) auto

lemma no_credential_never_matches: "\<not> credentials_match s NoCredential" "\<not> credentials_match NoCredential p"
  by (cases s; simp) (cases p; simp)

lemma auth_do_stats: "stats_inv a \<Longrightarrow> stats_inv (auth_do x a)"
  by (cases x) (auto simp: stats_inv_def register_users_def authenticate_def stats_success_def stats_failure_def Let_def
      split: option.splits)

interpretation auth_counters: preserved auth_do stats_inv
  by unfold_locales (rule auth_do_stats)

lemma authenticate_cases:
  "fst (authenticate tag c a) =
     (if au_allow_anonymous a \<and> hm_get (au_users a) tag \<in> {None, Some []} then auth_anonymous
      else case hm_get (au_users a) tag of
          None \<Rightarrow> auth_denied ''no users configured''
        | Some us \<Rightarrow> (case find_user c us of Some u \<Rightarrow> auth_ok (ui_name u) | None \<Rightarrow> auth_denied ''invalid credentials''))"
  by (auto simp: authenticate_def Let_def split: option.splits)

lemma find_user_granted:
  assumes "hm_get (au_users a) tag = Some us"
  shows "find_user c us = Some u \<Longrightarrow> access_granted tag c a u"
    and "find_user c us = None \<longleftrightarrow> (\<nexists>u. access_granted tag c a u)"
  using assms by (auto simp: access_granted_def find_user_None find_user_Some dest: nth_mem)

definition sample_user :: user_info where
  "sample_user = \<lparr>ui_name = ''ann'', ui_credential = Password ''secret'', ui_speed_limit = None,
     ui_max_connections = None, ui_enabled = True\<rparr>"

section \<open>Properties\<close>

text \<open>C27. Access is granted exactly if the inbound has an enabled user whose credential matches, or if
  anonymous access is allowed and no users are registered for the inbound (none, or an empty list); a name that
  is returned belongs to an enabled user of that inbound whose credential matches; and over any history the
  counter of attempts is the sum of the other two.\<close>

theorem authenticate_exact:
  "ar_success (fst (authenticate tag c a)) =
     ((\<exists>u. access_granted tag c a u) \<or> (au_allow_anonymous a \<and> hm_get (au_users a) tag \<in> {None, Some []})) \<and>
   (\<forall>name. ar_user (fst (authenticate tag c a)) = Some name \<longrightarrow> (\<exists>u. access_granted tag c a u \<and> ui_name u = name)) \<and>
   stats_inv (fold auth_do ops (authenticator_new anon))"
proof -
  have "stats_inv (authenticator_new anon)"
    by (simp add: stats_inv_def authenticator_new_def)
  then have "stats_inv (fold auth_do ops (authenticator_new anon))"
    by (rule auth_counters.run_inv)
  moreover have "hm_get (au_users a) tag \<in> {None, Some []} \<Longrightarrow> \<not> access_granted tag c a u" for u
    by (auto simp: access_granted_def)
  ultimately show ?thesis
    using find_user_granted [of a tag _ c]
    by (auto simp: authenticate_cases auth_ok_def auth_denied_def auth_anonymous_def split: option.splits)
qed

theorem authenticate_exact_witness:
  "\<exists>u. access_granted ''in'' (UserPass ''x'' ''secret'') (register_users ''in'' [sample_user] (authenticator_new False)) u \<and>
     ui_name u = ''ann''"
proof -
  have "ar_user (fst (authenticate ''in'' (UserPass ''x'' ''secret'')
      (register_users ''in'' [sample_user] (authenticator_new False)))) = Some ''ann''"
    by (simp add: authenticate_def register_users_def authenticator_new_def sample_user_def auth_ok_def)
  with authenticate_exact [of "''in''" "UserPass ''x'' ''secret''" "register_users ''in'' [sample_user] (authenticator_new False)" "[]" False]
  show ?thesis by blast
qed

end
