(* ===== verification/Tracker.thy ===== *)
theory Tracker
  imports Router
begin

text \<open>
  The connection tracker, \<^verbatim>\<open>src/src/app/tracker.rs\<close>: live connections with their byte counters, totals and
  totals per outbound, statistics of routes, errors and latencies.  The counters of a connection are shared
  between the table and the guard its owner holds, so they are a store of their own, addressed by the identity of
  the connection; they outlive the entry of the table.  Counters are 64 bits wide and wrap; identities come from
  a global counter and are naturals.
\<close>

section \<open>Definitions\<close>

record connection_info =
  ci_id :: nat
  ci_target :: string
  ci_inbound_tag :: string
  ci_outbound_tag :: string
  ci_route_tag :: string
  ci_matched_rule :: string
  ci_start_time :: nat
  ci_upload :: u64
  ci_download :: u64
  ci_source :: "socket_addr option"
  ci_network :: string

record traffic_snapshot =
  ts_total_up :: u64
  ts_total_down :: u64
  ts_active_count :: nat

record outbound_traffic =
  ot_upload :: u64
  ot_download :: u64
  ot_connections :: u32

definition outbound_traffic_default :: outbound_traffic where
  "outbound_traffic_default = \<lparr>ot_upload = 0, ot_download = 0, ot_connections = 0\<rparr>"

record conn_cells =
  cc_upload :: u64
  cc_download :: u64
  cc_last_activity :: nat

record tracker =
  tk_next_id :: nat
  tk_connections :: "(nat, connection_info) hashmap"
  tk_cells :: "nat \<Rightarrow> conn_cells"
  tk_total_upload :: u64
  tk_total_download :: u64
  tk_route_stats :: "(string, u64) hashmap"
  tk_error_stats :: "(string, u64) hashmap"
  tk_latency_ring :: "nat list"
  tk_latency_capacity :: nat
  tk_outbound_traffic :: "(string, outbound_traffic) hashmap"

definition tracker_new :: tracker where
  "tracker_new = \<lparr>tk_next_id = 1, tk_connections = [],
     tk_cells = (\<lambda>_. \<lparr>cc_upload = 0, cc_download = 0, cc_last_activity = 0\<rparr>),
     tk_total_upload = 0, tk_total_download = 0, tk_route_stats = [], tk_error_stats = [],
     tk_latency_ring = [], tk_latency_capacity = 2048, tk_outbound_traffic = []\<rparr>"

definition bump :: "string \<Rightarrow> (string, u64) hashmap \<Rightarrow> (string, u64) hashmap" where
  "bump k m = hm_insert k ((case hm_get m k of Some n \<Rightarrow> n | None \<Rightarrow> 0) + 1) m"

definition record_route_hit :: "string \<Rightarrow> tracker \<Rightarrow> tracker" where
  "record_route_hit tag t = t\<lparr>tk_route_stats := bump tag (tk_route_stats t)\<rparr>"

definition record_error :: "string \<Rightarrow> tracker \<Rightarrow> tracker" where
  "record_error code t = t\<lparr>tk_error_stats := bump code (tk_error_stats t)\<rparr>"

text \<open>\<^verbatim>\<open>entry(tag).or_default()\<close> followed by an update.\<close>

definition update_outbound ::
  "string \<Rightarrow> (outbound_traffic \<Rightarrow> outbound_traffic) \<Rightarrow> (string, outbound_traffic) hashmap \<Rightarrow> (string, outbound_traffic) hashmap" where
  "update_outbound tag f m =
     hm_insert tag (f (case hm_get m tag of Some e \<Rightarrow> e | None \<Rightarrow> outbound_traffic_default)) m"

definition accumulate_outbound_traffic :: "string \<Rightarrow> u64 \<Rightarrow> u64 \<Rightarrow> tracker \<Rightarrow> tracker" where
  "accumulate_outbound_traffic tag up down t =
     t\<lparr>tk_outbound_traffic := update_outbound tag
        (\<lambda>e. e\<lparr>ot_upload := ot_upload e + up, ot_download := ot_download e + down\<rparr>) (tk_outbound_traffic t)\<rparr>"

fun network_name :: "network \<Rightarrow> string" where
  "network_name Tcp = ''tcp''"
| "network_name Udp = ''udp''"

definition track :: "nat \<Rightarrow> session \<Rightarrow> string \<Rightarrow> string \<Rightarrow> string option \<Rightarrow> tracker \<Rightarrow> nat \<times> tracker" where
  "track now s out_tag route_tag matched_rule t =
     (let i = tk_next_id t;
          info = \<lparr>ci_id = i, ci_target = show_address (s_target s), ci_inbound_tag = s_inbound_tag s,
            ci_outbound_tag = out_tag, ci_route_tag = route_tag,
            ci_matched_rule = (case matched_rule of Some r \<Rightarrow> r | None \<Rightarrow> ''MATCH''), ci_start_time = now,
            ci_upload = 0, ci_download = 0, ci_source = s_source s, ci_network = network_name (s_network s)\<rparr>;
          t1 = t\<lparr>tk_next_id := i + 1,
                 tk_cells := (tk_cells t)(i := \<lparr>cc_upload = 0, cc_download = 0, cc_last_activity = now\<rparr>),
                 tk_outbound_traffic := update_outbound out_tag
                   (\<lambda>e. e\<lparr>ot_connections := ot_connections e + 1\<rparr>) (tk_outbound_traffic t)\<rparr>;
          t2 = record_route_hit route_tag t1
      in (i, t2\<lparr>tk_connections := hm_insert i info (tk_connections t2)\<rparr>))"

text \<open>The operations of a guard work on the shared counters, whether or not the table still has the entry.\<close>

definition add_upload :: "nat \<Rightarrow> nat \<Rightarrow> u64 \<Rightarrow> tracker \<Rightarrow> tracker" where
  "add_upload now i n t =
     t\<lparr>tk_cells := (tk_cells t)(i := (tk_cells t i)\<lparr>cc_upload := cc_upload (tk_cells t i) + n, cc_last_activity := now\<rparr>)\<rparr>"

definition add_download :: "nat \<Rightarrow> nat \<Rightarrow> u64 \<Rightarrow> tracker \<Rightarrow> tracker" where
  "add_download now i n t =
     t\<lparr>tk_cells := (tk_cells t)(i := (tk_cells t i)\<lparr>cc_download := cc_download (tk_cells t i) + n, cc_last_activity := now\<rparr>)\<rparr>"

definition archive :: "nat \<times> connection_info \<Rightarrow> tracker \<Rightarrow> tracker" where
  "archive e t =
     (let up = cc_upload (tk_cells t (fst e)); down = cc_download (tk_cells t (fst e)) in
      accumulate_outbound_traffic (ci_outbound_tag (snd e)) up down
        (t\<lparr>tk_total_upload := tk_total_upload t + up, tk_total_download := tk_total_download t + down\<rparr>))"

text \<open>The end of a guard: if the lock of the table is free its entry is removed and archived.\<close>

definition guard_drop :: "bool \<Rightarrow> nat \<Rightarrow> tracker \<Rightarrow> tracker" where
  "guard_drop lock_free i t =
     (if lock_free then
        case hm_get (tk_connections t) i of
          Some info \<Rightarrow> archive (i, info) (t\<lparr>tk_connections := hm_remove i (tk_connections t)\<rparr>)
        | None \<Rightarrow> t
      else t)"

definition close_conn :: "nat \<Rightarrow> tracker \<Rightarrow> bool \<times> tracker" where
  "close_conn i t =
     (hm_get (tk_connections t) i \<noteq> None, t\<lparr>tk_connections := hm_remove i (tk_connections t)\<rparr>)"

definition is_idle :: "nat \<Rightarrow> nat \<Rightarrow> tracker \<Rightarrow> nat \<times> connection_info \<Rightarrow> bool" where
  "is_idle now max_idle t e = (now - cc_last_activity (tk_cells t (fst e)) > max_idle)"

definition close_idle :: "nat \<Rightarrow> nat \<Rightarrow> tracker \<Rightarrow> nat \<times> tracker" where
  "close_idle now max_idle t =
     (let keep = filter (\<lambda>e. \<not> is_idle now max_idle t e) (tk_connections t);
          t' = fold archive (filter (is_idle now max_idle t) (tk_connections t)) t
      in (length (tk_connections t) - length keep, t'\<lparr>tk_connections := keep\<rparr>))"

definition close_all :: "tracker \<Rightarrow> nat \<times> tracker" where
  "close_all t = (length (tk_connections t), t\<lparr>tk_connections := []\<rparr>)"

definition reset_traffic :: "tracker \<Rightarrow> tracker" where
  "reset_traffic t = t\<lparr>tk_total_upload := 0, tk_total_download := 0, tk_outbound_traffic := []\<rparr>"

definition list_connections :: "tracker \<Rightarrow> connection_info list" where
  "list_connections t =
     map (\<lambda>(i, info). info\<lparr>ci_upload := cc_upload (tk_cells t i), ci_download := cc_download (tk_cells t i)\<rparr>) (tk_connections t)"

definition snapshot :: "tracker \<Rightarrow> traffic_snapshot" where
  "snapshot t = \<lparr>ts_total_up = tk_total_upload t, ts_total_down = tk_total_download t, ts_active_count = 0\<rparr>"

definition snapshot_async :: "tracker \<Rightarrow> traffic_snapshot" where
  "snapshot_async t =
     \<lparr>ts_total_up = tk_total_upload t, ts_total_down = tk_total_download t, ts_active_count = length (tk_connections t)\<rparr>"

definition active_count_sync :: "bool \<Rightarrow> tracker \<Rightarrow> nat" where
  "active_count_sync lock_free t = (if lock_free then length (tk_connections t) else 0)"

definition record_latency_ms :: "nat \<Rightarrow> tracker \<Rightarrow> tracker" where
  "record_latency_ms l t =
     (let ring = tk_latency_ring t @ [l] in t\<lparr>tk_latency_ring := drop (length ring - tk_latency_capacity t) ring\<rparr>)"

text \<open>The index of a percentile: \<^verbatim>\<open>((len - 1) * p).round()\<close>.  For the three percentiles of the code and
  every length up to the capacity of the ring the double precision result is that of exact arithmetic, rounding
  half up.\<close>

definition percentile_index :: "nat \<Rightarrow> nat \<Rightarrow> nat \<Rightarrow> nat" where
  "percentile_index len num den = (2 * (len - 1) * num + den) div (2 * den)"

definition latency_percentiles_ms :: "tracker \<Rightarrow> (nat \<times> nat \<times> nat) option" where
  "latency_percentiles_ms t =
     (let values = sort (tk_latency_ring t); n = length values in
      if values = [] then None
      else Some (values ! percentile_index n 1 2, values ! percentile_index n 19 20, values ! percentile_index n 99 100))"

subsection \<open>Histories\<close>

datatype tracker_op =
    TTrack nat session string string "string option"
  | TUp nat nat u64
  | TDown nat nat u64
  | TDrop bool nat
  | TClose nat
  | TCloseIdle nat nat
  | TCloseAll
  | TReset
  | TError string
  | TLatency nat

fun tracker_do :: "tracker_op \<Rightarrow> tracker \<Rightarrow> tracker" where
  "tracker_do (TTrack now s ot rt r) t = snd (track now s ot rt r t)"
| "tracker_do (TUp now i n) t = add_upload now i n t"
| "tracker_do (TDown now i n) t = add_download now i n t"
| "tracker_do (TDrop lock_free i) t = guard_drop lock_free i t"
| "tracker_do (TClose i) t = snd (close_conn i t)"
| "tracker_do (TCloseIdle now m) t = snd (close_idle now m t)"
| "tracker_do TCloseAll t = snd (close_all t)"
| "tracker_do TReset t = reset_traffic t"
| "tracker_do (TError c) t = record_error c t"
| "tracker_do (TLatency l) t = record_latency_ms l t"

text \<open>The bytes in the counters of the connections of the table.\<close>

definition live_upload :: "tracker \<Rightarrow> u64" where
  "live_upload t = sum_mset (image_mset (\<lambda>e. cc_upload (tk_cells t (fst e))) (mset (tk_connections t)))"

text \<open>The upload an operation counts on a connection of the table, and the upload it makes the tracker forget.\<close>

fun counted :: "tracker_op \<Rightarrow> tracker \<Rightarrow> u64" where
  "counted (TUp _ i n) t = (if hm_get (tk_connections t) i = None then 0 else n)"
| "counted _ t = 0"

fun forgotten :: "tracker_op \<Rightarrow> tracker \<Rightarrow> u64" where
  "forgotten (TClose i) t = (if hm_get (tk_connections t) i = None then 0 else cc_upload (tk_cells t i))"
| "forgotten TCloseAll t = live_upload t"
| "forgotten TReset t = tk_total_upload t"
| "forgotten _ t = 0"

fun total_counted :: "tracker_op list \<Rightarrow> tracker \<Rightarrow> u64" where
  "total_counted [] t = 0"
| "total_counted (x # xs) t = counted x t + total_counted xs (tracker_do x t)"

fun total_forgotten :: "tracker_op list \<Rightarrow> tracker \<Rightarrow> u64" where
  "total_forgotten [] t = 0"
| "total_forgotten (x # xs) t = forgotten x t + total_forgotten xs (tracker_do x t)"

definition tracker_wf :: "tracker \<Rightarrow> bool" where
  "tracker_wf t \<longleftrightarrow> hm_wf (tk_connections t) \<and> hm_wf (tk_outbound_traffic t) \<and>
     (\<forall>i. hm_get (tk_connections t) i \<noteq> None \<longrightarrow> i < tk_next_id t)"

definition outbound_upload :: "tracker \<Rightarrow> u64" where
  "outbound_upload t = sum_mset (image_mset (\<lambda>e. ot_upload (snd e)) (mset (tk_outbound_traffic t)))"

definition outbound_download :: "tracker \<Rightarrow> u64" where
  "outbound_download t = sum_mset (image_mset (\<lambda>e. ot_download (snd e)) (mset (tk_outbound_traffic t)))"

definition totals_agree :: "tracker \<Rightarrow> bool" where
  "totals_agree t \<longleftrightarrow> tracker_wf t \<and> outbound_upload t = tk_total_upload t \<and> outbound_download t = tk_total_download t"

definition sum_up :: "tracker \<Rightarrow> (nat \<times> connection_info) multiset \<Rightarrow> u64" where
  "sum_up t es = sum_mset (image_mset (\<lambda>e. cc_upload (tk_cells t (fst e))) es)"

definition sum_down :: "tracker \<Rightarrow> (nat \<times> connection_info) multiset \<Rightarrow> u64" where
  "sum_down t es = sum_mset (image_mset (\<lambda>e. cc_download (tk_cells t (fst e))) es)"

section \<open>Lemmas\<close>

lemma sum_update_outbound:
  fixes g :: "outbound_traffic \<Rightarrow> u64"
  assumes "hm_wf m" and "\<And>e. g (f e) = g e + d" and "g outbound_traffic_default = 0"
  shows "sum_mset (image_mset (\<lambda>e. g (snd e)) (mset (update_outbound tag f m))) =
    sum_mset (image_mset (\<lambda>e. g (snd e)) (mset m)) + d"
proof (cases "hm_get m tag")
  case None
  then have "hm_remove tag m = m" by (simp add: hm_get_eq_None)
  with None assms show ?thesis
    by (simp add: update_outbound_def hm_mset_insert)
next
  case (Some e)
  with assms show ?thesis
    by (simp add: update_outbound_def hm_mset_insert hm_mset_get [OF assms(1) Some])
qed

lemma update_outbound_wf [simp]: "hm_wf m \<Longrightarrow> hm_wf (update_outbound tag f m)"
  by (simp add: update_outbound_def)

lemmas sum_defs = outbound_upload_def outbound_download_def live_upload_def

lemma archive_fields [simp]:
  "tk_connections (archive e t) = tk_connections t"
  "tk_cells (archive e t) = tk_cells t"
  "tk_next_id (archive e t) = tk_next_id t"
  "tk_total_upload (archive e t) = tk_total_upload t + cc_upload (tk_cells t (fst e))"
  "tk_total_download (archive e t) = tk_total_download t + cc_download (tk_cells t (fst e))"
  by (simp_all add: archive_def accumulate_outbound_traffic_def Let_def)

lemma archive_outbound:
  assumes "hm_wf (tk_outbound_traffic t)"
  shows "hm_wf (tk_outbound_traffic (archive e t))"
    and "outbound_upload (archive e t) = outbound_upload t + cc_upload (tk_cells t (fst e))"
    and "outbound_download (archive e t) = outbound_download t + cc_download (tk_cells t (fst e))"
  using assms
  by (simp_all add: archive_def accumulate_outbound_traffic_def Let_def outbound_upload_def outbound_download_def
      sum_update_outbound outbound_traffic_default_def)

lemma sum_up_simps [simp]:
  "sum_up t {#} = 0"
  "sum_up t (add_mset e es) = cc_upload (tk_cells t (fst e)) + sum_up t es"
  "sum_up t (es + fs) = sum_up t es + sum_up t fs"
  "sum_down t {#} = 0"
  "sum_down t (add_mset e es) = cc_download (tk_cells t (fst e)) + sum_down t es"
  by (simp_all add: sum_up_def sum_down_def)

lemma sum_up_cong: "tk_cells t = tk_cells t' \<Longrightarrow> sum_up t es = sum_up t' es"
  by (simp add: sum_up_def)

lemma live_upload_sum: "live_upload t = sum_up t (mset (tk_connections t))"
  by (simp add: live_upload_def sum_up_def)

lemma fold_archive:
  assumes "hm_wf (tk_outbound_traffic t)"
  shows "tk_connections (fold archive es t) = tk_connections t \<and> tk_cells (fold archive es t) = tk_cells t \<and>
    tk_next_id (fold archive es t) = tk_next_id t \<and> hm_wf (tk_outbound_traffic (fold archive es t)) \<and>
    tk_total_upload (fold archive es t) = tk_total_upload t + sum_up t (mset es) \<and>
    tk_total_download (fold archive es t) = tk_total_download t + sum_down t (mset es) \<and>
    outbound_upload (fold archive es t) = outbound_upload t + sum_up t (mset es) \<and>
    outbound_download (fold archive es t) = outbound_download t + sum_down t (mset es)"
  using assms
proof (induction es arbitrary: t)
  case (Cons e es)
  have "sum_up (archive e t) = sum_up t" "sum_down (archive e t) = sum_down t"
    by (simp_all add: fun_eq_iff sum_up_def sum_down_def)
  with Cons.IH [of "archive e t"] Cons.prems show ?case
    by (simp add: archive_outbound add.assoc)
qed simp

subsection \<open>Totals per outbound\<close>

lemma tracker_do_totals:
  assumes "totals_agree t"
  shows "totals_agree (tracker_do x t)"
proof -
  have wf: "hm_wf (tk_connections t)" "hm_wf (tk_outbound_traffic t)"
    "\<And>i. hm_get (tk_connections t) i \<noteq> None \<Longrightarrow> i < tk_next_id t"
    and sums: "outbound_upload t = tk_total_upload t" "outbound_download t = tk_total_download t"
    using assms by (auto simp: totals_agree_def tracker_wf_def)
  show ?thesis
  proof (cases x)
    case (TTrack now s ob rt r)
    then show ?thesis
      using wf sums
      by (auto simp: totals_agree_def tracker_wf_def track_def record_route_hit_def Let_def outbound_upload_def
          outbound_download_def sum_update_outbound [where d = 0] outbound_traffic_default_def less_Suc_eq)
  next
    case (TDrop lock_free i)
    then show ?thesis
      using wf sums archive_outbound [of "t\<lparr>tk_connections := hm_remove i (tk_connections t)\<rparr>"] assms
      by (auto simp: totals_agree_def tracker_wf_def guard_drop_def outbound_upload_def outbound_download_def
          split: option.splits)
  next
    case (TCloseIdle now m)
    then show ?thesis
      using wf sums fold_archive [OF wf(2), of "filter (is_idle now m t) (tk_connections t)"]
        hm_get_filter [OF wf(1), of "\<lambda>k v. \<not> is_idle now m t (k, v)"]
      by (auto simp: totals_agree_def tracker_wf_def close_idle_def Let_def outbound_upload_def outbound_download_def
          case_prod_unfold split: option.splits if_splits)
  qed (use wf sums in \<open>auto simp: totals_agree_def tracker_wf_def add_upload_def add_download_def close_conn_def
      close_all_def reset_traffic_def record_error_def record_latency_ms_def sum_defs Let_def split: if_splits\<close>)
qed

interpretation tracker_totals: preserved tracker_do totals_agree
  by unfold_locales (rule tracker_do_totals)

lemma tracker_new_totals: "totals_agree tracker_new"
  by (simp add: totals_agree_def tracker_wf_def tracker_new_def sum_defs)

subsection \<open>Conservation\<close>

lemma sum_up_update:
  assumes "tk_cells t' = (tk_cells t)(i := c)" and "\<And>info. (i, info) \<notin># es"
  shows "sum_up t' es = sum_up t es"
proof -
  have "fst e \<noteq> i" if "e \<in># es" for e
    using assms(2) that by (metis prod.collapse)
  then have "image_mset (\<lambda>e. cc_upload (tk_cells t' (fst e))) es = image_mset (\<lambda>e. cc_upload (tk_cells t (fst e))) es"
    using assms(1) by (intro image_mset_cong) auto
  then show ?thesis by (simp add: sum_up_def)
qed

lemma not_in_removed: "(i, info) \<notin># mset (hm_remove i m)"
  by (auto simp: hm_remove_def)

lemma live_split:
  assumes "hm_wf (tk_connections t)"
  shows "live_upload t = (if hm_get (tk_connections t) i = None then 0 else cc_upload (tk_cells t i)) +
    sum_up t (mset (hm_remove i (tk_connections t)))"
proof (cases "hm_get (tk_connections t) i")
  case None
  then show ?thesis by (simp add: live_upload_sum hm_get_eq_None)
next
  case (Some info)
  then show ?thesis by (simp add: live_upload_sum hm_mset_get [OF assms Some])
qed

lemma live_update:
  assumes "hm_wf (tk_connections t)" and "tk_connections t' = tk_connections t"
    and "tk_cells t' = (tk_cells t)(i := c)"
    and "cc_upload c = cc_upload (tk_cells t i) + n"
  shows "live_upload t' = live_upload t + (if hm_get (tk_connections t) i = None then 0 else n)"
  using live_split [OF assms(1), of i] live_split [of t' i] assms
    sum_up_update [OF assms(3) not_in_removed, of "tk_connections t"]
  by (simp add: algebra_simps)

lemma tracker_do_conserves:
  assumes "totals_agree t"
  shows "tk_total_upload (tracker_do x t) + live_upload (tracker_do x t) + forgotten x t =
    tk_total_upload t + live_upload t + counted x t"
proof -
  have wf: "hm_wf (tk_connections t)" "hm_wf (tk_outbound_traffic t)"
    and fresh: "hm_get (tk_connections t) (tk_next_id t) = None"
    using assms by (auto simp: totals_agree_def tracker_wf_def)
  show ?thesis
  proof (cases x)
    case (TTrack now s ob rt r)
    let ?t = "snd (track now s ob rt r t)"
    have t: "tk_cells ?t = (tk_cells t)(tk_next_id t := \<lparr>cc_upload = 0, cc_download = 0, cc_last_activity = now\<rparr>)"
      "\<exists>info. tk_connections ?t = hm_insert (tk_next_id t) info (tk_connections t)"
      "tk_total_upload ?t = tk_total_upload t"
      by (auto simp: track_def record_route_hit_def Let_def)
    then obtain info where "tk_connections ?t = hm_insert (tk_next_id t) info (tk_connections t)" by blast
    with wf fresh t have "live_upload ?t = live_upload t"
      using sum_up_update [OF t(1), of "mset (tk_connections t)"] not_in_removed [of "tk_next_id t" _ "tk_connections t"]
      by (simp add: live_upload_sum hm_mset_insert hm_get_eq_None)
    with t(3) TTrack show ?thesis by simp
  next
    case (TUp now i n)
    then show ?thesis
      using live_update [OF wf(1), of "add_upload now i n t" i _ n] by (simp add: add_upload_def)
  next
    case (TDown now i n)
    then show ?thesis
      using live_update [OF wf(1), of "add_download now i n t" i _ 0] by (simp add: add_download_def)
  next
    case (TDrop lock_free i)
    have "live_upload (guard_drop lock_free i t) + tk_total_upload (guard_drop lock_free i t) = live_upload t + tk_total_upload t"
    proof (cases "lock_free \<and> hm_get (tk_connections t) i \<noteq> None")
      case True
      then show ?thesis
        using live_split [OF wf(1), of i]
        by (auto simp: guard_drop_def live_upload_sum sum_up_def algebra_simps)
    qed (auto simp: guard_drop_def split: option.splits)
    with TDrop show ?thesis by (simp add: algebra_simps)
  next
    case (TClose i)
    then show ?thesis
      using live_split [OF wf(1), of i]
      by (simp add: close_conn_def live_upload_sum sum_up_def algebra_simps)
  next
    case (TCloseIdle now m)
    have "mset (tk_connections t) = mset (filter (is_idle now m t) (tk_connections t)) +
        mset (filter (\<lambda>e. \<not> is_idle now m t e) (tk_connections t))"
      by simp
    then have "live_upload t = sum_up t (mset (filter (is_idle now m t) (tk_connections t))) +
        sum_up t (mset (filter (\<lambda>e. \<not> is_idle now m t e) (tk_connections t)))"
      unfolding live_upload_sum by (metis sum_up_simps(3))
    with TCloseIdle show ?thesis
      using fold_archive [OF wf(2), of "filter (is_idle now m t) (tk_connections t)"]
      by (simp add: close_idle_def Let_def live_upload_def sum_up_def add.assoc)
  qed (simp_all add: close_all_def reset_traffic_def record_error_def record_latency_ms_def live_upload_def Let_def)
qed

lemma tracker_run_conserves:
  assumes "totals_agree t"
  shows "tk_total_upload (fold tracker_do xs t) + live_upload (fold tracker_do xs t) + total_forgotten xs t =
    tk_total_upload t + live_upload t + total_counted xs t"
  using assms
proof (induction xs arbitrary: t)
  case (Cons x xs)
  from Cons.IH [OF tracker_do_totals [OF Cons.prems, of x]] tracker_do_conserves [OF Cons.prems, of x]
  show ?case by (simp add: algebra_simps)
qed simp

section \<open>Properties\<close>

text \<open>Over any history the totals are the sums of the totals per outbound, in both directions.\<close>

theorem tracker_totals_agree:
  "outbound_upload (fold tracker_do xs tracker_new) = tk_total_upload (fold tracker_do xs tracker_new) \<and>
   outbound_download (fold tracker_do xs tracker_new) = tk_total_download (fold tracker_do xs tracker_new)"
  using tracker_totals.run_inv [OF tracker_new_totals, of xs] by (simp add: totals_agree_def)


end
