(* ===== verification/Sniff.thy ===== *)
theory Sniff
  imports Addr
begin

text \<open>
  Protocol sniffing, \<^verbatim>\<open>src/src/proxy/sniff.rs\<close>: the server name of a TLS ClientHello, the host of an HTTP
  request, the ClientHello inside a QUIC Initial packet, the classification of protocols, and the override of the
  target.  Indexing a slice panics out of range, so a parser returns \<^verbatim>\<open>None\<close> for a panic, and otherwise the
  optional result of the code.  Positions are naturals: lengths are at most 24 bits wide, and the 62 bit lengths
  of QUIC are added to positions below 2000, so no addition overflows the 64 bit \<^verbatim>\<open>usize\<close>.
\<close>

section \<open>Definitions\<close>

subsection \<open>Indexing\<close>

type_synonym 'a parse = "'a option option"

abbreviation fail :: "'a parse" where
  "fail \<equiv> Some None"

abbreviation found :: "'a \<Rightarrow> 'a parse" where
  "found x \<equiv> Some (Some x)"

text \<open>Indexing with brackets panics, \<^verbatim>\<open>get\<close> followed by a question mark returns from the function.\<close>

definition index8 :: "byte list \<Rightarrow> nat \<Rightarrow> (nat \<Rightarrow> 'a parse) \<Rightarrow> 'a parse" where
  "index8 d i k = (if i < length d then k (unat (d ! i)) else None)"

definition index16 :: "byte list \<Rightarrow> nat \<Rightarrow> (nat \<Rightarrow> 'a parse) \<Rightarrow> 'a parse" where
  "index16 d i k = index8 d i (\<lambda>a. index8 d (i + 1) (\<lambda>b. k (a * 256 + b)))"

definition index24 :: "byte list \<Rightarrow> nat \<Rightarrow> (nat \<Rightarrow> 'a parse) \<Rightarrow> 'a parse" where
  "index24 d i k = index8 d i (\<lambda>a. index16 d (i + 1) (\<lambda>b. k (a * 65536 + b)))"

definition get8 :: "byte list \<Rightarrow> nat \<Rightarrow> (nat \<Rightarrow> 'a parse) \<Rightarrow> 'a parse" where
  "get8 d i k = (if i < length d then k (unat (d ! i)) else fail)"

definition get_slice :: "byte list \<Rightarrow> nat \<Rightarrow> nat \<Rightarrow> (byte list \<Rightarrow> 'a parse) \<Rightarrow> 'a parse" where
  "get_slice d a b k = (if a \<le> b \<and> b \<le> length d then k (take (b - a) (drop a d)) else fail)"

text \<open>A slice written with brackets.\<close>

definition index_slice :: "byte list \<Rightarrow> nat \<Rightarrow> nat \<Rightarrow> (byte list \<Rightarrow> 'a parse) \<Rightarrow> 'a parse" where
  "index_slice d a b k = (if a \<le> b \<and> b \<le> length d then k (take (b - a) (drop a d)) else None)"

subsection \<open>Server names\<close>

function (sequential) sni_entries :: "byte list \<Rightarrow> nat \<Rightarrow> nat \<Rightarrow> string parse" where
  "sni_entries d pos list_end =
     (if pos + 3 \<le> list_end then
        index8 d pos (\<lambda>name_type. index16 d (pos + 1) (\<lambda>name_len.
          if name_type = 0 then
            get_slice d (pos + 3) (pos + 3 + name_len) (\<lambda>name. Some (from_utf8 name))
          else sni_entries d (pos + 3 + name_len) list_end))
      else fail)"
  by pat_completeness auto
termination by (relation "measure (\<lambda>(d, pos, e). e - pos)") auto

declare sni_entries.simps [simp del]

definition parse_sni_extension :: "byte list \<Rightarrow> string parse" where
  "parse_sni_extension d =
     (if length d < 2 then fail
      else index16 d 0 (\<lambda>list_len. if list_len + 2 > length d then fail else sni_entries d 2 (2 + list_len)))"

text \<open>The part of a ClientHello body before its extensions; the continuation gets the bounds of the
  extensions.\<close>

definition client_hello_extensions :: "byte list \<Rightarrow> (nat \<Rightarrow> nat \<Rightarrow> string parse) \<Rightarrow> string parse" where
  "client_hello_extensions body k =
     (if length body < 34 then fail
      else get8 body 34 (\<lambda>session_id_len.
        let pos = 35 + session_id_len in
        if pos + 2 > length body then fail
        else index16 body pos (\<lambda>cipher_suites_len.
          let pos = pos + 2 + cipher_suites_len in
          if pos \<ge> length body then fail
          else index8 body pos (\<lambda>compression_len.
            let pos = pos + 1 + compression_len in
            if pos + 2 > length body then fail
            else index16 body pos (\<lambda>extensions_len.
              let pos = pos + 2; extensions_end = pos + extensions_len in
              if extensions_end > length body then fail else k pos extensions_end)))))"

function (sequential) find_sni :: "byte list \<Rightarrow> nat \<Rightarrow> nat \<Rightarrow> string parse" where
  "find_sni body pos ext_end =
     (if pos + 4 \<le> ext_end then
        index16 body pos (\<lambda>ext_type. index16 body (pos + 2) (\<lambda>ext_len.
          if ext_type = 0 then get_slice body (pos + 4) (pos + 4 + ext_len) parse_sni_extension
          else find_sni body (pos + 4 + ext_len) ext_end))
      else fail)"
  by pat_completeness auto
termination by (relation "measure (\<lambda>(d, pos, e). e - pos)") auto

declare find_sni.simps [simp del]

text \<open>The fragment of a record: a handshake message that has to be a ClientHello.\<close>

definition parse_handshake :: "byte list \<Rightarrow> string parse" where
  "parse_handshake fragment =
     (if fragment = [] then fail
      else index8 fragment 0 (\<lambda>msg_type.
        if msg_type \<noteq> 1 then fail
        else if length fragment < 4 then fail
        else index24 fragment 1 (\<lambda>handshake_len.
          get_slice fragment 4 (4 + handshake_len) (\<lambda>body.
            client_hello_extensions body (find_sni body)))))"

definition parse_tls_sni :: "byte list \<Rightarrow> string parse" where
  "parse_tls_sni d =
     (if length d < 5 then fail
      else index8 d 0 (\<lambda>content_type.
        if content_type \<noteq> 0x16 then fail
        else index16 d 1 (\<lambda>version.
          if \<not> (0x0300 \<le> version \<and> version \<le> 0x0303) then fail
          else index16 d 3 (\<lambda>record_len. get_slice d 5 (5 + record_len) parse_handshake))))"

definition is_ascii_byte :: "byte \<Rightarrow> bool" where
  "is_ascii_byte b \<longleftrightarrow> unat b < 128"

definition is_ascii_alnum :: "char \<Rightarrow> bool" where
  "is_ascii_alnum c \<longleftrightarrow> is_digit c \<or> (65 \<le> (of_char c :: nat) \<and> (of_char c :: nat) \<le> 90) \<or>
     (97 \<le> (of_char c :: nat) \<and> (of_char c :: nat) \<le> 122)"

definition validate_domain_like :: "string \<Rightarrow> string option" where
  "validate_domain_like name =
     (if name = [] \<or> length name > 253 then None
      else if \<not> list_all is_ascii_byte (as_bytes name) \<or> CHR ''.'' \<notin> set name then None
      else if list_all (\<lambda>c. is_ascii_alnum c \<or> c = CHR ''.'' \<or> c = CHR ''-'') name then Some name
      else None)"

function (sequential) find_valid_sni :: "byte list \<Rightarrow> nat \<Rightarrow> nat \<Rightarrow> string parse" where
  "find_valid_sni body pos ext_end =
     (if pos + 4 \<le> ext_end then
        index16 body pos (\<lambda>ext_type. index16 body (pos + 2) (\<lambda>ext_len.
          if pos + 4 + ext_len > ext_end then fail
          else if ext_type = 0 then
            index_slice body (pos + 4) (pos + 4 + ext_len) (\<lambda>ext.
              map_option (\<lambda>r. Option.bind r validate_domain_like) (parse_sni_extension ext))
          else find_valid_sni body (pos + 4 + ext_len) ext_end))
      else fail)"
  by pat_completeness auto
termination by (relation "measure (\<lambda>(d, pos, e). e - pos)") auto

declare find_valid_sni.simps [simp del]

definition parse_client_hello_body_sni :: "byte list \<Rightarrow> string parse" where
  "parse_client_hello_body_sni body = client_hello_extensions body (find_valid_sni body)"

text \<open>The scan for a ClientHello: from a position, with the number of positions that are left.\<close>

fun scan_client_hello :: "byte list \<Rightarrow> nat \<Rightarrow> nat \<Rightarrow> string parse" where
  "scan_client_hello d i 0 = fail"
| "scan_client_hello d i (Suc left) =
     index8 d i (\<lambda>b.
       if b \<noteq> 1 then scan_client_hello d (Suc i) left
       else index24 d (i + 1) (\<lambda>hs_len.
         if hs_len < 40 then scan_client_hello d (Suc i) left
         else if i + 4 + hs_len \<le> length d then
           (case parse_client_hello_body_sni (take hs_len (drop (i + 4) d)) of
              None \<Rightarrow> None
            | Some (Some name) \<Rightarrow> found name
            | Some None \<Rightarrow> scan_client_hello d (Suc i) left)
         else scan_client_hello d (Suc i) left))"

definition find_client_hello_sni :: "byte list \<Rightarrow> string parse" where
  "find_client_hello_sni d = scan_client_hello d 0 (min (length d) 1200 - 4)"

subsection \<open>HTTP\<close>

definition http_methods :: "string list" where
  "http_methods = [''GET '', ''POST '', ''PUT '', ''HEAD '', ''DELETE '', ''OPTIONS '', ''PATCH '', ''CONNECT '']"

definition bytes_start_with :: "string \<Rightarrow> byte list \<Rightarrow> bool" where
  "bytes_start_with p d = (take (length p) d = as_bytes p)"

definition is_http_request :: "byte list \<Rightarrow> bool" where
  "is_http_request d = list_ex (\<lambda>m. bytes_start_with m d) http_methods"

text \<open>\<^verbatim>\<open>rsplit_once\<close> at the last colon.\<close>

definition rsplit_colon :: "string \<Rightarrow> (string \<times> string) option" where
  "rsplit_colon s = map_option (\<lambda>(a, b). (rev b, rev a)) (split_once (CHR '':'') (rev s))"

definition host_of_value :: "string \<Rightarrow> string" where
  "host_of_value v =
     (let h = trim v in
      case rsplit_colon h of
        Some (name, p) \<Rightarrow> if list_all is_digit p then name else h
      | None \<Rightarrow> h)"

fun http_host_lines :: "string list \<Rightarrow> string option" where
  "http_host_lines [] = None"
| "http_host_lines (l # ls) =
     (case (case strip_prefix l ''Host:'' of Some v \<Rightarrow> Some v | None \<Rightarrow> strip_prefix l ''host:'') of
        Some v \<Rightarrow> if host_of_value v \<noteq> [] then Some (host_of_value v) else http_host_lines ls
      | None \<Rightarrow> http_host_lines ls)"

definition parse_http_host :: "byte list \<Rightarrow> string option" where
  "parse_http_host d =
     (if \<not> is_http_request d then None
      else Option.bind (from_utf8 d) (\<lambda>text. http_host_lines (str_lines text)))"

subsection \<open>QUIC\<close>

definition is_quic_initial :: "byte list \<Rightarrow> bool" where
  "is_quic_initial d =
     (if length d < 6 then False
      else let first = d ! 0 in
        if \<not> (first AND 0x80 \<noteq> 0) \<or> drop_bit 4 first AND 0x03 \<noteq> 0 then False
        else take 4 (drop 1 d) \<noteq> [0, 0, 0, 0])"

definition parse_quic_varint :: "byte list \<Rightarrow> (nat \<times> nat) option" where
  "parse_quic_varint d =
     (case d of
        [] \<Rightarrow> None
      | first # _ \<Rightarrow>
          (let len = 2 ^ unat (drop_bit 6 first) in
           if len \<le> length d
           then Some (fold (\<lambda>b v. v * 256 + unat b) (take (len - 1) (drop 1 d)) (unat (first AND 0x3f)), len)
           else None))"

definition parse_quic_initial_payload :: "byte list \<Rightarrow> byte list parse" where
  "parse_quic_initial_payload d =
     (if \<not> is_quic_initial d then fail
      else get8 d 5 (\<lambda>dcid_len.
        let pos = 6 + dcid_len in
        get8 d pos (\<lambda>scid_len.
          let pos = pos + 1 + scid_len in
          if pos > length d then fail
          else case parse_quic_varint (drop pos d) of
              None \<Rightarrow> fail
            | Some (token_len, n) \<Rightarrow>
                (let pos = pos + n + token_len in
                 if pos > length d then fail
                 else case parse_quic_varint (drop pos d) of
                     None \<Rightarrow> fail
                   | Some (payload_len, n) \<Rightarrow>
                       index8 d 0 (\<lambda>first.
                         let pn_len = first mod 4 + 1; pos = pos + n + pn_len in
                         get_slice d pos (pos + (payload_len - pn_len)) found)))))"

definition parse_quic_sni :: "byte list \<Rightarrow> string parse" where
  "parse_quic_sni d =
     (let scan = take (min (length d) 1400) d in
      if \<not> is_quic_initial scan then fail
      else case parse_quic_initial_payload scan of
          None \<Rightarrow> None
        | Some (Some payload) \<Rightarrow>
            (case find_client_hello_sni payload of
               Some None \<Rightarrow> find_client_hello_sni scan
             | r \<Rightarrow> r)
        | Some None \<Rightarrow> find_client_hello_sni scan)"

definition sniff :: "byte list \<Rightarrow> string parse" where
  "sniff d =
     (case parse_tls_sni d of
        None \<Rightarrow> None
      | Some (Some name) \<Rightarrow> found name
      | Some None \<Rightarrow>
          (case parse_http_host d of
             Some name \<Rightarrow> found name
           | None \<Rightarrow> parse_quic_sni d))"

subsection \<open>Classification\<close>

definition is_bittorrent :: "byte list \<Rightarrow> bool" where
  "is_bittorrent d =
     (if length d \<ge> 20 \<and> d ! 0 = 19 \<and> take 19 (drop 1 d) = as_bytes ''BitTorrent protocol'' then True
      else length d \<ge> 4 \<and> bytes_start_with ''d1:'' d)"

definition is_stun :: "byte list \<Rightarrow> bool" where
  "is_stun d =
     (if length d < 20 then False
      else if d ! 0 AND 0xC0 \<noteq> 0 then False
      else take 4 (drop 4 d) = [0x21, 0x12, 0xA4, 0x42])"

definition is_dtls :: "byte list \<Rightarrow> bool" where
  "is_dtls d =
     (if length d < 13 then False
      else if d ! 0 \<noteq> 0x16 then False
      else take 2 (drop 1 d) = [0xFE, 0xFF] \<or> take 2 (drop 1 d) = [0xFE, 0xFD])"

fun split_byte :: "byte \<Rightarrow> byte list \<Rightarrow> (byte list \<times> byte list) option" where
  "split_byte x [] = None"
| "split_byte x (b # bs) = (if b = x then Some ([], bs) else map_option (\<lambda>(l, r). (b # l, r)) (split_byte x bs))"

definition strip_cr_byte :: "byte list \<Rightarrow> byte list" where
  "strip_cr_byte l = (if l \<noteq> [] \<and> last l = 13 then butlast l else l)"

definition is_ssh :: "byte list \<Rightarrow> bool" where
  "is_ssh d =
     (if \<not> bytes_start_with ''SSH-'' d then False
      else case split_byte 10 (take (min (length d) 255) d) of
          None \<Rightarrow> False
        | Some (l, _) \<Rightarrow>
            (let line = strip_cr_byte l in
             if length line < 9 then False
             else if \<not> bytes_start_with ''SSH-'' line then False
             else case split_byte 45 (drop 4 line) of
                 None \<Rightarrow> False
               | Some (proto, software) \<Rightarrow>
                   (proto = as_bytes ''2.0'' \<or> proto = as_bytes ''1.99'') \<and> software \<noteq> [] \<and>
                   list_all (\<lambda>b. is_ascii_byte b \<and> \<not> (unat b < 32 \<or> unat b = 127)) software))"

definition is_ntp :: "byte list \<Rightarrow> bool" where
  "is_ntp d =
     (if length d < 48 then False
      else let version = unat (drop_bit 3 (d ! 0)) mod 8; mode = unat (d ! 0) mod 8 in
        (version = 3 \<or> version = 4) \<and> 1 \<le> mode \<and> mode \<le> 5)"

definition NTP_UNIX_OFFSET :: nat where
  "NTP_UNIX_OFFSET = 2208988800"

text \<open>The fraction is returned as its numerator over $2^{32}$, which the code converts to a double exactly.\<close>

definition parse_ntp_timestamp :: "byte list \<Rightarrow> (nat \<times> nat) option" where
  "parse_ntp_timestamp d =
     (if length d < 48 \<or> \<not> is_ntp d then None
      else let mode = unat (d ! 0) mod 8 in
        if mode \<noteq> 4 \<and> mode \<noteq> 5 then None
        else let seconds = fold (\<lambda>b v. v * 256 + unat b) (take 4 (drop 40 d)) 0;
                 fraction = fold (\<lambda>b v. v * 256 + unat b) (take 4 (drop 44 d)) 0 in
          if seconds = 0 then None
          else if seconds < NTP_UNIX_OFFSET then None
          else Some (seconds - NTP_UNIX_OFFSET, fraction))"

definition detect_protocol :: "byte list \<Rightarrow> string option" where
  "detect_protocol d =
     (if is_dtls d then Some ''dtls''
      else if length d \<ge> 5 \<and> d ! 0 = 0x16 then Some ''tls''
      else if is_http_request d then Some ''http''
      else if is_bittorrent d then Some ''bittorrent''
      else if is_stun d then Some ''stun''
      else if is_quic_initial d then Some ''quic''
      else if is_ssh d then Some ''ssh''
      else if is_ntp d then Some ''ntp''
      else None)"

subsection \<open>Override of the target\<close>

datatype override_strategy = Full | DomainOnly | PortOnly | RouteOnly

definition strategy_from_str :: "string \<Rightarrow> override_strategy" where
  "strategy_from_str s =
     (if s = ''full'' \<or> s = ''override'' then Full
      else if s = ''domain-only'' \<or> s = ''domain'' then DomainOnly
      else if s = ''port-only'' \<or> s = ''port'' then PortOnly
      else if s = ''route-only'' \<or> s = ''route'' \<or> s = ''none'' then RouteOnly
      else Full)"

fun strategy_as_str :: "override_strategy \<Rightarrow> string" where
  "strategy_as_str Full = ''full''"
| "strategy_as_str DomainOnly = ''domain-only''"
| "strategy_as_str PortOnly = ''port-only''"
| "strategy_as_str RouteOnly = ''route-only''"

record sniff_result =
  sr_domain :: "string option"
  sr_protocol :: "string option"
  sr_inferred_port :: "u16 option"

definition inferred_port_of :: "string \<Rightarrow> u16 option" where
  "inferred_port_of p =
     (if p = ''tls'' \<or> p = ''dtls'' \<or> p = ''quic'' then Some 443
      else if p = ''http'' then Some 80
      else if p = ''ssh'' then Some 22
      else if p = ''ntp'' then Some 123
      else None)"

text \<open>A panic of the sniffer is a panic of the whole.\<close>

definition sniff_from_data :: "byte list \<Rightarrow> sniff_result option" where
  "sniff_from_data d =
     map_option (\<lambda>domain. \<lparr>sr_domain = domain, sr_protocol = detect_protocol d,
        sr_inferred_port = Option.bind (detect_protocol d) inferred_port_of\<rparr>) (sniff d)"

definition apply_override :: "sniff_result \<Rightarrow> override_strategy \<Rightarrow> string \<Rightarrow> u16 \<Rightarrow> string \<times> u16" where
  "apply_override r strategy original_host original_port =
     (let h = (case sr_domain r of Some d \<Rightarrow> d | None \<Rightarrow> original_host);
          p = (case sr_inferred_port r of Some q \<Rightarrow> q | None \<Rightarrow> original_port)
      in case strategy of
           Full \<Rightarrow> (h, p)
         | DomainOnly \<Rightarrow> (h, original_port)
         | PortOnly \<Rightarrow> (original_host, p)
         | RouteOnly \<Rightarrow> (original_host, original_port))"

subsection \<open>Well-formed ClientHello records\<close>

text \<open>The structure of RFC 8446 that the parser reads, as an encoder: the reference for what it must find.\<close>

definition enc16 :: "nat \<Rightarrow> byte list" where
  "enc16 n = [of_nat (n div 256), of_nat (n mod 256)]"

definition enc24 :: "nat \<Rightarrow> byte list" where
  "enc24 n = of_nat (n div 65536) # enc16 (n mod 65536)"

definition enc_extension :: "nat \<times> byte list \<Rightarrow> byte list" where
  "enc_extension e = enc16 (fst e) @ enc16 (length (snd e)) @ snd e"

definition enc_extensions :: "(nat \<times> byte list) list \<Rightarrow> byte list" where
  "enc_extensions es = concat (map enc_extension es)"

definition server_name_extension :: "string \<Rightarrow> nat \<times> byte list" where
  "server_name_extension name = (0, enc16 (length name + 3) @ [0] @ enc16 (length name) @ as_bytes name)"

record client_hello =
  ch_version_random :: "byte list"
  ch_session_id :: "byte list"
  ch_cipher_suites :: "byte list"
  ch_compression :: "byte list"
  ch_extensions :: "(nat \<times> byte list) list"

definition enc_hello_body :: "client_hello \<Rightarrow> byte list" where
  "enc_hello_body h = ch_version_random h @ [of_nat (length (ch_session_id h))] @ ch_session_id h @
     enc16 (length (ch_cipher_suites h)) @ ch_cipher_suites h @
     [of_nat (length (ch_compression h))] @ ch_compression h @
     enc16 (length (enc_extensions (ch_extensions h))) @ enc_extensions (ch_extensions h)"

definition enc_client_hello :: "nat \<Rightarrow> client_hello \<Rightarrow> byte list" where
  "enc_client_hello version h =
     (let body = enc_hello_body h; fragment = [1] @ enc24 (length body) @ body
      in [0x16] @ enc16 version @ enc16 (length fragment) @ fragment)"

definition hello_wf :: "client_hello \<Rightarrow> bool" where
  "hello_wf h \<longleftrightarrow> length (ch_version_random h) = 34 \<and> length (ch_session_id h) < 256 \<and>
     length (ch_cipher_suites h) < 65536 \<and> length (ch_compression h) < 256 \<and>
     length (enc_hello_body h) + 4 < 65536 \<and> (\<forall>e \<in> set (ch_extensions h). fst e < 65536)"

section \<open>Lemmas\<close>

subsection \<open>No panic\<close>

lemma sni_entries_safe: "e \<le> length d \<Longrightarrow> sni_entries d pos e \<noteq> None"
proof (induction d pos e rule: sni_entries.induct)
  case (1 d pos e)
  show ?case
    unfolding sni_entries.simps [of d pos e]
    using 1 by (auto simp: index8_def index16_def get_slice_def)
qed

lemma parse_sni_extension_safe: "parse_sni_extension d \<noteq> None"
  unfolding parse_sni_extension_def by (simp add: index16_def index8_def sni_entries_safe del: not_None_eq)

lemma find_sni_safe: "e \<le> length d \<Longrightarrow> find_sni d pos e \<noteq> None"
proof (induction d pos e rule: find_sni.induct)
  case (1 d pos e)
  show ?case
    unfolding find_sni.simps [of d pos e]
    using 1 parse_sni_extension_safe by (auto simp: index8_def index16_def get_slice_def)
qed

lemma find_valid_sni_safe: "e \<le> length d \<Longrightarrow> find_valid_sni d pos e \<noteq> None"
proof (induction d pos e rule: find_valid_sni.induct)
  case (1 d pos e)
  show ?case
    unfolding find_valid_sni.simps [of d pos e]
    using 1 parse_sni_extension_safe by (auto simp: index8_def index16_def index_slice_def)
qed

lemma client_hello_extensions_safe:
  assumes "\<And>pos e. e \<le> length body \<Longrightarrow> k pos e \<noteq> None"
  shows "client_hello_extensions body k \<noteq> None"
  using assms unfolding client_hello_extensions_def Let_def
  by (auto simp: get8_def index16_def index8_def)

lemma hello_safe: "client_hello_extensions b (find_sni b) \<noteq> None" "parse_client_hello_body_sni b \<noteq> None"
  unfolding parse_client_hello_body_sni_def
  by (rule client_hello_extensions_safe, erule find_sni_safe, rule client_hello_extensions_safe, erule find_valid_sni_safe)

lemma parse_handshake_safe: "parse_handshake d \<noteq> None"
  unfolding parse_handshake_def
  by (simp add: index8_def index16_def index24_def get_slice_def hello_safe
      del: not_None_eq)

lemma parse_tls_sni_safe: "parse_tls_sni d \<noteq> None"
  unfolding parse_tls_sni_def
  by (simp add: index8_def index16_def get_slice_def parse_handshake_safe del: not_None_eq)

lemma scan_client_hello_safe: "i + left + 4 \<le> length d \<or> left = 0 \<Longrightarrow> scan_client_hello d i left \<noteq> None"
proof (induction d i left rule: scan_client_hello.induct)
  case (2 d i left)
  then have IH: "scan_client_hello d (Suc i) left \<noteq> None" by auto
  with 2 show ?case
    by (simp add: hello_safe index8_def index16_def index24_def del: not_None_eq split: option.split)
qed simp

lemma find_client_hello_sni_safe: "find_client_hello_sni d \<noteq> None"
  unfolding find_client_hello_sni_def by (rule scan_client_hello_safe) auto

lemma parse_quic_initial_payload_safe: "parse_quic_initial_payload d \<noteq> None"
  unfolding parse_quic_initial_payload_def Let_def
  by (auto simp: get8_def index8_def get_slice_def is_quic_initial_def split: option.splits prod.splits)

lemma parse_quic_sni_safe: "parse_quic_sni d \<noteq> None"
  unfolding parse_quic_sni_def Let_def
  by (simp add: parse_quic_initial_payload_safe find_client_hello_sni_safe del: not_None_eq split: option.split)

lemma sniff_safe: "sniff d \<noteq> None"
  unfolding sniff_def using parse_tls_sni_safe [of d] parse_quic_sni_safe [of d]
  by (auto split: option.splits)

subsection \<open>Reading what was encoded\<close>

text \<open>The reader is followed by what is left of the input at its position.\<close>

lemma drop_Cons_nth:
  assumes "drop i d = b # r"
  shows "i < length d \<and> d ! i = b \<and> drop (Suc i) d = r"
proof -
  have "i < length d" using assms by (metis drop_all leI list.distinct(1))
  with assms show ?thesis by (simp add: Cons_nth_drop_Suc [symmetric])
qed

lemma drop_append_length: "drop i d = a @ r \<Longrightarrow> drop (i + length a) d = r"
  by (metis add.commute append_eq_conv_conj drop_drop)

lemma index8_drop: "drop i d = b # r \<Longrightarrow> index8 d i k = k (unat b)"
  using drop_Cons_nth [of i d b r] by (simp add: index8_def)

lemma get8_drop: "drop i d = b # r \<Longrightarrow> get8 d i k = k (unat b)"
  using drop_Cons_nth [of i d b r] by (simp add: get8_def)

lemma length_enc16 [simp]: "length (enc16 n) = 2"
  by (simp add: enc16_def)

lemma length_enc24 [simp]: "length (enc24 n) = 3"
  by (simp add: enc24_def)

lemma unat_small_byte: "n < 256 \<Longrightarrow> unat (of_nat n :: byte) = n"
  by (simp add: unat_of_nat)

lemma index16_drop:
  assumes "drop i d = enc16 n @ r" and "n < 65536"
  shows "index16 d i k = k n"
proof -
  have "drop (Suc i) d = of_nat (n mod 256) # r"
    using assms(1) drop_Cons_nth [of i d] by (simp add: enc16_def)
  moreover have "n div 256 < 256" using assms(2) by simp
  ultimately show ?thesis
    using assms(1) by (simp add: index16_def enc16_def index8_drop unat_small_byte del: of_nat_mod)
qed

lemma index24_drop:
  assumes "drop i d = enc24 n @ r" and "n < 16777216"
  shows "index24 d i k = k n"
proof -
  have "drop (Suc i) d = enc16 (n mod 65536) @ r"
    using assms(1) drop_Cons_nth [of i d] by (simp add: enc24_def)
  moreover have "n div 65536 < 256" using assms(2) by simp
  ultimately show ?thesis
    using assms(1) by (simp add: index24_def enc24_def index8_drop index16_drop unat_small_byte del: of_nat_mod)
qed

lemma get_slice_drop:
  assumes "drop i d = a @ r" and "n = length a" and "i \<le> length d"
  shows "get_slice d i (i + n) k = k a"
proof -
  have "length a + length r = length d - i"
    using assms(1) by (metis length_append length_drop)
  then have "i + n \<le> length d" using assms by linarith
  with assms show ?thesis by (simp add: get_slice_def)
qed

lemma server_name_read:
  assumes "length name + 3 < 65536" and "valid_utf8 (as_bytes name)"
  shows "parse_sni_extension (snd (server_name_extension name)) = found name"
proof -
  let ?d = "snd (server_name_extension name)"
  have d: "drop 0 ?d = enc16 (length name + 3) @ 0 # enc16 (length name) @ as_bytes name"
    by (simp add: server_name_extension_def)
  have 2: "drop 2 ?d = 0 # enc16 (length name) @ as_bytes name"
    using drop_append_length [OF d] by (simp add: numeral_2_eq_2)
  have 3: "drop 3 ?d = enc16 (length name) @ as_bytes name"
    using drop_Cons_nth [OF 2] by (simp add: numeral_3_eq_3)
  have 5: "drop 5 ?d = as_bytes name @ []"
    using drop_append_length [OF 3] by (simp add: numeral_eq_Suc)
  have len: "length ?d = length name + 5"
    by (simp add: server_name_extension_def)
  have "get_slice ?d 5 (5 + length name) (\<lambda>n. Some (from_utf8 n)) = found name"
    using get_slice_drop [OF 5, of "length name" "\<lambda>n. Some (from_utf8 n)"] len from_utf8_as_bytes [OF assms(2)] by simp
  then have "sni_entries ?d 2 (2 + (length name + 3)) = found name"
    using assms(1) by (simp add: sni_entries.simps [of ?d 2] index8_drop [OF 2] index16_drop [OF 3])
  then show ?thesis
    using assms(1) len by (simp add: parse_sni_extension_def index16_drop [OF d])
qed

lemma length_enc_extension: "length (enc_extension e) = 4 + length (snd e)"
  by (simp add: enc_extension_def)

lemma length_enc_extensions_append:
  "length (enc_extensions (es @ fs)) = length (enc_extensions es) + length (enc_extensions fs)"
  by (simp add: enc_extensions_def)

lemma find_sni_read:
  assumes "drop pos body = enc_extensions (pre @ (0, d) # post) @ r"
    and "\<forall>e \<in> set pre. fst e \<noteq> 0 \<and> fst e < 65536"
    and "ext_end = pos + length (enc_extensions (pre @ (0, d) # post))" and "ext_end < pos + 65536"
  shows "find_sni body pos ext_end = parse_sni_extension d"
  using assms
proof (induction pre arbitrary: pos)
  case Nil
  have p0: "drop pos body = enc16 0 @ enc16 (length d) @ d @ enc_extensions post @ r"
    using Nil.prems(1) by (simp add: enc_extensions_def enc_extension_def)
  have p2: "drop (pos + 2) body = enc16 (length d) @ d @ enc_extensions post @ r"
    using drop_append_length [OF p0] by (simp add: numeral_eq_Suc)
  have p4: "drop (pos + 4) body = d @ enc_extensions post @ r"
    using drop_append_length [OF p2] by (simp add: numeral_eq_Suc)
  have e: "ext_end = pos + 4 + length d + length (enc_extensions post)"
    using Nil.prems(3) by (simp add: enc_extensions_def length_enc_extension)
  have "pos + 4 \<le> length body"
    using arg_cong [OF p2, of length] by simp
  then have "get_slice body (pos + 4) (pos + 4 + length d) parse_sni_extension = parse_sni_extension d"
    by (rule get_slice_drop [OF p4 refl])
  then show ?case
    using e Nil.prems(4)
    by (simp add: find_sni.simps [of body pos] index16_drop [OF p0] index16_drop [OF p2] del: add_2_eq_Suc add_2_eq_Suc')
next
  case (Cons e pre)
  have p0: "drop pos body = enc16 (fst e) @ enc16 (length (snd e)) @ snd e @ enc_extensions (pre @ (0, d) # post) @ r"
    using Cons.prems(1) by (simp add: enc_extensions_def enc_extension_def)
  have p2: "drop (pos + 2) body = enc16 (length (snd e)) @ snd e @ enc_extensions (pre @ (0, d) # post) @ r"
    using drop_append_length [OF p0] by (simp add: numeral_eq_Suc)
  have p4: "drop (pos + 4 + length (snd e)) body = enc_extensions (pre @ (0, d) # post) @ r"
    using drop_append_length [OF drop_append_length [OF p2]] by (simp add: numeral_eq_Suc)
  have e: "ext_end = pos + 4 + length (snd e) + length (enc_extensions (pre @ (0, d) # post))"
    using Cons.prems(3) by (simp add: enc_extensions_def length_enc_extension)
  have "find_sni body (pos + 4 + length (snd e)) ext_end = parse_sni_extension d"
    using Cons.IH [OF p4] Cons.prems(2,4) e by simp
  then show ?case
    using e Cons.prems(2,4)
    by (simp add: find_sni.simps [of body pos] index16_drop [OF p0] index16_drop [OF p2] del: add_2_eq_Suc add_2_eq_Suc')
qed

lemma hello_extensions_read:
  assumes "hello_wf h"
  shows "\<exists>pos. client_hello_extensions (enc_hello_body h) k = k pos (length (enc_hello_body h)) \<and>
    drop pos (enc_hello_body h) = enc_extensions (ch_extensions h) \<and>
    length (enc_hello_body h) = pos + length (enc_extensions (ch_extensions h))"
proof -
  let ?b = "enc_hello_body h"
  let ?exts = "enc_extensions (ch_extensions h)"
  let ?n1 = "length (ch_session_id h)" and ?n2 = "length (ch_cipher_suites h)" and ?n3 = "length (ch_compression h)"
  have wf: "length (ch_version_random h) = 34" "?n1 < 256" "?n2 < 65536" "?n3 < 256" "length ?b + 4 < 65536"
    using assms by (auto simp: hello_wf_def)
  have len: "length ?b = 40 + (?n1 + (?n2 + (?n3 + length ?exts)))"
    by (simp add: enc_hello_body_def wf(1))
  have d0: "drop 34 ?b = of_nat ?n1 # ch_session_id h @ enc16 ?n2 @ ch_cipher_suites h @
      of_nat ?n3 # ch_compression h @ enc16 (length ?exts) @ ?exts"
    by (simp add: enc_hello_body_def wf(1))
  have d1: "drop (35 + ?n1) ?b = enc16 ?n2 @ ch_cipher_suites h @
      of_nat ?n3 # ch_compression h @ enc16 (length ?exts) @ ?exts"
    using drop_append_length [OF conjunct2 [OF conjunct2 [OF drop_Cons_nth [OF d0]]]] by simp
  have d2: "drop (37 + (?n1 + ?n2)) ?b = of_nat ?n3 # ch_compression h @ enc16 (length ?exts) @ ?exts"
    using drop_append_length [OF drop_append_length [OF d1]] by (simp add: add.assoc)
  have d3: "drop (38 + (?n1 + (?n2 + ?n3))) ?b = enc16 (length ?exts) @ ?exts"
    using drop_append_length [OF conjunct2 [OF conjunct2 [OF drop_Cons_nth [OF d2]]]] by (simp add: add.assoc)
  have d4: "drop (40 + (?n1 + (?n2 + ?n3))) ?b = ?exts"
    using drop_append_length [OF d3] by (simp add: add.assoc)
  have "client_hello_extensions ?b k = k (40 + (?n1 + (?n2 + ?n3))) (length ?b)"
    using len wf
    by (simp add: client_hello_extensions_def Let_def get8_drop [OF d0] index16_drop [OF d1] index8_drop [OF d2]
        index16_drop [OF d3] unat_small_byte add.assoc)
  with d4 len show ?thesis by (intro exI [of _ "40 + (?n1 + (?n2 + ?n3))"]) simp
qed

lemma tls_sni_read:
  assumes "hello_wf h" and "0x0300 \<le> version" and "version \<le> 0x0303"
    and "ch_extensions h = pre @ (0, d) # post" and "\<forall>e \<in> set pre. fst e \<noteq> 0"
  shows "parse_tls_sni (enc_client_hello version h @ rest) = parse_sni_extension d"
proof -
  let ?b = "enc_hello_body h"
  let ?f = "1 # enc24 (length ?b) @ ?b"
  let ?d = "enc_client_hello version h @ rest"
  have lens: "length ?b + 4 < 65536" and pre: "\<forall>e \<in> set pre. fst e \<noteq> 0 \<and> fst e < 65536"
    using assms by (auto simp: hello_wf_def)
  have d0: "drop 0 ?d = 0x16 # enc16 version @ enc16 (length ?f) @ ?f @ rest"
    by (simp add: enc_client_hello_def Let_def)
  have d1: "drop 1 ?d = enc16 version @ enc16 (length ?f) @ ?f @ rest"
    using drop_Cons_nth [OF d0] by simp
  have d3: "drop 3 ?d = enc16 (length ?f) @ ?f @ rest"
    using drop_append_length [OF d1] by (simp add: numeral_eq_Suc)
  have d5: "drop 5 ?d = ?f @ rest"
    using drop_append_length [OF d3] by (simp add: numeral_eq_Suc)
  have dlen: "5 \<le> length ?d"
    by (simp add: enc_client_hello_def Let_def)
  have f0: "drop 0 ?f = 1 # enc24 (length ?b) @ ?b" by simp
  have f1: "drop 1 ?f = enc24 (length ?b) @ ?b" by simp
  have f4: "drop 4 ?f = ?b @ []"
    using drop_append_length [OF f1] by (simp add: numeral_eq_Suc)
  obtain pos where pos: "client_hello_extensions ?b (find_sni ?b) = find_sni ?b pos (length ?b)"
    "drop pos ?b = enc_extensions (pre @ (0, d) # post) @ []"
    "length ?b = pos + length (enc_extensions (pre @ (0, d) # post))"
    using hello_extensions_read [OF assms(1), of "find_sni ?b"] assms(4) by auto
  have body: "client_hello_extensions ?b (find_sni ?b) = parse_sni_extension d"
    using find_sni_read [OF pos(2) pre pos(3)] pos(1) lens by simp
  have "get_slice ?f 4 (4 + length ?b) (\<lambda>body. client_hello_extensions body (find_sni body)) = parse_sni_extension d"
    using get_slice_drop [OF f4, of "length ?b" "\<lambda>body. client_hello_extensions body (find_sni body)"] body by simp
  then have "parse_handshake ?f = parse_sni_extension d"
    using lens by (simp add: parse_handshake_def index8_drop [OF f0] index24_drop [OF f1, unfolded One_nat_def])
  moreover have "length ?f < 65536" "version < 65536"
    using lens assms(3) by simp_all
  ultimately show ?thesis
    using dlen assms(2,3) get_slice_drop [OF d5 refl dlen, of parse_handshake]
    by (simp add: parse_tls_sni_def index8_drop [OF d0] index16_drop [OF d1, unfolded One_nat_def] index16_drop [OF d3])
qed

definition sample_hello :: client_hello where
  "sample_hello = \<lparr>ch_version_random = replicate 34 0, ch_session_id = [], ch_cipher_suites = [0x13, 1],
     ch_compression = [0], ch_extensions = [(43, [1]), server_name_extension ''a.io'']\<rparr>"

section \<open>Properties\<close>


text \<open>C20. The server name of every well-formed TLS ClientHello record of at most 65535 bytes is found: whatever
  its session identifier, cipher suites and compression methods, whatever extensions precede and follow the
  server name extension, and whatever bytes follow the record.\<close>

theorem sniff_finds_server_name:
  assumes "hello_wf h" and "0x0300 \<le> version" and "version \<le> 0x0303"
    and "ch_extensions h = pre @ server_name_extension name # post" and "\<forall>e \<in> set pre. fst e \<noteq> 0"
    and "valid_utf8 (as_bytes name)"
  shows "sniff (enc_client_hello version h @ rest) = found name"
proof -
  obtain d where d: "server_name_extension name = (0, d)"
    by (simp add: server_name_extension_def)
  have "length (enc_extensions (ch_extensions h)) \<ge> length name + 3"
    using assms(4) by (simp add: enc_extensions_def enc_extension_def server_name_extension_def)
  moreover have "length (enc_hello_body h) \<ge> length (enc_extensions (ch_extensions h))"
    by (simp add: enc_hello_body_def)
  moreover have "length (enc_hello_body h) + 4 < 65536"
    using assms(1) by (simp add: hello_wf_def)
  ultimately have "length name + 3 < 65536" by linarith
  then have "parse_sni_extension d = found name"
    using server_name_read [OF _ assms(6)] d by simp
  with tls_sni_read [OF assms(1-3)] assms(4,5) d show ?thesis
    by (simp add: sniff_def)
qed

theorem sniff_finds_server_name_witness:
  "sniff (enc_client_hello 0x0303 sample_hello) = found ''a.io''"
  using sniff_finds_server_name [of sample_hello "0x0303" "[(43, [1])]" "''a.io''" "[]" "[]"]
  by (simp add: sample_hello_def hello_wf_def enc_hello_body_def enc_extensions_def enc_extension_def
      server_name_extension_def as_bytes_def)

end
