(* ===== verification/Traffic.thy ===== *)
theory Traffic
  imports OW_Prelude
begin

text \<open>
  Traffic control, \<^verbatim>\<open>src/src/common/traffic.rs\<close>: the token bucket, the limit on the number of connections, and
  the byte counters; and the pair of buckets of \<^verbatim>\<open>src/src/proxy/sniff.rs\<close>.  The bucket computes with signed 64
  bit integers, whose wrap-around is written out; instants are milliseconds.  The operations of a bucket are
  modelled as atomic.
\<close>

section \<open>Definitions\<close>

subsection \<open>Token bucket\<close>

definition wrap_i64 :: "int \<Rightarrow> int" where
  "wrap_i64 x = (x + 2 ^ 63) mod 2 ^ 64 - 2 ^ 63"

record rate_limiter =
  rl_tokens :: int
  rl_max_tokens :: int
  rl_refill_rate :: int
  rl_last_refill :: nat

definition rate_limiter_new :: "nat \<Rightarrow> u64 \<Rightarrow> rate_limiter" where
  "rate_limiter_new now bytes_per_second =
     (let m = sint bytes_per_second in
      \<lparr>rl_tokens = m, rl_max_tokens = m, rl_refill_rate = m, rl_last_refill = now\<rparr>)"

text \<open>The quotient of a negative product is not positive, whichever way it is rounded.\<close>

definition refill :: "nat \<Rightarrow> rate_limiter \<Rightarrow> rate_limiter" where
  "refill now l =
     (let elapsed = now - rl_last_refill l;
          new_tokens = wrap_i64 (wrap_i64 (int elapsed) * rl_refill_rate l) div 1000
      in if new_tokens > 0
         then l\<lparr>rl_tokens := min (wrap_i64 (rl_tokens l + new_tokens)) (rl_max_tokens l), rl_last_refill := now\<rparr>
         else l)"

definition try_consume :: "nat \<Rightarrow> u64 \<Rightarrow> rate_limiter \<Rightarrow> int \<times> rate_limiter" where
  "try_consume now n l =
     (let l = refill now l;
          consume = max (min (sint n) (rl_tokens l)) 0
      in (consume, if consume > 0 then l\<lparr>rl_tokens := wrap_i64 (rl_tokens l - consume)\<rparr> else l))"

definition rl_available :: "nat \<Rightarrow> rate_limiter \<Rightarrow> int \<times> rate_limiter" where
  "rl_available now l = (let l = refill now l in (max (rl_tokens l) 0, l))"

definition max_rate :: "rate_limiter \<Rightarrow> u64" where
  "max_rate l = word_of_int (rl_max_tokens l)"

datatype bucket_op = Consume nat u64 | Available nat

fun op_time :: "bucket_op \<Rightarrow> nat" where
  "op_time (Consume now _) = now"
| "op_time (Available now) = now"

text \<open>The tokens that a sequence of operations obtains, and the bucket it leaves.\<close>

fun bucket_run :: "bucket_op list \<Rightarrow> rate_limiter \<Rightarrow> int \<times> rate_limiter" where
  "bucket_run [] l = (0, l)"
| "bucket_run (Consume now n # xs) l =
     (case try_consume now n l of (c, l') \<Rightarrow> (case bucket_run xs l' of (t, l'') \<Rightarrow> (c + t, l'')))"
| "bucket_run (Available now # xs) l = bucket_run xs (snd (rl_available now l))"

subsection \<open>Both directions\<close>

record bidi_limiter =
  bl_upload :: rate_limiter
  bl_download :: rate_limiter

definition bidi_new :: "nat \<Rightarrow> u64 \<Rightarrow> u64 \<Rightarrow> bidi_limiter" where
  "bidi_new now up down = \<lparr>bl_upload = rate_limiter_new now up, bl_download = rate_limiter_new now down\<rparr>"

definition try_consume_upload :: "nat \<Rightarrow> u64 \<Rightarrow> bidi_limiter \<Rightarrow> int \<times> bidi_limiter" where
  "try_consume_upload now n b = (case try_consume now n (bl_upload b) of (c, l) \<Rightarrow> (c, b\<lparr>bl_upload := l\<rparr>))"

definition try_consume_download :: "nat \<Rightarrow> u64 \<Rightarrow> bidi_limiter \<Rightarrow> int \<times> bidi_limiter" where
  "try_consume_download now n b = (case try_consume now n (bl_download b) of (c, l) \<Rightarrow> (c, b\<lparr>bl_download := l\<rparr>))"

subsection \<open>Number of connections\<close>

record connection_limiter =
  cl_permits :: nat
  cl_max_connections :: u32
  cl_active :: u64

definition connection_limiter_new :: "u32 \<Rightarrow> connection_limiter" where
  "connection_limiter_new m = \<lparr>cl_permits = unat m, cl_max_connections = m, cl_active = 0\<rparr>"

definition try_acquire :: "connection_limiter \<Rightarrow> bool \<times> connection_limiter" where
  "try_acquire l =
     (if cl_permits l = 0 then (False, l)
      else (True, l\<lparr>cl_permits := cl_permits l - 1, cl_active := cl_active l + 1\<rparr>))"

text \<open>The end of a guard: the counter first, then the permit.\<close>

definition release :: "connection_limiter \<Rightarrow> connection_limiter" where
  "release l = l\<lparr>cl_active := cl_active l - 1, cl_permits := cl_permits l + 1\<rparr>"

text \<open>A run with the number of guards that are alive; a release needs one.\<close>

datatype slot_op = Acquire | Release

fun slot_do :: "slot_op \<Rightarrow> connection_limiter \<times> nat \<Rightarrow> connection_limiter \<times> nat" where
  "slot_do Acquire (l, guards) = (case try_acquire l of (ok, l') \<Rightarrow> (l', if ok then guards + 1 else guards))"
| "slot_do Release (l, guards) = (if guards = 0 then (l, guards) else (release l, guards - 1))"

definition slots_inv :: "u32 \<Rightarrow> connection_limiter \<times> nat \<Rightarrow> bool" where
  "slots_inv m s \<longleftrightarrow> snd s + cl_permits (fst s) = unat m \<and> cl_active (fst s) = of_nat (snd s)"

subsection \<open>Byte counters\<close>

record traffic_stats =
  tst_upload :: u64
  tst_download :: u64

definition traffic_stats_new :: traffic_stats where
  "traffic_stats_new = \<lparr>tst_upload = 0, tst_download = 0\<rparr>"

definition stats_add_upload :: "u64 \<Rightarrow> traffic_stats \<Rightarrow> traffic_stats" where
  "stats_add_upload n s = s\<lparr>tst_upload := tst_upload s + n\<rparr>"

definition stats_add_download :: "u64 \<Rightarrow> traffic_stats \<Rightarrow> traffic_stats" where
  "stats_add_download n s = s\<lparr>tst_download := tst_download s + n\<rparr>"

definition stats_total :: "traffic_stats \<Rightarrow> u64" where
  "stats_total s = tst_upload s + tst_download s"

definition stats_reset :: "traffic_stats \<Rightarrow> traffic_stats" where
  "stats_reset s = s\<lparr>tst_upload := 0, tst_download := 0\<rparr>"

text \<open>What the bucket can have handed out: its capacity and what the time since its creation allows.\<close>

definition bucket_inv :: "int \<Rightarrow> nat \<Rightarrow> int \<Rightarrow> rate_limiter \<Rightarrow> bool" where
  "bucket_inv r t0 used l \<longleftrightarrow> rl_max_tokens l = r \<and> rl_refill_rate l = r \<and> 0 \<le> rl_tokens l \<and> rl_tokens l \<le> r \<and>
     t0 \<le> rl_last_refill l \<and> used + rl_tokens l \<le> r + r * int (rl_last_refill l - t0) div 1000"

section \<open>Lemmas\<close>

lemma wrap_i64_id: "- (2 ^ 63) \<le> x \<Longrightarrow> x < 2 ^ 63 \<Longrightarrow> wrap_i64 x = x"
  unfolding wrap_i64_def by (subst mod_pos_pos_trivial) auto

lemma wrap_i64_negative: "2 ^ 63 \<le> x \<Longrightarrow> x < 2 ^ 64 \<Longrightarrow> wrap_i64 x < 0"
proof -
  assume x: "2 ^ 63 \<le> x" "x < 2 ^ 64"
  then have "(x + 2 ^ 63) mod 2 ^ 64 = (x + 2 ^ 63 - 2 ^ 64) mod 2 ^ 64"
    by (simp only: minus_mod_self2)
  also have "\<dots> = x + 2 ^ 63 - 2 ^ 64"
    using x by (intro mod_pos_pos_trivial) auto
  finally show ?thesis using x by (simp add: wrap_i64_def)
qed

lemma div_1000_facts:
  "0 \<le> (a :: int) \<Longrightarrow> 0 \<le> a div 1000 \<and> a div 1000 \<le> a"
  "(a :: int) div 1000 + b div 1000 \<le> (a + b) div 1000"
  by (linarith, simp add: div_add1_eq [of a b] pos_imp_zdiv_nonneg_iff)

lemma refill_tokens:
  assumes "rl_refill_rate l = r" and "0 \<le> r" and "r * int (now - rl_last_refill l) + rl_tokens l < 2 ^ 63"
    and "now - rl_last_refill l < 2 ^ 63" and "0 \<le> rl_tokens l"
  shows "refill now l =
    (let n = r * int (now - rl_last_refill l) div 1000 in
     if n > 0 then l\<lparr>rl_tokens := min (rl_tokens l + n) (rl_max_tokens l), rl_last_refill := now\<rparr> else l)"
proof -
  define x where "x = r * int (now - rl_last_refill l)"
  have x: "0 \<le> x" "x + rl_tokens l < 2 ^ 63" using assms by (simp_all add: x_def)
  have e: "wrap_i64 (int (now - rl_last_refill l)) = int (now - rl_last_refill l)"
    using assms(4) of_nat_less_iff [of "now - rl_last_refill l" "2 ^ 63", where ?'a = int]
    by (intro wrap_i64_id) auto
  then have w: "wrap_i64 (wrap_i64 (int (now - rl_last_refill l)) * rl_refill_rate l) = x"
    using x assms(1,5) by (simp add: x_def mult.commute wrap_i64_id)
  have "wrap_i64 (rl_tokens l + x div 1000) = rl_tokens l + x div 1000"
    using x assms(5) div_1000_facts(1) [OF x(1)] by (intro wrap_i64_id) auto
  then show ?thesis
    unfolding refill_def Let_def w x_def [symmetric] by simp
qed

lemma refill_inv:
  assumes inv: "bucket_inv r t0 used l" and "rl_last_refill l \<le> now" and "0 \<le> r" and fits: "r * int (now - t0) + r < 2 ^ 63"
    and "now < 2 ^ 63"
  shows "bucket_inv r t0 used (refill now l) \<and> rl_last_refill (refill now l) \<le> now"
proof -
  define x where "x = r * int (now - rl_last_refill l)"
  define y where "y = r * int (rl_last_refill l - t0)"
  have t0: "t0 \<le> rl_last_refill l" using inv by (simp add: bucket_inv_def)
  have xy: "r * int (now - t0) = x + y"
    using t0 assms(2) by (simp add: x_def y_def of_nat_diff algebra_simps)
  have x: "0 \<le> x" and y: "0 \<le> y" using assms(3) by (simp_all add: x_def y_def)
  have "refill now l = (let n = x div 1000 in
     if n > 0 then l\<lparr>rl_tokens := min (rl_tokens l + n) (rl_max_tokens l), rl_last_refill := now\<rparr> else l)"
    unfolding x_def using assms y xy fits x
    by (intro refill_tokens) (auto simp: bucket_inv_def x_def)
  moreover have "used + rl_tokens l \<le> r + y div 1000"
    using inv unfolding bucket_inv_def y_def by blast
  then have "used + (rl_tokens l + x div 1000) \<le> r + r * int (now - t0) div 1000"
    unfolding xy using div_1000_facts(2) [of x y] by linarith
  ultimately show ?thesis
    using inv t0 assms(2,3) div_1000_facts(1) [OF x] by (auto simp: bucket_inv_def Let_def)
qed

lemma bucket_inv_take:
  "bucket_inv r t0 used l \<Longrightarrow> 0 \<le> x \<Longrightarrow> x \<le> rl_tokens l \<Longrightarrow> bucket_inv r t0 (used + x) (l\<lparr>rl_tokens := rl_tokens l - x\<rparr>)"
  unfolding bucket_inv_def by (auto simp del: of_nat_diff)

lemma try_consume_inv:
  assumes "bucket_inv r t0 used l" and "rl_last_refill l \<le> now" and "0 \<le> r" and "r * int (now - t0) + r < 2 ^ 63"
    and "now < 2 ^ 63" and "try_consume now n l = (c, l')"
  shows "bucket_inv r t0 (used + c) l' \<and> rl_last_refill l' \<le> now"
proof -
  define m where "m = refill now l"
  have inv: "bucket_inv r t0 used m" and last: "rl_last_refill m \<le> now"
    using refill_inv [OF assms(1-5)] by (simp_all add: m_def)
  have c: "0 \<le> c" "c \<le> rl_tokens m" and l': "l' = (if c > 0 then m\<lparr>rl_tokens := wrap_i64 (rl_tokens m - c)\<rparr> else m)"
    using assms(6) inv by (auto simp: try_consume_def Let_def m_def [symmetric] bucket_inv_def)
  have "0 \<le> r * int (now - t0)" using assms(3) by simp
  then have "r < 2 ^ 63" using assms(4) by linarith
  moreover have "rl_tokens m \<le> r" using inv by (simp add: bucket_inv_def)
  ultimately have "wrap_i64 (rl_tokens m - c) = rl_tokens m - c"
    using c by (intro wrap_i64_id) linarith+
  with l' c have "l' = m\<lparr>rl_tokens := rl_tokens m - c\<rparr>" by auto
  with bucket_inv_take [OF inv c] last show ?thesis by simp
qed

lemma bucket_run_inv:
  assumes "bucket_inv r t0 used l" and "0 \<le> r" and "r * int (t1 - t0) + r < 2 ^ 63" and "t1 < 2 ^ 63"
    and "sorted (map op_time xs)" and "\<forall>x \<in> set xs. rl_last_refill l \<le> op_time x \<and> op_time x \<le> t1"
  shows "used + fst (bucket_run xs l) \<le> r + r * int (t1 - t0) div 1000 \<or> xs = []"
  using assms
proof (induction xs arbitrary: used l)
  case (Cons x xs)
  have fits: "r * int (op_time x - t0) + r < 2 ^ 63" "op_time x < 2 ^ 63"
  proof -
    have "r * int (op_time x - t0) \<le> r * int (t1 - t0)"
      using Cons.prems(2,6) by (intro mult_left_mono) auto
    then show "r * int (op_time x - t0) + r < 2 ^ 63" using Cons.prems(3) by linarith
    show "op_time x < 2 ^ 63" using Cons.prems(4,6) by auto
  qed
  obtain c l' where step: "bucket_run (x # xs) l = (c + fst (bucket_run xs l'), snd (bucket_run xs l'))"
    and inv: "bucket_inv r t0 (used + c) l'" and last: "rl_last_refill l' \<le> op_time x"
  proof (cases x)
    case (Consume now n)
    obtain c l' where tc: "try_consume now n l = (c, l')" by fastforce
    from try_consume_inv [OF Cons.prems(1) _ Cons.prems(2) _ _ tc] Cons.prems(6) fits Consume
    show ?thesis by (intro that [of c l']) (auto simp: tc split: prod.splits)
  next
    case (Available now)
    from refill_inv [OF Cons.prems(1) _ Cons.prems(2), of now] Cons.prems(6) fits Available
    show ?thesis by (intro that [of 0 "refill now l"]) (auto simp: rl_available_def Let_def)
  qed
  have "used + c \<le> r + r * int (t1 - t0) div 1000"
  proof -
    have "r * int (rl_last_refill l' - t0) div 1000 \<le> r * int (t1 - t0) div 1000"
      using last Cons.prems(2,6) by (intro zdiv_mono1 mult_left_mono) auto
    with inv show ?thesis unfolding bucket_inv_def by linarith
  qed
  moreover have "used + c + fst (bucket_run xs l') \<le> r + r * int (t1 - t0) div 1000 \<or> xs = []"
    using Cons.prems last by (intro Cons.IH [OF inv]) (auto intro: le_trans)
  ultimately show ?case using step by (auto simp: add.assoc)
qed simp

lemma slot_do_inv: "slots_inv m s \<Longrightarrow> slots_inv m (slot_do x s)"
  by (cases x; cases s) (auto simp: slots_inv_def try_acquire_def release_def)

interpretation slots: preserved slot_do "slots_inv m"
  by unfold_locales (rule slot_do_inv)

text \<open>At most the configured number of guards is alive at any time, and the counter of active connections is
  that number.\<close>

lemma connection_limit:
  "snd (fold slot_do ops (connection_limiter_new m, 0)) \<le> unat m \<and>
   unat (cl_active (fst (fold slot_do ops (connection_limiter_new m, 0)))) = snd (fold slot_do ops (connection_limiter_new m, 0))"
proof -
  let ?s = "fold slot_do ops (connection_limiter_new m, 0)"
  have "slots_inv m (connection_limiter_new m, 0)"
    by (simp add: slots_inv_def connection_limiter_new_def)
  then have inv: "slots_inv m ?s" by (rule slots.run_inv)
  then have le: "snd ?s \<le> unat m" by (simp add: slots_inv_def)
  also have "unat m < 2 ^ 32" using unsigned_less [of m] by simp
  finally have "snd ?s < 2 ^ 64" by simp
  with inv le show ?thesis by (simp add: slots_inv_def unat_of_nat)
qed

text \<open>An idle bucket stops refilling while the product of idle time and rate is in the upper half of the 64 bit
  range: the product wraps to a negative number.\<close>

lemma refill_overflow:
  assumes "2 ^ 63 \<le> int (now - rl_last_refill l) * rl_refill_rate l" and "int (now - rl_last_refill l) * rl_refill_rate l < 2 ^ 64"
    and "int (now - rl_last_refill l) < 2 ^ 63"
  shows "refill now l = l"
proof -
  have "wrap_i64 (int (now - rl_last_refill l)) = int (now - rl_last_refill l)"
    using assms(3) by (intro wrap_i64_id) auto
  moreover have "wrap_i64 (int (now - rl_last_refill l) * rl_refill_rate l) < 0"
    by (rule wrap_i64_negative [OF assms(1,2)])
  then have "wrap_i64 (int (now - rl_last_refill l) * rl_refill_rate l) div 1000 < 0"
    by (simp add: neg_imp_zdiv_neg_iff)
  ultimately show ?thesis
    unfolding refill_def Let_def by simp
qed

section \<open>Properties\<close>

text \<open>C29. The token bucket enforces its rate: over any sequence of operations in the order of time, the bytes it
  grants are at most its capacity of one second plus the rate times the time since its creation, as long as that
  product fits into 63 bits.\<close>

theorem rate_limit_enforced:
  assumes "0 \<le> sint rate" and "sint rate * int (t1 - t0) + sint rate < 2 ^ 63" and "t1 < 2 ^ 63"
    and "sorted (map op_time xs)" and "\<forall>x \<in> set xs. t0 \<le> op_time x \<and> op_time x \<le> t1"
  shows "fst (bucket_run xs (rate_limiter_new t0 rate)) \<le> sint rate + sint rate * int (t1 - t0) div 1000"
proof (cases "xs = []")
  case False
  have "bucket_inv (sint rate) t0 0 (rate_limiter_new t0 rate)"
    using assms(1) by (simp add: bucket_inv_def rate_limiter_new_def Let_def)
  from bucket_run_inv [OF this assms(1-4)] assms(5) False show ?thesis
    by (auto simp: rate_limiter_new_def Let_def)
qed (use assms(1) in \<open>simp add: pos_imp_zdiv_nonneg_iff\<close>)

theorem rate_limit_enforced_witness:
  "fst (bucket_run [Consume 0 80, Consume 500 80, Consume 1000 500] (rate_limiter_new 0 100)) \<le> 200"
  using rate_limit_enforced [of 100 1000 0 "[Consume 0 80, Consume 500 80, Consume 1000 500]"] by simp

end
