(* ===== verification/Protocols.thy ===== *)
theory Protocols
  imports Router
begin

text \<open>
  The request headers and UDP frames of VLESS and Trojan, client and server side:
  \<^verbatim>\<open>src/src/proxy/outbound/vless/protocol.rs\<close>, \<^verbatim>\<open>src/src/proxy/inbound/vless.rs\<close>,
  \<^verbatim>\<open>src/src/proxy/outbound/trojan/protocol.rs\<close>, \<^verbatim>\<open>src/src/proxy/inbound/trojan.rs\<close>.  A writer returns the bytes it
  sends; a reader consumes the bytes that arrive until the stream ends, and returns what is left.  The SHA-224
  digest is a parameter.
\<close>

section \<open>Definitions\<close>

subsection \<open>Reading from a stream\<close>

datatype proto_error =
    UnexpectedEof
  | BadVersion byte
  | UnknownClient
  | BadEncoding
  | BadAddressType byte
  | AuthFailed
  | ExpectedCrlf
  | ZeroLength
  | NoUsers

type_synonym 'a rd = "byte list \<Rightarrow> (proto_error, 'a \<times> byte list) result"

definition rd_ok :: "'a \<Rightarrow> 'a rd" where
  "rd_ok x bs = Inr (x, bs)"

definition rd_fail :: "proto_error \<Rightarrow> 'a rd" where
  "rd_fail e bs = Inl e"

definition rd_then :: "'a rd \<Rightarrow> ('a \<Rightarrow> 'b rd) \<Rightarrow> 'b rd" where
  "rd_then m f bs = (case m bs of Inl e \<Rightarrow> Inl e | Inr (x, r) \<Rightarrow> f x r)"

definition rd_exact :: "nat \<Rightarrow> byte list rd" where
  "rd_exact n bs = (if n \<le> length bs then Inr (take n bs, drop n bs) else Inl UnexpectedEof)"

definition rd_u8 :: "byte rd" where
  "rd_u8 bs = (case bs of b # r \<Rightarrow> Inr (b, r) | [] \<Rightarrow> Inl UnexpectedEof)"

definition rd_u16 :: "u16 rd" where
  "rd_u16 = rd_then (rd_exact 2) (\<lambda>bs. rd_ok (from_be bs))"

definition rd_utf8 :: "nat \<Rightarrow> string rd" where
  "rd_utf8 n = rd_then (rd_exact n) (\<lambda>bs. case from_utf8 bs of Some s \<Rightarrow> rd_ok s | None \<Rightarrow> rd_fail BadEncoding)"

subsection \<open>VLESS\<close>

definition encode_addons :: "string option \<Rightarrow> byte list" where
  "encode_addons flow =
     (case flow of
        Some f \<Rightarrow> if f \<noteq> [] then [0x0A, word_of_nat (length f)] @ as_bytes f else []
      | None \<Rightarrow> [])"

definition vless_write_request :: "byte list \<Rightarrow> address \<Rightarrow> string option \<Rightarrow> byte \<Rightarrow> byte list" where
  "vless_write_request uuid target flow command =
     (let addons = encode_addons flow in
      encode_vless target ([0] @ uuid @ [word_of_nat (length addons)] @ addons @ [command] @ to_be 2 (port target)))"

definition vless_read_response :: "unit rd" where
  "vless_read_response =
     rd_then rd_u8 (\<lambda>version.
       if version \<noteq> 0 then rd_fail (BadVersion version)
       else rd_then rd_u8 (\<lambda>addons_len. rd_then (rd_exact (unat addons_len)) (\<lambda>_. rd_ok ())))"

definition vless_write_udp_frame :: "byte list \<Rightarrow> byte list" where
  "vless_write_udp_frame data = to_be 2 (word_of_nat (length data) :: u16) @ data"

definition vless_read_udp_frame :: "byte list rd" where
  "vless_read_udp_frame =
     rd_then rd_u16 (\<lambda>len. if len = 0 then rd_fail ZeroLength else rd_exact (unat len))"

record vless_inbound =
  vi_tag :: string
  vi_clients :: "(byte list \<times> string option) list"
  vi_client_map :: "(byte list, nat) hashmap"

text \<open>Construction from the parsed identifiers (those of \<^verbatim>\<open>settings.uuid\<close> and \<^verbatim>\<open>settings.clients\<close>, in that
  order); the parsing of their text is the library's.\<close>

definition vless_inbound_new :: "string \<Rightarrow> (byte list \<times> string option) list \<Rightarrow> (proto_error, vless_inbound) result" where
  "vless_inbound_new tag clients =
     (if clients = [] then Inl NoUsers
      else Inr \<lparr>vi_tag = tag, vi_clients = clients,
        vi_client_map = fold (\<lambda>(i, c) m. hm_insert (fst c) i m) (enumerate 0 clients) []\<rparr>)"

definition vless_read_address :: "u16 \<Rightarrow> address rd" where
  "vless_read_address p =
     rd_then rd_u8 (\<lambda>addr_type.
       if addr_type = 1 then rd_then (rd_exact 4) (\<lambda>ip. rd_ok (Ip (sock_new (V4 (from_be ip)) p)))
       else if addr_type = 2 then rd_then rd_u8 (\<lambda>n. rd_then (rd_utf8 (unat n)) (\<lambda>d. rd_ok (Domain d p)))
       else if addr_type = 3 then rd_then (rd_exact 16) (\<lambda>ip. rd_ok (Ip (sock_new (V6 (from_be ip)) p)))
       else rd_fail (BadAddressType addr_type))"

definition inbound_session :: "string \<Rightarrow> socket_addr \<Rightarrow> address \<Rightarrow> network \<Rightarrow> session" where
  "inbound_session tag source target net =
     \<lparr>s_target = target, s_source = Some source, s_inbound_tag = tag, s_network = net, s_sniff = False,
      s_detected_protocol = None\<rparr>"

text \<open>The handler returns the session and the bytes it answers with.\<close>

definition vless_handle :: "vless_inbound \<Rightarrow> socket_addr \<Rightarrow> (session \<times> byte list) rd" where
  "vless_handle i source =
     rd_then rd_u8 (\<lambda>version.
       if version \<noteq> 0 then rd_fail (BadVersion version)
       else rd_then (rd_exact 16) (\<lambda>uuid.
         case hm_get (vi_client_map i) uuid of
           None \<Rightarrow> rd_fail UnknownClient
         | Some _ \<Rightarrow>
             rd_then rd_u8 (\<lambda>addons_len.
               rd_then (rd_exact (unat addons_len)) (\<lambda>_.
                 rd_then rd_u8 (\<lambda>command.
                   rd_then rd_u16 (\<lambda>p.
                     rd_then (vless_read_address p) (\<lambda>target.
                       rd_ok (inbound_session (vi_tag i) source target (if command = 2 then Udp else Tcp), [0, 0]))))))))"

subsection \<open>Trojan\<close>

definition hex_digit :: "nat \<Rightarrow> char" where
  "hex_digit n = (if n < 10 then char_of (48 + n) else char_of (87 + n))"

definition hex_encode :: "byte list \<Rightarrow> string" where
  "hex_encode bs = concat (map (\<lambda>b. [hex_digit (unat b div 16), hex_digit (unat b mod 16)]) bs)"

definition password_hash :: "(byte list \<Rightarrow> byte list) \<Rightarrow> string \<Rightarrow> string" where
  "password_hash sha224 password = hex_encode (sha224 (as_bytes password))"

fun encode_trojan_addr :: "address \<Rightarrow> byte list" where
  "encode_trojan_addr (Ip (SockV4 a p)) = [1] @ v4_octets a @ to_be 2 p"
| "encode_trojan_addr (Ip (SockV6 a p _ _)) = [4] @ v6_octets a @ to_be 2 p"
| "encode_trojan_addr (Domain d p) = [3, word_of_nat (length d)] @ as_bytes d @ to_be 2 p"

definition crlf :: "byte list" where
  "crlf = [13, 10]"

definition trojan_write_request :: "string \<Rightarrow> address \<Rightarrow> byte \<Rightarrow> byte list" where
  "trojan_write_request hash target command =
     as_bytes hash @ crlf @ [command] @ encode_trojan_addr target @ crlf"

definition trojan_write_udp_frame :: "address \<Rightarrow> byte list \<Rightarrow> byte list" where
  "trojan_write_udp_frame addr payload =
     encode_trojan_addr addr @ to_be 2 (word_of_nat (length payload) :: u16) @ crlf @ payload"

text \<open>Both readers of addresses, the client's for UDP frames and the server's, are the same code up to the texts
  of their errors.\<close>

definition trojan_read_address :: "address rd" where
  "trojan_read_address =
     rd_then rd_u8 (\<lambda>atyp.
       if atyp = 1 then
         rd_then (rd_exact 4) (\<lambda>ip. rd_then rd_u16 (\<lambda>p. rd_ok (Ip (sock_new (V4 (from_be ip)) p))))
       else if atyp = 3 then
         rd_then rd_u8 (\<lambda>n. rd_then (rd_exact (unat n)) (\<lambda>bs. rd_then rd_u16 (\<lambda>p.
           case from_utf8 bs of Some d \<Rightarrow> rd_ok (Domain d p) | None \<Rightarrow> rd_fail BadEncoding)))
       else if atyp = 4 then
         rd_then (rd_exact 16) (\<lambda>ip. rd_then rd_u16 (\<lambda>p. rd_ok (Ip (sock_new (V6 (from_be ip)) p))))
       else rd_fail (BadAddressType atyp))"

definition trojan_read_udp_frame :: "(address \<times> byte list) rd" where
  "trojan_read_udp_frame =
     rd_then trojan_read_address (\<lambda>addr.
       rd_then rd_u16 (\<lambda>len.
         rd_then (rd_exact 2) (\<lambda>_.
           rd_then (rd_exact (unat len)) (\<lambda>payload. rd_ok (addr, payload)))))"

record trojan_inbound =
  ti_tag :: string
  ti_password_hashes :: "string list"

definition trojan_inbound_new ::
  "(byte list \<Rightarrow> byte list) \<Rightarrow> string \<Rightarrow> string option \<Rightarrow> (proto_error, trojan_inbound) result" where
  "trojan_inbound_new sha224 tag password =
     (let hashes = (case password of Some p \<Rightarrow> [password_hash sha224 p] | None \<Rightarrow> []) in
      if hashes = [] then Inl NoUsers
      else Inr \<lparr>ti_tag = tag, ti_password_hashes = hashes\<rparr>)"

definition trojan_handle :: "trojan_inbound \<Rightarrow> socket_addr \<Rightarrow> session rd" where
  "trojan_handle i source =
     rd_then (rd_utf8 56) (\<lambda>received.
       if received \<notin> set (ti_password_hashes i) then rd_fail AuthFailed
       else rd_then (rd_exact 2) (\<lambda>sep.
         if sep \<noteq> crlf then rd_fail ExpectedCrlf
         else rd_then rd_u8 (\<lambda>command.
           rd_then trojan_read_address (\<lambda>target.
             rd_then (rd_exact 2) (\<lambda>_.
               rd_ok (inbound_session (ti_tag i) source target (if command = 3 then Udp else Tcp)))))))"

section \<open>Lemmas\<close>

subsection \<open>Readers\<close>

lemma rd_then_ok [codec_simps]: "m bs = Inr (x, r) \<Longrightarrow> rd_then m f bs = f x r"
  by (simp add: rd_then_def)

lemma rd_exact_append [codec_simps]: "length a = n \<Longrightarrow> rd_exact n (a @ r) = Inr (a, r)"
  by (simp add: rd_exact_def)

lemma rd_u8_Cons [codec_simps]: "rd_u8 (b # r) = Inr (b, r)"
  by (simp add: rd_u8_def)

lemma rd_u16_append [codec_simps]: "rd_u16 (to_be 2 p @ r) = Inr (p, r)"
  by (simp add: rd_u16_def rd_then_def rd_exact_def rd_ok_def be16.dec_enc)

lemma rd_utf8_append [codec_simps]:
  "valid_utf8 (as_bytes s) \<Longrightarrow> length s = n \<Longrightarrow> rd_utf8 n (as_bytes s @ r) = Inr (s, r)"
  by (simp add: rd_utf8_def rd_then_def rd_exact_def rd_ok_def from_utf8_as_bytes)

lemmas proto_simps = rd_then_def rd_u8_Cons rd_exact_append rd_u16_append rd_utf8_append rd_ok_def rd_fail_def

text \<open>The Trojan address is the SOCKS5 one.\<close>

lemma encode_trojan_addr_socks5: "encode_trojan_addr a = encode_socks5 a []"
  by (cases a rule: encode_trojan_addr.cases) simp_all

lemma trojan_read_encode:
  "socks5_encodable a \<Longrightarrow> trojan_read_address (encode_trojan_addr a @ r) = Inr (a, r)"
  by (cases a rule: socks5_encodable.cases)
    (simp_all add: trojan_read_address_def proto_simps sock_new_def unat_length_byte from_utf8_as_bytes)

lemma vless_read_encode:
  "socks5_encodable a \<Longrightarrow> vless_read_address (port a) (encode_vless a [] @ r) = Inr (a, r)"
  by (cases a rule: socks5_encodable.cases)
    (simp_all add: vless_read_address_def proto_simps sock_new_def unat_length_byte)

subsection \<open>Clients of a VLESS inbound\<close>

lemma client_map_None:
  "hm_get (fold (\<lambda>(i, c) m. hm_insert (fst c) i m) (enumerate n cs) m) u = None \<longleftrightarrow>
     hm_get m u = None \<and> u \<notin> fst ` set cs"
  by (induction cs arbitrary: n m) (auto split: if_splits)

lemma vless_known_client:
  assumes "vless_inbound_new tag clients = Inr i"
  shows "hm_get (vi_client_map i) u = None \<longleftrightarrow> u \<notin> fst ` set clients" and "vi_tag i = tag"
  using assms client_map_None [of 0 clients "[]" u] by (auto simp: vless_inbound_new_def split: if_splits)

lemma length_encode_addons: "length (encode_addons flow) = (case flow of Some f \<Rightarrow> if f = [] then 0 else length f + 2 | None \<Rightarrow> 0)"
  by (auto simp: encode_addons_def split: option.split)

lemma vless_request_bytes:
  "vless_write_request uuid target flow command @ rest =
     0 # uuid @ word_of_nat (length (encode_addons flow)) # encode_addons flow @ command # to_be 2 (port target) @
       encode_vless target [] @ rest"
  by (subst vless_write_request_def) (simp add: Let_def encode_vless_append [of target "0 # _"])

subsection \<open>Passwords of a Trojan inbound\<close>

lemma length_hex_encode: "length (hex_encode bs) = 2 * length bs"
  by (induction bs) (simp_all add: hex_encode_def)

lemma hex_digit_ascii: "n < 16 \<Longrightarrow> (of_char (hex_digit n) :: nat) < 128"
  by (auto simp: hex_digit_def)

lemma valid_utf8_ascii: "\<forall>b \<in> set bs. b < 128 \<Longrightarrow> valid_utf8 bs"
  by (induction bs rule: valid_utf8.induct) auto

lemma hex_encode_utf8: "valid_utf8 (as_bytes (hex_encode bs))"
proof (rule valid_utf8_ascii, rule ballI)
  fix b
  assume "b \<in> set (as_bytes (hex_encode bs))"
  then obtain c where c: "c \<in> set (hex_encode bs)" "b = word_of_nat (of_char c)"
    by (auto simp: as_bytes_def)
  then obtain x where "x \<in> set bs" "c = hex_digit (unat x div 16) \<or> c = hex_digit (unat x mod 16)"
    by (auto simp: hex_encode_def)
  moreover have "unat x < 256" for x :: byte
    using unsigned_less [of x, where 'a = nat] by simp
  then have "unat x div 16 < 16" for x :: byte
    by (simp add: less_mult_imp_div_less)
  ultimately have "(of_char c :: nat) < 128"
    using hex_digit_ascii by auto
  then show "b < 128" using c(2) by (simp add: word_less_nat_alt unat_of_nat)
qed

section \<open>Properties\<close>

text \<open>C18. A VLESS server accepts what a VLESS client sends: for a registered client identifier, the handler
  returns exactly the target and network of the client's request, answers with a header that the client
  accepts, and leaves the payload that follows untouched; and it rejects every other identifier before it looks at
  the target.\<close>

theorem vless_client_server_agree:
  assumes "vless_inbound_new tag clients = Inr i" and "length uuid = 16" and "socks5_encodable target"
    and "case flow of Some f \<Rightarrow> length f \<le> 253 | None \<Rightarrow> True"
  shows "vless_handle i source (vless_write_request uuid target flow command @ payload) =
    (if uuid \<in> fst ` set clients
     then Inr ((inbound_session tag source target (if command = 2 then Udp else Tcp), [0, 0]), payload)
     else Inl UnknownClient) \<and>
    vless_read_response ([0, 0] @ reply) = Inr ((), reply)"
proof -
  have len: "unat (word_of_nat (length (encode_addons flow)) :: byte) = length (encode_addons flow)"
    using assms(4) by (intro unat_length_byte) (simp add: length_encode_addons split: option.splits)
  have "vless_read_response ([0, 0] @ reply) = Inr ((), reply)"
    by (simp add: vless_read_response_def proto_simps rd_exact_def)
  moreover have "vless_handle i source (vless_write_request uuid target flow command @ payload) =
    (if uuid \<in> fst ` set clients
     then Inr ((inbound_session tag source target (if command = 2 then Udp else Tcp), [0, 0]), payload)
     else Inl UnknownClient)"
    unfolding vless_request_bytes
    using vless_known_client(1) [OF assms(1), of uuid] vless_known_client(2) [OF assms(1)] assms(2) len vless_read_encode [OF assms(3), of payload]
    by (auto simp: vless_handle_def proto_simps split: option.split)
  ultimately show ?thesis by blast
qed

theorem vless_client_server_agree_witness:
  "vless_handle \<lparr>vi_tag = ''in'', vi_clients = [(replicate 16 7, None)], vi_client_map = [(replicate 16 7, 0)]\<rparr>
     (SockV4 0 1) (vless_write_request (replicate 16 7) (Domain ''a.b'' 443) (Some ''xtls'') 1 @ [1, 2]) =
   Inr ((inbound_session ''in'' (SockV4 0 1) (Domain ''a.b'' 443) Tcp, [0, 0]), [1, 2])"
  using vless_client_server_agree [of "''in''" "[(replicate 16 7, None)]"
      "\<lparr>vi_tag = ''in'', vi_clients = [(replicate 16 7, None)], vi_client_map = [(replicate 16 7, 0)]\<rparr>"
      "replicate 16 7" "Domain ''a.b'' 443" "Some ''xtls''" "SockV4 0 1" 1 "[1, 2]" "[]"]
  by (simp add: vless_inbound_new_def hm_insert_def as_bytes_def)

text \<open>C19. A Trojan server accepts what a Trojan client sends: with the password of the inbound the handler
  returns exactly the target and network of the request and leaves the payload untouched; with any password of
  a different digest it fails.  The digest has 28 bytes, as SHA-224 has.\<close>

theorem trojan_client_server_agree:
  assumes "\<And>x. length (sha224 x) = 28" and "trojan_inbound_new sha224 tag (Some password) = Inr i"
    and "socks5_encodable target"
  shows "trojan_handle i source (trojan_write_request (password_hash sha224 guess) target command @ payload) =
    (if password_hash sha224 guess = password_hash sha224 password
     then Inr (inbound_session tag source target (if command = 3 then Udp else Tcp), payload)
     else Inl AuthFailed)"
proof -
  let ?h = "password_hash sha224 guess"
  have h: "length ?h = 56" "valid_utf8 (as_bytes ?h)"
    using assms(1) by (simp_all add: password_hash_def length_hex_encode hex_encode_utf8)
  have i: "ti_password_hashes i = [password_hash sha224 password]" "ti_tag i = tag"
    using assms(2) by (auto simp: trojan_inbound_new_def)
  have "rd_exact 2 (crlf @ r) = Inr (crlf, r)" for r
    by (simp add: crlf_def rd_exact_def)
  then show ?thesis
    using h i trojan_read_encode [OF assms(3)]
    by (auto simp: trojan_handle_def trojan_write_request_def proto_simps)
qed

theorem trojan_client_server_agree_witness:
  "trojan_handle \<lparr>ti_tag = ''in'', ti_password_hashes = [password_hash (\<lambda>x. replicate 28 5) ''pw'']\<rparr> (SockV4 0 1)
     (trojan_write_request (password_hash (\<lambda>x. replicate 28 5) ''pw'') (Domain ''a.b'' 443) 3 @ [9]) =
   Inr (inbound_session ''in'' (SockV4 0 1) (Domain ''a.b'' 443) Udp, [9])"
  using trojan_client_server_agree [of "\<lambda>x. replicate 28 5" "''in''" "''pw''"
      "\<lparr>ti_tag = ''in'', ti_password_hashes = [password_hash (\<lambda>x. replicate 28 5) ''pw'']\<rparr>" "Domain ''a.b'' 443" "SockV4 0 1" "''pw''" 3 "[9]"]
  by (simp add: trojan_inbound_new_def as_bytes_def)

text \<open>UDP over Trojan and VLESS: a frame is read back with its address and payload, and the stream goes on
  after it, for payloads of at most 65535 bytes (and, for VLESS, not empty); a longer payload loses all but its
  length modulo 65536 bytes, and the rest is taken for the frames that follow.\<close>

theorem udp_frames_round_trip:
  assumes "socks5_encodable addr"
  shows "trojan_read_udp_frame (trojan_write_udp_frame addr payload @ rest) =
      Inr ((addr, take (length payload mod 65536) payload), drop (length payload mod 65536) payload @ rest) \<and>
    vless_read_udp_frame (vless_write_udp_frame payload @ rest) =
      (if length payload mod 65536 = 0 then Inl ZeroLength
       else Inr (take (length payload mod 65536) payload, drop (length payload mod 65536) payload @ rest))"
proof -
  let ?n = "length payload mod 65536"
  have n: "unat (word_of_nat (length payload) :: u16) = ?n" "?n \<le> length payload"
    by (simp_all add: unat_of_nat)
  have ex: "rd_exact ?n (payload @ rest) = Inr (take ?n payload, drop ?n payload @ rest)"
    using n(2) by (simp add: rd_exact_def)
  have "rd_exact 2 (crlf @ r) = Inr (crlf, r)" for r
    by (simp add: crlf_def rd_exact_def)
  then have "trojan_read_udp_frame (trojan_write_udp_frame addr payload @ rest) = Inr ((addr, take ?n payload), drop ?n payload @ rest)"
    using trojan_read_encode [OF assms] ex n
    by (simp add: trojan_read_udp_frame_def trojan_write_udp_frame_def proto_simps)
  moreover have "(word_of_nat (length payload) :: u16) = 0 \<longleftrightarrow> ?n = 0"
    by (metis n(1) unat_eq_zero)
  then have "vless_read_udp_frame (vless_write_udp_frame payload @ rest) =
      (if ?n = 0 then Inl ZeroLength else Inr (take ?n payload, drop ?n payload @ rest))"
    using ex n by (simp add: vless_read_udp_frame_def vless_write_udp_frame_def proto_simps)
  ultimately show ?thesis by blast
qed

theorem udp_frames_round_trip_witness:
  "trojan_read_udp_frame (trojan_write_udp_frame (Domain ''a.b'' 53) [1, 2, 3] @ [9]) = Inr ((Domain ''a.b'' 53, [1, 2, 3]), [9])"
  using udp_frames_round_trip [of "Domain ''a.b'' 53" "[1, 2, 3]" "[9]"] by (simp add: as_bytes_def)

end
