(* ===== verification/Frames.thy ===== *)
theory Frames
  imports Addr
begin

text \<open>
  Multiplexing frames: XUDP, \<^verbatim>\<open>src/src/proxy/mux/xudp.rs\<close>, and smux with its streams and session,
  \<^verbatim>\<open>src/src/proxy/mux/smux.rs\<close>.  Both decode a buffer frame by frame until a frame is incomplete; what they
  share is the contract of a frame codec, the locale \<^verbatim>\<open>frame_stream\<close>.
\<close>

section \<open>Frame codecs\<close>

text \<open>A frame is decoded from its encoding whatever follows it; a decoded frame does not depend on what follows
  it; and a buffer is decoded frame by frame while it has at least the bytes the loop asks for.\<close>

locale frame_stream =
  fixes enc :: "'f \<Rightarrow> byte list"
    and dec :: "byte list \<Rightarrow> ('e, 'f \<times> nat) result"
    and wf :: "'f \<Rightarrow> bool"
    and least :: nat
    and dec_all :: "byte list \<Rightarrow> 'f list \<times> nat"
  assumes dec_enc: "wf f \<Longrightarrow> dec (enc f @ r) = Inr (f, length (enc f))"
    and dec_local: "dec d = Inr (f, n) \<Longrightarrow> n \<le> length d \<and> dec (d @ r) = Inr (f, n)"
    and least_pos: "0 < least"
    and least_enc: "least \<le> length (enc f)"
    and dec_all_unfold: "dec_all d =
      (if least \<le> length d then
         (case dec d of Inl e \<Rightarrow> ([], 0) | Inr (f, n) \<Rightarrow> (case dec_all (drop n d) of (fs, m) \<Rightarrow> (f # fs, n + m)))
       else ([], 0))"
begin

lemma dec_incomplete:
  assumes "wf f" and "strict_prefix p (enc f)"
  shows "\<exists>e. dec p = Inl e"
proof (cases "dec p")
  case (Inr x)
  obtain g n where x: "x = (g, n)" by fastforce
  obtain r where r: "enc f = p @ r" "r \<noteq> []" using assms(2) by (auto simp: strict_prefix_def prefix_def)
  from dec_local [OF Inr [unfolded x], of r] dec_enc [OF assms(1), of "[]"] r have "n = length (enc f)" "n \<le> length p"
    by auto
  with r show ?thesis by simp
qed simp

lemma dec_all_incomplete: "wf f \<Longrightarrow> strict_prefix p (enc f) \<Longrightarrow> dec_all p = ([], 0)"
  using dec_incomplete [of f p] by (auto simp: dec_all_unfold [of p])

lemma dec_all_append:
  assumes "list_all wf fs"
  shows "dec_all (concat (map enc fs) @ r) =
    (case dec_all r of (gs, m) \<Rightarrow> (fs @ gs, length (concat (map enc fs)) + m))"
  using assms
proof (induction fs)
  case (Cons f fs)
  have "least \<le> length (enc f @ concat (map enc fs) @ r)"
    using least_enc [of f] by simp
  with Cons show ?case
    by (simp add: dec_all_unfold [of "enc f @ _"] dec_enc split: prod.splits)
qed (simp split: prod.split)

text \<open>Cutting a stream of frames anywhere: the complete frames are decoded, and only their bytes consumed.\<close>

lemma dec_all_cut:
  assumes "list_all wf fs" and "wf f" and "strict_prefix p (enc f)"
  shows "dec_all (concat (map enc fs) @ p) = (fs, length (concat (map enc fs)))"
  using dec_all_append [OF assms(1), of p] dec_all_incomplete [OF assms(2,3)] by simp

end

section \<open>Definitions\<close>

subsection \<open>XUDP\<close>

text \<open>The errors, with what the message says is missing.\<close>

datatype frame_error = Insufficient string | UnknownAddressType byte

record xudp_frame =
  xf_type :: byte
  xf_session_id :: u16
  xf_address :: "address option"
  xf_payload :: "byte list"

fun xudp_encode_address :: "address \<Rightarrow> byte list" where
  "xudp_encode_address (Ip (SockV4 a p)) = [1] @ v4_octets a @ to_be 2 p"
| "xudp_encode_address (Ip (SockV6 a p _ _)) = [4] @ v6_octets a @ to_be 2 p"
| "xudp_encode_address (Domain d p) = [3, word_of_nat (length d)] @ as_bytes d @ to_be 2 p"

definition xudp_encode :: "xudp_frame \<Rightarrow> byte list" where
  "xudp_encode f =
     [xf_type f] @ to_be 2 (xf_session_id f) @
     (case xf_address f of Some a \<Rightarrow> xudp_encode_address a | None \<Rightarrow> []) @
     to_be 2 (word_of_nat (length (xf_payload f)) :: u16) @ xf_payload f"

text \<open>\<^verbatim>\<open>String::from_utf8_lossy\<close>: every maximal part of an ill-formed sequence becomes one replacement character.\<close>

definition replacement :: "byte list" where
  "replacement = [0xEF, 0xBF, 0xBD]"

definition second_ok :: "byte \<Rightarrow> byte \<Rightarrow> bool" where
  "second_ok a b \<longleftrightarrow> cont_byte b \<and> (a = 224 \<longrightarrow> 160 \<le> b) \<and> (a = 237 \<longrightarrow> b \<le> 159) \<and> (a = 240 \<longrightarrow> 144 \<le> b) \<and> (a = 244 \<longrightarrow> b \<le> 143)"

fun lossy_bytes :: "byte list \<Rightarrow> byte list" where
  "lossy_bytes [] = []"
| "lossy_bytes (a # bs) =
     (if a < 128 then a # lossy_bytes bs
      else if 194 \<le> a \<and> a \<le> 223 then
        (case bs of b # r \<Rightarrow> if cont_byte b then a # b # lossy_bytes r else replacement @ lossy_bytes bs
         | [] \<Rightarrow> replacement)
      else if 224 \<le> a \<and> a \<le> 239 then
        (case bs of
           b # c # r \<Rightarrow>
             if \<not> second_ok a b then replacement @ lossy_bytes bs
             else if cont_byte c then a # b # c # lossy_bytes r
             else replacement @ lossy_bytes (c # r)
         | [b] \<Rightarrow> if second_ok a b then replacement else replacement @ lossy_bytes bs
         | [] \<Rightarrow> replacement)
      else if 240 \<le> a \<and> a \<le> 244 then
        (case bs of
           b # c # d # r \<Rightarrow>
             if \<not> second_ok a b then replacement @ lossy_bytes bs
             else if \<not> cont_byte c then replacement @ lossy_bytes (c # d # r)
             else if cont_byte d then a # b # c # d # lossy_bytes r
             else replacement @ lossy_bytes (d # r)
         | [b, c] \<Rightarrow>
             if \<not> second_ok a b then replacement @ lossy_bytes bs
             else if cont_byte c then replacement else replacement @ lossy_bytes [c]
         | [b] \<Rightarrow> if second_ok a b then replacement else replacement @ lossy_bytes bs
         | [] \<Rightarrow> replacement)
      else replacement @ lossy_bytes bs)"

definition from_utf8_lossy :: "byte list \<Rightarrow> string" where
  "from_utf8_lossy bs = map (\<lambda>b. char_of (unat b)) (lossy_bytes bs)"

text \<open>The address at the front of the rest of the frame, with the number of bytes it takes.\<close>

definition xudp_decode_address :: "byte list \<Rightarrow> (frame_error, address \<times> nat) result" where
  "xudp_decode_address d =
     (case d of
        [] \<Rightarrow> Inl (Insufficient ''xudp address type'')
      | addr_type # r \<Rightarrow>
          if addr_type = 1 then
            if length r < 6 then Inl (Insufficient ''xudp ipv4 address'')
            else Inr (Ip (sock_new (V4 (from_be (take 4 r))) (from_be (take 2 (drop 4 r)))), 7)
          else if addr_type = 4 then
            if length r < 18 then Inl (Insufficient ''xudp ipv6 address'')
            else Inr (Ip (sock_new (V6 (from_be (take 16 r))) (from_be (take 2 (drop 16 r)))), 19)
          else if addr_type = 3 then
            (case r of
               [] \<Rightarrow> Inl (Insufficient ''xudp domain length'')
             | n # r' \<Rightarrow>
                 if length r' < unat n + 2 then Inl (Insufficient ''xudp domain'')
                 else Inr (Domain (from_utf8_lossy (take (unat n) r')) (from_be (take 2 (drop (unat n) r'))), unat n + 4))
          else Inl (UnknownAddressType addr_type))"

text \<open>The payload at \<^term>\<open>pos\<close>, and the frame.\<close>

definition xudp_payload :: "byte \<Rightarrow> u16 \<Rightarrow> address option \<Rightarrow> nat \<Rightarrow> byte list \<Rightarrow> (frame_error, xudp_frame \<times> nat) result" where
  "xudp_payload frame_type session_id addr pos d =
     (if pos + 2 > length d then Inl (Insufficient ''xudp payload length'')
      else let payload_len = unat (from_be (take 2 (drop pos d)) :: u16) in
        if pos + 2 + payload_len > length d then Inl (Insufficient ''xudp payload'')
        else Inr (\<lparr>xf_type = frame_type, xf_session_id = session_id, xf_address = addr,
                   xf_payload = take payload_len (drop (pos + 2) d)\<rparr>, pos + 2 + payload_len))"

definition xudp_decode :: "byte list \<Rightarrow> (frame_error, xudp_frame \<times> nat) result" where
  "xudp_decode d =
     (if length d < 3 then Inl (Insufficient ''xudp frame header'')
      else let frame_type = d ! 0; session_id = from_be (take 2 (drop 1 d)) in
        if frame_type = 1 \<or> frame_type = 2 then
          (case xudp_decode_address (drop 3 d) of
             Inl e \<Rightarrow> Inl e
           | Inr (a, n) \<Rightarrow> xudp_payload frame_type session_id (Some a) (3 + n) d)
        else xudp_payload frame_type session_id None 3 d)"

definition xudp_new_session :: "u16 \<Rightarrow> address \<Rightarrow> xudp_frame" where
  "xudp_new_session i a = \<lparr>xf_type = 1, xf_session_id = i, xf_address = Some a, xf_payload = []\<rparr>"

definition xudp_data :: "u16 \<Rightarrow> address \<Rightarrow> byte list \<Rightarrow> xudp_frame" where
  "xudp_data i a payload = \<lparr>xf_type = 2, xf_session_id = i, xf_address = Some a, xf_payload = payload\<rparr>"

definition xudp_close :: "u16 \<Rightarrow> xudp_frame" where
  "xudp_close i = \<lparr>xf_type = 3, xf_session_id = i, xf_address = None, xf_payload = []\<rparr>"

definition xudp_keepalive :: xudp_frame where
  "xudp_keepalive = \<lparr>xf_type = 4, xf_session_id = 0, xf_address = None, xf_payload = []\<rparr>"

definition allocate_session_id :: "u16 \<Rightarrow> u16 \<times> u16" where
  "allocate_session_id next_id = (next_id, next_id + 1)"

definition xudp_encode_frames :: "xudp_frame list \<Rightarrow> byte list" where
  "xudp_encode_frames fs = concat (map xudp_encode fs)"

lemma xudp_decode_size: "xudp_decode d = Inr (f, n) \<Longrightarrow> 0 < n \<and> d \<noteq> []"
  by (auto simp: xudp_decode_def xudp_payload_def Let_def split: if_splits sum.splits prod.splits)

function xudp_decode_frames :: "byte list \<Rightarrow> xudp_frame list \<times> nat" where
  "xudp_decode_frames d =
     (if 0 < length d then
        (case xudp_decode d of
           Inl e \<Rightarrow> ([], 0)
         | Inr (f, n) \<Rightarrow> (case xudp_decode_frames (drop n d) of (fs, m) \<Rightarrow> (f # fs, n + m)))
      else ([], 0))"
  by pat_completeness auto
termination by (relation "measure length") (auto dest: xudp_decode_size)

declare xudp_decode_frames.simps [simp del]

fun xudp_wf :: "xudp_frame \<Rightarrow> bool" where
  "xudp_wf f =
     ((case xf_address f of Some a \<Rightarrow> (xf_type f = 1 \<or> xf_type f = 2) \<and> socks5_encodable a
       | None \<Rightarrow> xf_type f \<noteq> 1 \<and> xf_type f \<noteq> 2) \<and>
      length (xf_payload f) < 65536)"

subsection \<open>smux frames\<close>

record smux_frame =
  sf_version :: byte
  sf_cmd :: byte
  sf_stream_id :: u32
  sf_payload :: "byte list"

definition SMUX_HEADER_LEN :: nat where
  "SMUX_HEADER_LEN = 8"

definition smux_encode :: "smux_frame \<Rightarrow> byte list" where
  "smux_encode f =
     [sf_version f, sf_cmd f] @ to_be 2 (word_of_nat (length (sf_payload f)) :: u16) @
     to_be 4 (sf_stream_id f) @ sf_payload f"

definition smux_decode :: "byte list \<Rightarrow> (frame_error, smux_frame \<times> nat) result" where
  "smux_decode d =
     (if length d < SMUX_HEADER_LEN then Inl (Insufficient ''smux frame header'')
      else let len = unat (from_be (take 2 (drop 2 d)) :: u16); total = SMUX_HEADER_LEN + len in
        if length d < total then Inl (Insufficient ''smux frame payload'')
        else Inr (\<lparr>sf_version = d ! 0, sf_cmd = d ! 1, sf_stream_id = from_be (take 4 (drop 4 d)),
                   sf_payload = take len (drop SMUX_HEADER_LEN d)\<rparr>, total))"

definition smux_syn :: "u32 \<Rightarrow> smux_frame" where
  "smux_syn i = \<lparr>sf_version = 1, sf_cmd = 0, sf_stream_id = i, sf_payload = []\<rparr>"

definition smux_fin :: "u32 \<Rightarrow> smux_frame" where
  "smux_fin i = \<lparr>sf_version = 1, sf_cmd = 1, sf_stream_id = i, sf_payload = []\<rparr>"

definition smux_psh :: "u32 \<Rightarrow> byte list \<Rightarrow> smux_frame" where
  "smux_psh i data = \<lparr>sf_version = 1, sf_cmd = 2, sf_stream_id = i, sf_payload = data\<rparr>"

definition smux_nop :: smux_frame where
  "smux_nop = \<lparr>sf_version = 1, sf_cmd = 3, sf_stream_id = 0, sf_payload = []\<rparr>"

function decode_smux_frames :: "byte list \<Rightarrow> smux_frame list \<times> nat" where
  "decode_smux_frames d =
     (if SMUX_HEADER_LEN \<le> length d then
        (case smux_decode d of
           Inl e \<Rightarrow> ([], 0)
         | Inr (f, n) \<Rightarrow> (case decode_smux_frames (drop n d) of (fs, m) \<Rightarrow> (f # fs, n + m)))
      else ([], 0))"
  by pat_completeness auto
termination by (relation "measure length") (auto simp: smux_decode_def SMUX_HEADER_LEN_def Let_def split: if_splits)

declare decode_smux_frames.simps [simp del]

definition smux_wf :: "smux_frame \<Rightarrow> bool" where
  "smux_wf f \<longleftrightarrow> length (sf_payload f) < 65536"

subsection \<open>smux streams and sessions\<close>

text \<open>The channels from the session to its streams, numbered in the order of their creation.  A channel holds at
  most 64 chunks; its sender lives in the session's map, so that it is dropped when its entry is removed or
  overwritten.\<close>

record smux_session =
  ss_next_id :: u32
  ss_streams :: "(u32, nat) hashmap"
  ss_chans :: "byte list list list"
  ss_out :: "smux_frame list"
  ss_out_cap :: nat
  ss_out_closed :: bool

record smux_stream =
  st_id :: u32
  st_chan :: nat
  st_read_buf :: "byte list"
  st_closed :: bool

definition smux_session_new :: "nat \<Rightarrow> smux_session" where
  "smux_session_new cap =
     \<lparr>ss_next_id = 1, ss_streams = [], ss_chans = [], ss_out = [], ss_out_cap = cap, ss_out_closed = False\<rparr>"

datatype opened = Opened smux_stream | OpenClosed | OpenWaiting u32

text \<open>\<^verbatim>\<open>open_stream\<close>; when the outgoing channel is full it waits, with the entry already in the map.\<close>

definition open_stream :: "smux_session \<Rightarrow> smux_session \<times> opened" where
  "open_stream s =
     (let i = ss_next_id s; c = length (ss_chans s);
          s1 = s\<lparr>ss_next_id := i + 2, ss_streams := hm_insert i c (ss_streams s), ss_chans := ss_chans s @ [[]]\<rparr> in
      if ss_out_closed s then (s1, OpenClosed)
      else if ss_out_cap s \<le> length (ss_out s) then (s1, OpenWaiting i)
      else (s1\<lparr>ss_out := ss_out s @ [smux_syn i]\<rparr>,
            Opened \<lparr>st_id = i, st_chan = c, st_read_buf = [], st_closed = False\<rparr>))"

definition chan_full :: "nat \<Rightarrow> smux_session \<Rightarrow> bool" where
  "chan_full c s \<longleftrightarrow> 64 \<le> length (ss_chans s ! c)"

definition chan_send :: "nat \<Rightarrow> byte list \<Rightarrow> smux_session \<Rightarrow> smux_session" where
  "chan_send c x s = s\<lparr>ss_chans := (ss_chans s)[c := ss_chans s ! c @ [x]]\<rparr>"

text \<open>\<^verbatim>\<open>dispatch_frame\<close>: the new state, or \<^const>\<open>None\<close> while it waits for room in the channel.  It waits with the
  map locked, so that nothing else of the session moves meanwhile.\<close>

definition dispatch_frame :: "smux_frame \<Rightarrow> smux_session \<Rightarrow> smux_session option" where
  "dispatch_frame f s =
     (if sf_cmd f = 2 then
        (case hm_get (ss_streams s) (sf_stream_id f) of
           Some c \<Rightarrow> if chan_full c s then None else Some (chan_send c (sf_payload f) s)
         | None \<Rightarrow> Some s)
      else if sf_cmd f = 1 then
        (case hm_get (ss_streams s) (sf_stream_id f) of
           Some c \<Rightarrow> if chan_full c s then None
                     else Some (chan_send c [] (s\<lparr>ss_streams := hm_remove (sf_stream_id f) (ss_streams s)\<rparr>))
         | None \<Rightarrow> Some s)
      else Some s)"

datatype 'a poll = Ready 'a | Pending

definition poll_recv :: "nat \<Rightarrow> smux_session \<Rightarrow> smux_session \<times> byte list option poll" where
  "poll_recv c s =
     (case ss_chans s ! c of
        x # q \<Rightarrow> (s\<lparr>ss_chans := (ss_chans s)[c := q]\<rparr>, Ready (Some x))
      | [] \<Rightarrow> (s, if c \<in> snd ` set (ss_streams s) then Pending else Ready None))"

text \<open>\<^verbatim>\<open>poll_read\<close> into a buffer with room for \<^term>\<open>n\<close> bytes: what it puts there.\<close>

definition poll_read :: "nat \<Rightarrow> smux_session \<Rightarrow> smux_stream \<Rightarrow> smux_session \<times> smux_stream \<times> byte list poll" where
  "poll_read n s st =
     (if st_read_buf st \<noteq> [] then
        (s, st\<lparr>st_read_buf := drop n (st_read_buf st)\<rparr>, Ready (take n (st_read_buf st)))
      else if st_closed st then (s, st, Ready [])
      else (case poll_recv (st_chan st) s of
          (s', Ready (Some x)) \<Rightarrow>
            if x = [] then (s', st\<lparr>st_closed := True\<rparr>, Ready [])
            else (s', st\<lparr>st_read_buf := drop n x\<rparr>, Ready (take n x))
        | (s', Ready None) \<Rightarrow> (s', st\<lparr>st_closed := True\<rparr>, Ready [])
        | (s', Pending) \<Rightarrow> (s', st, Pending)))"

text \<open>\<^verbatim>\<open>try_send\<close> on the outgoing channel, then \<^verbatim>\<open>poll_write\<close> and \<^verbatim>\<open>poll_shutdown\<close>.\<close>

datatype try_send_error = Full | ChannelClosed

definition try_send :: "smux_frame \<Rightarrow> smux_session \<Rightarrow> smux_session \<times> (try_send_error, unit) result" where
  "try_send f s =
     (if ss_out_closed s then (s, Inl ChannelClosed)
      else if ss_out_cap s \<le> length (ss_out s) then (s, Inl Full)
      else (s\<lparr>ss_out := ss_out s @ [f]\<rparr>, Inr ()))"

definition poll_write :: "byte list \<Rightarrow> smux_stream \<Rightarrow> smux_session \<Rightarrow> smux_session \<times> nat option poll" where
  "poll_write buf st s =
     (let len = min (length buf) 65535 in
      case try_send (smux_psh (st_id st) (take len buf)) s of
        (s', Inr _) \<Rightarrow> (s', Ready (Some len))
      | (s', Inl Full) \<Rightarrow> (s', Pending)
      | (s', Inl ChannelClosed) \<Rightarrow> (s', Ready None))"

definition poll_shutdown :: "smux_stream \<Rightarrow> smux_session \<Rightarrow> smux_session" where
  "poll_shutdown st s = fst (try_send (smux_fin (st_id st)) s)"

text \<open>The life of one stream: frames arriving for any stream, reads, other streams being opened.  \<^verbatim>\<open>sl_pushed\<close> and
  \<^verbatim>\<open>sl_got\<close> record what was put into its channel and what was read; a frame that has to wait is left for later.\<close>

record stream_life =
  sl_session :: smux_session
  sl_stream :: smux_stream
  sl_pushed :: "byte list list"
  sl_got :: "byte list"

datatype stream_op = Arrive smux_frame | ReadUpTo nat | OpenOther | WriteOut "byte list"

fun stream_do :: "stream_op \<Rightarrow> stream_life \<Rightarrow> stream_life" where
  "stream_do (Arrive f) l =
     (case dispatch_frame f (sl_session l) of
        None \<Rightarrow> l
      | Some s' \<Rightarrow> l\<lparr>sl_session := s',
          sl_pushed := sl_pushed l @
            (if sf_cmd f = 2 \<and> hm_get (ss_streams (sl_session l)) (sf_stream_id f) = Some (st_chan (sl_stream l))
             then [sf_payload f] else [])\<rparr>)"
| "stream_do (ReadUpTo n) l =
     (case poll_read n (sl_session l) (sl_stream l) of
        (s', st', r) \<Rightarrow> l\<lparr>sl_session := s', sl_stream := st',
          sl_got := sl_got l @ (case r of Ready bs \<Rightarrow> bs | Pending \<Rightarrow> [])\<rparr>)"
| "stream_do OpenOther l = l\<lparr>sl_session := fst (open_stream (sl_session l))\<rparr>"
| "stream_do (WriteOut bs) l = l\<lparr>sl_session := fst (poll_write bs (sl_stream l) (sl_session l))\<rparr>"

definition session_wf :: "smux_session \<Rightarrow> bool" where
  "session_wf s \<longleftrightarrow>
     hm_wf (ss_streams s) \<and> distinct (map snd (ss_streams s)) \<and> (\<forall>c \<in> snd ` set (ss_streams s). c < length (ss_chans s))"

definition life_inv :: "stream_life \<Rightarrow> bool" where
  "life_inv l \<longleftrightarrow>
     (let s = sl_session l; st = sl_stream l; q = ss_chans s ! st_chan st in
      session_wf s \<and> st_chan st < length (ss_chans s) \<and>
      sl_got l @ st_read_buf st @ concat q = concat (sl_pushed l) \<and>
      ([] \<notin> set (sl_pushed l) \<longrightarrow>
         (if st_closed st then st_chan st \<notin> snd ` set (ss_streams s) \<and> q = [] \<and> st_read_buf st = []
          else if st_chan st \<in> snd ` set (ss_streams s) then [] \<notin> set q
          else [] \<notin> set (butlast q))))"

definition life_start :: "smux_session \<Rightarrow> smux_stream \<Rightarrow> stream_life" where
  "life_start s st = \<lparr>sl_session = s, sl_stream = st, sl_pushed = [], sl_got = []\<rparr>"

section \<open>Lemmas\<close>

subsection \<open>The codecs keep the contract\<close>

lemma second_ok_three: "a < 240 \<Longrightarrow> second_ok a b = (cont_byte b \<and> (a = 224 \<longrightarrow> 160 \<le> b) \<and> (a = 237 \<longrightarrow> b \<le> 159))"
  unfolding second_ok_def by (cases "a = 240"; cases "a = 244") simp_all

lemma second_ok_four: "240 \<le> a \<Longrightarrow> second_ok a b = (cont_byte b \<and> (a = 240 \<longrightarrow> 144 \<le> b) \<and> (a = 244 \<longrightarrow> b \<le> 143))"
  unfolding second_ok_def by (cases "a = 224"; cases "a = 237") simp_all

lemma lossy_steps:
  "a < 128 \<Longrightarrow> lossy_bytes (a # r) = a # lossy_bytes r"
  "\<not> a < 128 \<Longrightarrow> 194 \<le> a \<and> a \<le> 223 \<Longrightarrow> cont_byte b \<Longrightarrow> lossy_bytes (a # b # r) = a # b # lossy_bytes r"
  "\<not> a < 128 \<Longrightarrow> \<not> (194 \<le> a \<and> a \<le> 223) \<Longrightarrow> 224 \<le> a \<and> a \<le> 239 \<Longrightarrow> second_ok a b \<Longrightarrow> cont_byte c \<Longrightarrow>
     lossy_bytes (a # b # c # r) = a # b # c # lossy_bytes r"
  "\<not> a < 128 \<Longrightarrow> \<not> (194 \<le> a \<and> a \<le> 223) \<Longrightarrow> \<not> (224 \<le> a \<and> a \<le> 239) \<Longrightarrow> 240 \<le> a \<and> a \<le> 244 \<Longrightarrow>
     second_ok a b \<Longrightarrow> cont_byte c \<Longrightarrow> cont_byte d \<Longrightarrow>
     lossy_bytes (a # b # c # d # r) = a # b # c # d # lossy_bytes r"
  by (subst lossy_bytes.simps, simp only: if_True if_False list.case not_True_eq_False simp_thms)+

lemma valid_cases:
  assumes "valid_utf8 (a # r)"
  obtains "a < 128" "valid_utf8 r"
  | b r' where "r = b # r'" "\<not> a < 128" "194 \<le> a \<and> a \<le> 223" "cont_byte b" "valid_utf8 r'"
  | b c r' where "r = b # c # r'" "\<not> a < 128" "\<not> (194 \<le> a \<and> a \<le> 223)" "224 \<le> a \<and> a \<le> 239"
      "cont_byte b \<and> (a = 224 \<longrightarrow> 160 \<le> b) \<and> (a = 237 \<longrightarrow> b \<le> 159)" "cont_byte c" "valid_utf8 r'"
  | b c d r' where "r = b # c # d # r'" "\<not> a < 128" "\<not> (194 \<le> a \<and> a \<le> 223)" "\<not> (224 \<le> a \<and> a \<le> 239)"
      "240 \<le> a \<and> a \<le> 244" "cont_byte b \<and> (a = 240 \<longrightarrow> 144 \<le> b) \<and> (a = 244 \<longrightarrow> b \<le> 143)"
      "cont_byte c" "cont_byte d" "valid_utf8 r'"
  using assms unfolding valid_utf8.simps by (simp only: split: if_split_asm list.split_asm) blast+

declare lossy_bytes.simps(2) [simp del]

lemma lossy_valid: "valid_utf8 bs \<Longrightarrow> lossy_bytes bs = bs"
proof (induction bs rule: length_induct)
  case (1 bs)
  then have IH: "length r < length bs \<Longrightarrow> valid_utf8 r \<Longrightarrow> lossy_bytes r = r" for r by blast
  show ?case
  proof (cases bs)
    case (Cons a r)
    with 1 have "valid_utf8 (a # r)" by simp
    then show ?thesis
    proof (cases rule: valid_cases)
      case 1
      with IH [of r] Cons show ?thesis by (simp add: lossy_steps(1))
    next
      case (2 b r')
      with IH [of r'] Cons show ?thesis by (simp add: lossy_steps(2))
    next
      case (3 b c r')
      then have "a < 240" by (simp add: word_less_nat_alt word_le_nat_alt)
      with 3(5) have "second_ok a b" by (simp add: second_ok_three)
      from lossy_steps(3) [OF 3(2-4) this 3(6)] IH [OF _ 3(7)] 3(1) Cons show ?thesis by simp
    next
      case (4 b c d r')
      then have "second_ok a b" by (simp add: second_ok_four del: valid_utf8.simps)
      from lossy_steps(4) [OF 4(2-5) this 4(7,8)] IH [OF _ 4(9)] 4(1) Cons show ?thesis by simp
    qed
  qed simp
qed

lemma from_utf8_lossy_as_bytes: "valid_utf8 (as_bytes d) \<Longrightarrow> from_utf8_lossy (as_bytes d) = d"
  by (simp add: from_utf8_lossy_def lossy_valid as_bytes_def comp_def)

lemma xudp_address_round_trip:
  "socks5_encodable a \<Longrightarrow> xudp_decode_address (xudp_encode_address a @ r) = Inr (a, length (xudp_encode_address a))"
  by (cases a rule: socks5_encodable.cases)
     (simp_all add: xudp_decode_address_def sock_new_def be16.dec_enc unat_length_byte from_utf8_lossy_as_bytes)

lemma unat_length_u16: "length p < 65536 \<Longrightarrow> unat (word_of_nat (length p) :: u16) = length p"
  by (simp add: unat_of_nat)

lemma xudp_round_trip: "xudp_wf f \<Longrightarrow> xudp_decode (xudp_encode f @ r) = Inr (f, length (xudp_encode f))"
  by (cases f)
     (auto simp: xudp_decode_def xudp_payload_def xudp_encode_def Let_def xudp_address_round_trip be16.dec_enc unat_length_u16
       numeral_3_eq_3 split: option.splits)

lemma xudp_address_local:
  "xudp_decode_address d = Inr (a, n) \<Longrightarrow> n \<le> length d \<and> xudp_decode_address (d @ r) = Inr (a, n)"
  by (auto simp: xudp_decode_address_def split: list.splits if_splits)

lemma xudp_payload_local:
  "xudp_payload t i a pos d = Inr (f, n) \<Longrightarrow> n \<le> length d \<and> xudp_payload t i a pos (d @ r) = Inr (f, n)"
  by (auto simp: xudp_payload_def Let_def split: if_splits)

lemma xudp_local:
  assumes "xudp_decode d = Inr (f, n)"
  shows "n \<le> length d \<and> xudp_decode (d @ r) = Inr (f, n)"
proof -
  from assms have len: "3 \<le> length d" by (auto simp: xudp_decode_def split: if_splits)
  then have pre: "(d @ r) ! 0 = d ! 0" "take 2 (drop 1 (d @ r)) = take 2 (drop 1 d)" "drop 3 (d @ r) = drop 3 d @ r"
    by (auto simp: nth_append)
  show ?thesis
  proof (cases "d ! 0 = 1 \<or> d ! 0 = 2")
    case True
    with assms len obtain a k where a: "xudp_decode_address (drop 3 d) = Inr (a, k)"
      and p: "xudp_payload (d ! 0) (from_be (take 2 (drop 1 d))) (Some a) (3 + k) d = Inr (f, n)"
      by (auto simp: xudp_decode_def Let_def split: sum.splits)
    from xudp_address_local [OF a, of r] xudp_payload_local [OF p, of r] True len show ?thesis
      unfolding xudp_decode_def Let_def pre by simp
  next
    case False
    with assms len have p: "xudp_payload (d ! 0) (from_be (take 2 (drop 1 d))) None 3 d = Inr (f, n)"
      by (simp add: xudp_decode_def Let_def)
    from xudp_payload_local [OF p, of r] False len show ?thesis
      unfolding xudp_decode_def Let_def pre by simp
  qed
qed

lemma smux_round_trip: "smux_wf f \<Longrightarrow> smux_decode (smux_encode f @ r) = Inr (f, length (smux_encode f))"
  by (cases f)
     (simp add: smux_decode_def smux_encode_def smux_wf_def SMUX_HEADER_LEN_def Let_def unat_length_u16
       be16.dec_enc be32.dec_enc)

lemma smux_local: "smux_decode d = Inr (f, n) \<Longrightarrow> n \<le> length d \<and> smux_decode (d @ r) = Inr (f, n)"
  by (auto simp: smux_decode_def Let_def SMUX_HEADER_LEN_def nth_append split: if_splits)

interpretation xudp: frame_stream xudp_encode xudp_decode xudp_wf 1 xudp_decode_frames
proof (unfold_locales, goal_cases)
  case (5 d)
  show ?case by (subst xudp_decode_frames.simps) (simp add: Suc_le_eq)
qed (auto simp: xudp_round_trip dest: xudp_local, simp add: xudp_encode_def)

interpretation smux: frame_stream smux_encode smux_decode smux_wf SMUX_HEADER_LEN decode_smux_frames
proof (unfold_locales, goal_cases)
  case (5 d)
  show ?case by (rule decode_smux_frames.simps)
qed (auto simp: smux_round_trip dest: smux_local, simp_all add: SMUX_HEADER_LEN_def smux_encode_def)

subsection \<open>Streams\<close>

lemma chan_send_nth [simp]:
  "c < length (ss_chans s) \<Longrightarrow> ss_chans (chan_send c x s) ! k = (if k = c then ss_chans s ! c @ [x] else ss_chans s ! k)"
  by (simp add: chan_send_def nth_list_update)

lemma chan_send_fields [simp]:
  "length (ss_chans (chan_send c x s)) = length (ss_chans s)" "ss_streams (chan_send c x s) = ss_streams s"
  by (simp_all add: chan_send_def)

lemma streams_insert:
  assumes "hm_wf m" and "distinct (map snd m)" and "v \<notin> snd ` set m"
  shows "distinct (map snd (hm_insert k v m))" and "snd ` set (hm_insert k v m) = insert v (snd ` set (hm_remove k m))"
proof -
  have m: "mset (hm_insert k v m) = add_mset (k, v) (mset (hm_remove k m))" using assms(1) by (rule hm_mset_insert)
  then have "mset (map snd (hm_insert k v m)) = mset (v # map snd (hm_remove k m))" by simp
  then have "distinct (map snd (hm_insert k v m)) = distinct (v # map snd (hm_remove k m))"
    by (rule mset_eq_imp_distinct_iff)
  with assms(2,3) show "distinct (map snd (hm_insert k v m))"
    by (auto simp: hm_remove_def distinct_map_filter)
  from arg_cong [OF m, of set_mset] show "snd ` set (hm_insert k v m) = insert v (snd ` set (hm_remove k m))"
    by simp
qed

lemma streams_remove:
  assumes "hm_wf m" and "distinct (map snd m)" and "hm_get m k = Some c"
  shows "snd ` set (hm_remove k m) = snd ` set m - {c}"
proof -
  have m: "mset m = add_mset (k, c) (mset (hm_remove k m))" using assms(1,3) by (rule hm_mset_get)
  then have "mset (map snd m) = mset (c # map snd (hm_remove k m))" by simp
  then have "distinct (map snd m) = distinct (c # map snd (hm_remove k m))" by (rule mset_eq_imp_distinct_iff)
  with assms(2) have "distinct (c # map snd (hm_remove k m))" by blast
  then have "c \<notin> snd ` set (hm_remove k m)" by simp
  moreover from arg_cong [OF m, of "\<lambda>x. snd ` set_mset x"] have "snd ` set m = insert c (snd ` set (hm_remove k m))"
    by (simp only: set_mset_mset set_mset_add_mset_insert image_insert snd_conv)
  ultimately show ?thesis by blast
qed

lemma open_stream_wf:
  assumes "session_wf s"
  shows "session_wf (fst (open_stream s))"
    and "ss_chans (fst (open_stream s)) = ss_chans s @ [[]]"
    and "snd ` set (ss_streams (fst (open_stream s))) - {length (ss_chans s)} \<subseteq> snd ` set (ss_streams s)"
proof -
  let ?m = "hm_insert (ss_next_id s) (length (ss_chans s)) (ss_streams s)"
  have f: "ss_streams (fst (open_stream s)) = ?m" and c: "ss_chans (fst (open_stream s)) = ss_chans s @ [[]]"
    by (simp_all add: open_stream_def Let_def)
  have fresh: "length (ss_chans s) \<notin> snd ` set (ss_streams s)" using assms by (auto simp: session_wf_def)
  have sub: "set (hm_remove (ss_next_id s) (ss_streams s)) \<subseteq> set (ss_streams s)" by (auto simp: hm_remove_def)
  note ins = streams_insert [OF _ _ fresh, of "ss_next_id s"]
  from assms ins sub show "session_wf (fst (open_stream s))"
    unfolding session_wf_def f c by (auto simp: less_Suc_eq)
  show "ss_chans (fst (open_stream s)) = ss_chans s @ [[]]" by (rule c)
  from assms ins sub show "snd ` set (ss_streams (fst (open_stream s))) - {length (ss_chans s)} \<subseteq> snd ` set (ss_streams s)"
    unfolding session_wf_def f by auto
qed

lemma session_wf_get: "session_wf s \<Longrightarrow> hm_get (ss_streams s) k = Some c \<Longrightarrow> c < length (ss_chans s) \<and> c \<in> snd ` set (ss_streams s)"
  unfolding session_wf_def by (force dest: hm_get_SomeD)

lemma session_wf_send [simp]: "session_wf (chan_send c x s) = session_wf s"
  by (simp add: session_wf_def)

lemma session_wf_remove:
  "session_wf s \<Longrightarrow> session_wf (s\<lparr>ss_streams := hm_remove k (ss_streams s)\<rparr>)"
  unfolding session_wf_def by (auto simp: hm_remove_def distinct_map_filter)

lemma life_arrive: assumes "life_inv l" shows "life_inv (stream_do (Arrive f) l)"
proof (cases "hm_get (ss_streams (sl_session l)) (sf_stream_id f)")
  case (Some c)
  have wf: "session_wf (sl_session l)" using assms by (simp add: life_inv_def Let_def)
  note c = session_wf_get [OF wf Some]
  have r: "snd ` set (hm_remove (sf_stream_id f) (ss_streams (sl_session l))) = snd ` set (ss_streams (sl_session l)) - {c}"
    using wf Some by (intro streams_remove) (auto simp: session_wf_def)
  consider "sf_cmd f = 2" | "sf_cmd f = 1" | "sf_cmd f \<noteq> 2" "sf_cmd f \<noteq> 1" by blast
  then show ?thesis
  proof cases
    case 1
    with assms Some c show ?thesis
      by (cases "c = st_chan (sl_stream l)") (auto simp: life_inv_def Let_def dispatch_frame_def split: if_splits)
  next
    case 2
    with assms Some c r session_wf_remove [OF wf, of "sf_stream_id f"] show ?thesis
      by (cases "c = st_chan (sl_stream l)") (auto simp: life_inv_def Let_def dispatch_frame_def split: if_splits)
  qed (use assms in \<open>simp add: dispatch_frame_def\<close>)
qed (use assms in \<open>simp add: dispatch_frame_def\<close>)

lemma session_wf_chans: "length cs = length (ss_chans s) \<Longrightarrow> session_wf (s\<lparr>ss_chans := cs\<rparr>) = session_wf s"
  by (simp add: session_wf_def)

lemma take_drop_append [simp]: "take n xs @ drop n xs @ r = xs @ r"
  by (simp flip: append_assoc)

lemma life_read: assumes "life_inv l" shows "life_inv (stream_do (ReadUpTo n) l)"
proof -
  let ?q = "ss_chans (sl_session l) ! st_chan (sl_stream l)"
  consider "st_read_buf (sl_stream l) \<noteq> []" | "st_read_buf (sl_stream l) = []" "st_closed (sl_stream l)"
    | "st_read_buf (sl_stream l) = []" "\<not> st_closed (sl_stream l)" by blast
  then show ?thesis
  proof cases
    case 1
    with assms show ?thesis by (auto simp: life_inv_def Let_def poll_read_def split: if_splits)
  next
    case 2
    with assms show ?thesis by (simp add: life_inv_def Let_def poll_read_def)
  next
    case 3
    show ?thesis
    proof (cases ?q)
      case Nil
      with 3 assms show ?thesis by (auto simp: life_inv_def Let_def poll_read_def poll_recv_def)
    next
      case (Cons x q)
      with 3 assms show ?thesis
        by (cases q) (auto simp: life_inv_def Let_def poll_read_def poll_recv_def session_wf_chans split: if_splits)
    qed
  qed
qed

lemma life_open: assumes "life_inv l" shows "life_inv (stream_do OpenOther l)"
proof -
  have wf: "session_wf (sl_session l)" and c: "st_chan (sl_stream l) < length (ss_chans (sl_session l))"
    using assms by (simp_all add: life_inv_def Let_def)
  from c open_stream_wf(3) [OF wf] have "st_chan (sl_stream l) \<in> snd ` set (ss_streams (fst (open_stream (sl_session l)))) \<Longrightarrow>
      st_chan (sl_stream l) \<in> snd ` set (ss_streams (sl_session l))" by auto
  with assms c open_stream_wf(1,2) [OF wf] show ?thesis
    by (auto simp: life_inv_def Let_def nth_append dest: in_set_butlastD split: if_splits)
qed

lemma poll_write_fields [simp]:
  "ss_streams (fst (poll_write bs st s)) = ss_streams s" "ss_chans (fst (poll_write bs st s)) = ss_chans s"
  by (simp_all add: poll_write_def try_send_def Let_def split: sum.split)

lemma life_step: "life_inv l \<Longrightarrow> life_inv (stream_do x l)"
proof (cases x)
  case (WriteOut bs)
  moreover assume "life_inv l"
  ultimately show ?thesis by (simp add: life_inv_def session_wf_def Let_def)
qed (simp_all only: life_arrive life_read life_open)

interpretation stream_lives: preserved stream_do life_inv
  by unfold_locales (rule life_step)

lemma life_start_inv:
  assumes "session_wf s" and "open_stream s = (s', Opened st)"
  shows "life_inv (life_start s' st)"
proof -
  from assms(2) have st: "st_chan st = length (ss_chans s)" "st_read_buf st = []" "\<not> st_closed st"
    by (auto simp: open_stream_def Let_def split: if_splits)
  with open_stream_wf [OF assms(1)] assms(2) show ?thesis
    by (auto simp: life_inv_def life_start_def Let_def nth_append)
qed

lemma session_new_wf [simp]: "session_wf (smux_session_new cap)"
  by (simp add: session_wf_def smux_session_new_def)

section \<open>Properties\<close>

definition sample_frames :: "xudp_frame list" where
  "sample_frames = [xudp_new_session 7 (Domain ''a.b'' 53), xudp_data 7 (Ip (SockV4 0x01020304 80)) [1, 2], xudp_close 7]"

definition sample_life_ops :: "stream_op list" where
  "sample_life_ops =
     [Arrive (smux_psh 1 [1, 2, 3]), ReadUpTo 2, OpenOther, Arrive (smux_psh 3 [9]), Arrive (smux_psh 1 [4]),
      Arrive (smux_fin 1), ReadUpTo 8, ReadUpTo 8, ReadUpTo 8]"

text \<open>C16. Both multiplexers split a byte stream back into its frames, wherever the stream is cut: a buffer holding
  the encodings of some frames followed by an incomplete one decodes to exactly those frames, and the count of
  consumed bytes leaves exactly the incomplete frame for the next read.  XUDP frames carry an address exactly when
  their type is new or data, and payloads have at most 65535 bytes.\<close>

theorem mux_streams_split:
  assumes "list_all xudp_wf fs" and "xudp_wf f" and "strict_prefix p (xudp_encode f)"
    and "list_all smux_wf gs" and "smux_wf g" and "strict_prefix q (smux_encode g)"
  shows "xudp_decode_frames (xudp_encode_frames fs @ p) = (fs, length (xudp_encode_frames fs)) \<and>
    decode_smux_frames (concat (map smux_encode gs) @ q) = (gs, length (concat (map smux_encode gs)))"
  using xudp.dec_all_cut [OF assms(1-3)] smux.dec_all_cut [OF assms(4-6)] by (simp add: xudp_encode_frames_def)

theorem mux_streams_split_witness:
  "xudp_decode_frames (xudp_encode_frames sample_frames @ [4]) = (sample_frames, length (xudp_encode_frames sample_frames)) \<and>
   decode_smux_frames (concat (map smux_encode [smux_syn 1, smux_psh 1 [5, 6]]) @ [1, 3]) =
     ([smux_syn 1, smux_psh 1 [5, 6]], length (concat (map smux_encode [smux_syn 1, smux_psh 1 [5, 6]])))"
proof (rule mux_streams_split)
  show "list_all xudp_wf sample_frames"
    by (simp add: sample_frames_def xudp_new_session_def xudp_data_def xudp_close_def as_bytes_def)
  show "xudp_wf xudp_keepalive" by (simp add: xudp_keepalive_def)
  show "strict_prefix [4] (xudp_encode xudp_keepalive)"
    by (simp add: strict_prefix_def xudp_encode_def xudp_keepalive_def numeral_2_eq_2)
  show "list_all smux_wf [smux_syn 1, smux_psh 1 [5, 6]]" by (simp add: smux_wf_def smux_syn_def smux_psh_def)
  show "smux_wf smux_nop" by (simp add: smux_wf_def smux_nop_def)
  show "strict_prefix [1, 3] (smux_encode smux_nop)"
    by (simp add: strict_prefix_def smux_encode_def smux_nop_def numeral_2_eq_2)
qed



text \<open>An empty push ends the stream for its reader, although the sender goes on: the marker of the end is an empty
  chunk in the same channel.\<close>

lemma smux_empty_push_ends_stream:
  "let l = fold stream_do [Arrive (smux_psh 1 []), ReadUpTo 8, Arrive (smux_psh 1 [7]), ReadUpTo 8]
     (life_start (fst (open_stream (smux_session_new 4))) \<lparr>st_id = 1, st_chan = 0, st_read_buf = [], st_closed = False\<rparr>) in
   st_closed (sl_stream l) \<and> sl_pushed l = [[], [7]] \<and> sl_got l = []"
  by code_simp

end
