(* ===== verification/OutboundManager.thy ===== *)
theory OutboundManager
  imports ProxyGroups
begin

text \<open>
  Outbounds: the errors of the proxy and their classes, \<^verbatim>\<open>src/src/common/error.rs\<close>; the aliases of protocols,
  \<^verbatim>\<open>src/src/config/mod.rs\<close>; the manager that builds the table of outbound handlers with chains and groups,
  \<^verbatim>\<open>src/src/app/outbound_manager.rs\<close>; and the mode switch of \<^verbatim>\<open>src/src/app/clash_mode.rs\<close>.  The constructors of the
  outbounds of each protocol are a parameter: whether the settings of an outbound are accepted.  The order in which
  a hash map is iterated is not specified, so the operation that depends on it takes the order as an argument.
\<close>

section \<open>Definitions\<close>

subsection \<open>Errors\<close>

datatype io_kind = IoRefused | IoReset | IoAborted | IoBrokenPipe | IoTimedOut | IoOther string

datatype proxy_error =
    IoError io_kind
  | ProtocolError string
  | ConfigError string
  | DnsResolutionFailed string
  | ConnectionRefused string
  | ConnectionTimeout string
  | TlsHandshakeFailed string
  | AuthenticationFailed string
  | CircuitBreakerOpen string
  | RateLimited string
  | Cancelled
  | Unsupported string
  | OtherError string

datatype error_kind =
    EkIo | EkProtocol | EkConfig | EkDnsResolutionFailed | EkConnectionRefused | EkConnectionTimeout
  | EkTlsHandshakeFailed | EkAuthenticationFailed | EkCircuitBreakerOpen | EkRateLimited | EkCancelled | EkUnsupported | EkOther

fun is_retryable :: "proxy_error \<Rightarrow> bool" where
  "is_retryable (ConnectionTimeout _) = True"
| "is_retryable (DnsResolutionFailed _) = True"
| "is_retryable (IoError _) = True"
| "is_retryable _ = False"

fun should_switch_node :: "proxy_error \<Rightarrow> bool" where
  "should_switch_node (ConnectionRefused _) = True"
| "should_switch_node (ConnectionTimeout _) = True"
| "should_switch_node (TlsHandshakeFailed _) = True"
| "should_switch_node (CircuitBreakerOpen _) = True"
| "should_switch_node _ = False"

fun is_permanent :: "proxy_error \<Rightarrow> bool" where
  "is_permanent (ConfigError _) = True"
| "is_permanent (Unsupported _) = True"
| "is_permanent (AuthenticationFailed _) = True"
| "is_permanent Cancelled = True"
| "is_permanent _ = False"

fun error_kind_of :: "proxy_error \<Rightarrow> error_kind" where
  "error_kind_of (IoError _) = EkIo"
| "error_kind_of (ProtocolError _) = EkProtocol"
| "error_kind_of (ConfigError _) = EkConfig"
| "error_kind_of (DnsResolutionFailed _) = EkDnsResolutionFailed"
| "error_kind_of (ConnectionRefused _) = EkConnectionRefused"
| "error_kind_of (ConnectionTimeout _) = EkConnectionTimeout"
| "error_kind_of (TlsHandshakeFailed _) = EkTlsHandshakeFailed"
| "error_kind_of (AuthenticationFailed _) = EkAuthenticationFailed"
| "error_kind_of (CircuitBreakerOpen _) = EkCircuitBreakerOpen"
| "error_kind_of (RateLimited _) = EkRateLimited"
| "error_kind_of Cancelled = EkCancelled"
| "error_kind_of (Unsupported _) = EkUnsupported"
| "error_kind_of (OtherError _) = EkOther"

definition kind_is_retryable :: "error_kind \<Rightarrow> bool" where
  "kind_is_retryable k \<longleftrightarrow> k \<in> {EkConnectionTimeout, EkDnsResolutionFailed, EkIo}"

definition kind_should_switch_node :: "error_kind \<Rightarrow> bool" where
  "kind_should_switch_node k \<longleftrightarrow> k \<in> {EkConnectionRefused, EkConnectionTimeout, EkTlsHandshakeFailed, EkCircuitBreakerOpen}"

definition kind_is_permanent :: "error_kind \<Rightarrow> bool" where
  "kind_is_permanent k \<longleftrightarrow> k \<in> {EkConfig, EkUnsupported, EkAuthenticationFailed, EkCancelled}"

fun kind_as_str :: "error_kind \<Rightarrow> string" where
  "kind_as_str EkIo = ''IO''"
| "kind_as_str EkProtocol = ''PROTOCOL''"
| "kind_as_str EkConfig = ''CONFIG''"
| "kind_as_str EkDnsResolutionFailed = ''DNS_FAILED''"
| "kind_as_str EkConnectionRefused = ''CONN_REFUSED''"
| "kind_as_str EkConnectionTimeout = ''CONN_TIMEOUT''"
| "kind_as_str EkTlsHandshakeFailed = ''TLS_FAILED''"
| "kind_as_str EkAuthenticationFailed = ''AUTH_FAILED''"
| "kind_as_str EkCircuitBreakerOpen = ''CIRCUIT_OPEN''"
| "kind_as_str EkRateLimited = ''RATE_LIMITED''"
| "kind_as_str EkCancelled = ''CANCELLED''"
| "kind_as_str EkUnsupported = ''UNSUPPORTED''"
| "kind_as_str EkOther = ''OTHER''"

text \<open>What an \<^verbatim>\<open>anyhow::Error\<close> holds, as far as \<^verbatim>\<open>classify\<close> can see it.\<close>

datatype any_error = AnyProxy proxy_error | AnyIo io_kind | AnyOther string

fun classify :: "any_error \<Rightarrow> error_kind" where
  "classify (AnyProxy e) = error_kind_of e"
| "classify (AnyIo IoRefused) = EkConnectionRefused"
| "classify (AnyIo IoReset) = EkConnectionRefused"
| "classify (AnyIo IoAborted) = EkConnectionRefused"
| "classify (AnyIo IoBrokenPipe) = EkConnectionRefused"
| "classify (AnyIo IoTimedOut) = EkConnectionTimeout"
| "classify (AnyIo (IoOther _)) = EkIo"
| "classify (AnyOther _) = EkOther"

subsection \<open>Aliases of protocols\<close>

text \<open>The settings of an outbound that its alias or the manager looks at.\<close>

record outbound_config =
  oc_tag :: string
  oc_protocol :: string
  oc_flow :: "string option"
  oc_security :: "string option"
  oc_tls :: "(bool \<times> string) option"
  oc_transport :: "string option"
  oc_chain :: "string list option"

definition ensure_tls_security :: "string \<Rightarrow> outbound_config \<Rightarrow> outbound_config" where
  "ensure_tls_security sec c = c\<lparr>oc_security := Some sec, oc_tls := Some (True, sec)\<rparr>"

definition set_transport_type :: "string \<Rightarrow> outbound_config \<Rightarrow> outbound_config" where
  "set_transport_type ty c = c\<lparr>oc_transport := Some ty\<rparr>"

definition normalize_outbound_alias :: "outbound_config \<Rightarrow> outbound_config" where
  "normalize_outbound_alias c =
     (let p = to_lowercase (trim (oc_protocol c)); as = (\<lambda>q. c\<lparr>oc_protocol := q\<rparr>) in
      if p = ''vless-tcp-reality-vision'' then ensure_tls_security ''reality'' ((as ''vless'')\<lparr>oc_flow := Some ''xtls-rprx-vision''\<rparr>)
      else if p = ''vless-xhttp-reality-enc'' then ensure_tls_security ''reality'' (set_transport_type ''xhttp'' (as ''vless''))
      else if p = ''vless-xhttp-enc'' then ensure_tls_security ''tls'' (set_transport_type ''xhttp'' (as ''vless''))
      else if p = ''vless-ws-enc'' then ensure_tls_security ''tls'' (set_transport_type ''ws'' (as ''vless''))
      else if p = ''anytls'' \<or> p = ''any-tls'' then
        (let c' = set_transport_type ''anytls'' (as ''vless'') in
         if oc_security c' = None then ensure_tls_security ''tls'' c' else c')
      else if p = ''any-reality'' \<or> p = ''anytls-reality'' then ensure_tls_security ''reality'' (set_transport_type ''anytls'' (as ''vless''))
      else if p = ''shadowsocks-2022'' \<or> p = ''ss-2022'' then as ''shadowsocks''
      else if p = ''vmess-ws'' then set_transport_type ''ws'' (as ''vmess'')
      else if p = ''socks'' then as ''socks5''
      else c)"

subsection \<open>The manager\<close>

datatype om_error =
    UnsupportedProtocol string
  | ConstructorFailed string string
  | ChainMissing string
  | ChainEmpty string
  | ChainSelf string
  | ChainUnknownHop string string
  | ChainInChain string string
  | ChainUninitialised string string
  | GroupFailed group_error

text \<open>The table of handlers, the tags whose handler is a \<^verbatim>\<open>DirectOutbound\<close> (the dynamic type the dispatcher asks
  for), the hops of the chains, and type and members of the groups.\<close>

record outbound_manager =
  om_handlers :: "(string, handler) hashmap"
  om_direct :: "string list"
  om_chains :: "(string, handler list) hashmap"
  om_group_metas :: "(string, string \<times> string list) hashmap"

definition infallible_protocols :: "string list" where
  "infallible_protocols = [''direct'', ''reject'', ''block'', ''blackhole'']"

definition fallible_protocols :: "string list" where
  "fallible_protocols =
     [''vless'', ''hysteria2'', ''hysteria'', ''hysteria1'', ''shadowsocks'', ''ss'', ''trojan'', ''vmess'', ''wireguard'', ''wg'',
      ''http'', ''https'', ''socks5'', ''socks'', ''ssh'', ''tuic'', ''tor'', ''naive'', ''naiveproxy'', ''masque'']"

text \<open>\<^term>\<open>accept\<close> stands for the constructors: the error of the constructor, or none.\<close>

fun register_base ::
  "(outbound_config \<Rightarrow> string option) \<Rightarrow> outbound_config list \<Rightarrow> outbound_manager \<Rightarrow> (om_error, outbound_manager) result" where
  "register_base accept [] m = Inr m"
| "register_base accept (c # cs) m =
     (if oc_protocol c = ''chain'' then register_base accept cs m
      else if oc_protocol c \<notin> set infallible_protocols \<union> set fallible_protocols then Inl (UnsupportedProtocol (oc_protocol c))
      else (case (if oc_protocol c \<in> set infallible_protocols then None else accept c) of
          Some e \<Rightarrow> Inl (ConstructorFailed (oc_tag c) e)
        | None \<Rightarrow> register_base accept cs
            (m\<lparr>om_handlers := hm_insert (oc_tag c) (Plain (oc_tag c)) (om_handlers m),
               om_direct := (if oc_protocol c = ''direct'' then oc_tag c # om_direct m else removeAll (oc_tag c) (om_direct m))\<rparr>)))"

definition config_map :: "outbound_config list \<Rightarrow> (string, outbound_config) hashmap" where
  "config_map cs = fold (\<lambda>c m. hm_insert (oc_tag c) c m) cs []"

fun resolve_hops ::
  "(string, outbound_config) hashmap \<Rightarrow> (string, handler) hashmap \<Rightarrow> string \<Rightarrow> string list \<Rightarrow> (om_error, handler list) result" where
  "resolve_hops cm hs tag [] = Inr []"
| "resolve_hops cm hs tag (hop # hops) =
     (if hop = tag then Inl (ChainSelf tag)
      else case hm_get cm hop of
          None \<Rightarrow> Inl (ChainUnknownHop tag hop)
        | Some hc \<Rightarrow>
            if oc_protocol hc = ''chain'' then Inl (ChainInChain tag hop)
            else (case hm_get hs hop of
                None \<Rightarrow> Inl (ChainUninitialised tag hop)
              | Some h \<Rightarrow> (case resolve_hops cm hs tag hops of Inl e \<Rightarrow> Inl e | Inr r \<Rightarrow> Inr (h # r))))"

fun register_chains ::
  "(string, outbound_config) hashmap \<Rightarrow> outbound_config list \<Rightarrow> outbound_manager \<Rightarrow> (om_error, outbound_manager) result" where
  "register_chains cm [] m = Inr m"
| "register_chains cm (c # cs) m =
     (if oc_protocol c \<noteq> ''chain'' then register_chains cm cs m
      else case oc_chain c of
          None \<Rightarrow> Inl (ChainMissing (oc_tag c))
        | Some [] \<Rightarrow> Inl (ChainEmpty (oc_tag c))
        | Some hops \<Rightarrow>
            (case resolve_hops cm (om_handlers m) (oc_tag c) hops of
               Inl e \<Rightarrow> Inl e
             | Inr hs \<Rightarrow> register_chains cm cs
                 (m\<lparr>om_handlers := hm_insert (oc_tag c) (Plain (oc_tag c)) (om_handlers m),
                    om_direct := removeAll (oc_tag c) (om_direct m),
                    om_chains := hm_insert (oc_tag c) hs (om_chains m)\<rparr>)))"

definition manager_new ::
  "(outbound_config \<Rightarrow> string option) \<Rightarrow> outbound_config list \<Rightarrow> group_config list \<Rightarrow> (om_error, outbound_manager) result" where
  "manager_new accept configs groups =
     (let cs = map normalize_outbound_alias configs in
      case register_base accept cs \<lparr>om_handlers = [], om_direct = [], om_chains = [], om_group_metas = []\<rparr> of
        Inl e \<Rightarrow> Inl e
      | Inr m1 \<Rightarrow>
        (case register_chains (config_map cs) cs m1 of
           Inl e \<Rightarrow> Inl e
         | Inr m2 \<Rightarrow>
           (case build_proxy_groups groups (om_handlers m2) of
              Inl e \<Rightarrow> Inl (GroupFailed e)
            | Inr gs \<Rightarrow>
                Inr (m2\<lparr>om_handlers := fold (\<lambda>(n, h) m. hm_insert n h m) gs (om_handlers m2),
                        om_group_metas := fold (\<lambda>c m. hm_insert (pg_name c) (pg_type c, pg_proxies c) m) groups []\<rparr>))))"

definition manager_get :: "string \<Rightarrow> outbound_manager \<Rightarrow> handler option" where
  "manager_get tag m = hm_get (om_handlers m) tag"

definition is_group :: "string \<Rightarrow> outbound_manager \<Rightarrow> bool" where
  "is_group name m \<longleftrightarrow> hm_get (om_group_metas m) name \<noteq> None"

fun handler_tag :: "handler \<Rightarrow> string" where
  "handler_tag (Plain t) = t"
| "handler_tag (Group n _ _ _) = n"

fun is_direct_outbound :: "outbound_manager \<Rightarrow> handler \<Rightarrow> bool" where
  "is_direct_outbound m (Plain t) = (t \<in> set (om_direct m))"
| "is_direct_outbound m (Group _ _ _ _) = False"

text \<open>The first tag in the iteration orders \<^term>\<open>gs\<close> of the groups and \<^term>\<open>ts\<close> of the handlers.\<close>

definition first_proxy_tag :: "string list \<Rightarrow> string list \<Rightarrow> outbound_manager \<Rightarrow> string option" where
  "first_proxy_tag gs ts m =
     (case find (\<lambda>n. map_option fst (hm_get (om_group_metas m) n) = Some ''selector'') gs of
        Some n \<Rightarrow> Some n
      | None \<Rightarrow> find (\<lambda>t. t \<noteq> ''direct'' \<and> t \<noteq> ''reject'') ts)"

subsection \<open>Modes\<close>

datatype clash_mode = RuleMode | GlobalMode | DirectMode

fun mode_as_str :: "clash_mode \<Rightarrow> string" where
  "mode_as_str RuleMode = ''rule''"
| "mode_as_str GlobalMode = ''global''"
| "mode_as_str DirectMode = ''direct''"

definition mode_from_str :: "string \<Rightarrow> clash_mode option" where
  "mode_from_str s =
     (let l = to_lowercase s in
      if l = ''rule'' \<or> l = ''rules'' then Some RuleMode
      else if l = ''global'' then Some GlobalMode
      else if l = ''direct'' then Some DirectMode
      else None)"

text \<open>The mode is stored as a byte.\<close>

fun mode_byte :: "clash_mode \<Rightarrow> byte" where
  "mode_byte RuleMode = 0"
| "mode_byte GlobalMode = 1"
| "mode_byte DirectMode = 2"

definition get_mode :: "byte \<Rightarrow> clash_mode" where
  "get_mode b = (if b = 1 then GlobalMode else if b = 2 then DirectMode else RuleMode)"

definition set_mode :: "clash_mode \<Rightarrow> byte \<Rightarrow> byte" where
  "set_mode m _ = mode_byte m"

definition set_mode_str :: "string \<Rightarrow> byte \<Rightarrow> bool \<times> byte" where
  "set_mode_str s b = (case mode_from_str s of Some m \<Rightarrow> (True, set_mode m b) | None \<Rightarrow> (False, b))"

section \<open>Lemmas\<close>

lemma kinds_agree:
  "kind_is_retryable (error_kind_of e) = is_retryable e"
  "kind_should_switch_node (error_kind_of e) = should_switch_node e"
  "kind_is_permanent (error_kind_of e) = is_permanent e"
  by (cases e; simp add: kind_is_retryable_def kind_should_switch_node_def kind_is_permanent_def)+

lemma retryable_not_permanent: "is_retryable e \<Longrightarrow> \<not> is_permanent e"
  by (cases e) simp_all

lemma mode_round_trip [simp]: "get_mode (set_mode m b) = m" "mode_from_str (mode_as_str m) = Some m"
  by (cases m; simp add: get_mode_def set_mode_def mode_from_str_def to_lowercase_def to_lower_char_def)+

subsection \<open>Aliases\<close>

lemmas alias_defs = normalize_outbound_alias_def ensure_tls_security_def set_transport_type_def

text \<open>The configuration loader and the manager both resolve aliases; doing it twice is doing it once.\<close>

lemma normalize_protocol:
  "oc_protocol (normalize_outbound_alias c) \<in> {''vless'', ''shadowsocks'', ''vmess'', ''socks5''} \<or> normalize_outbound_alias c = c"
  by (simp add: alias_defs Let_def)

lemma normalize_fixed:
  "oc_protocol c \<in> {''vless'', ''shadowsocks'', ''vmess'', ''socks5''} \<Longrightarrow> normalize_outbound_alias c = c"
  by (auto simp: alias_defs trim_def is_ws_def to_lowercase_def to_lower_char_def)

lemma normalize_idem: "normalize_outbound_alias (normalize_outbound_alias c) = normalize_outbound_alias c"
  using normalize_protocol [of c] normalize_fixed by force

lemma normalize_tag [simp]: "oc_tag (normalize_outbound_alias c) = oc_tag c"
  by (simp add: alias_defs Let_def)

subsection \<open>The table\<close>

definition tags_where :: "(outbound_config \<Rightarrow> bool) \<Rightarrow> outbound_config list \<Rightarrow> string set" where
  "tags_where P cs = oc_tag ` {c \<in> set cs. P c}"

lemma tags_where_simps [simp]:
  "tags_where P [] = {}" "tags_where P (c # cs) = (if P c then insert (oc_tag c) (tags_where P cs) else tags_where P cs)"
  by (auto simp: tags_where_def)

lemma register_base_handlers:
  "register_base accept cs m = Inr m' \<Longrightarrow>
     hm_get (om_handlers m') t =
       (if t \<in> tags_where (\<lambda>c. oc_protocol c \<noteq> ''chain'') cs then Some (Plain t) else hm_get (om_handlers m) t)"
  by (induction accept cs m rule: register_base.induct) (auto split: if_splits option.splits)

lemma register_base_direct:
  "register_base accept cs m = Inr m' \<Longrightarrow>
     set (om_direct m') \<subseteq> set (om_direct m) \<union> tags_where (\<lambda>c. oc_protocol c = ''direct'') cs \<and> om_chains m' = om_chains m"
  by (induction accept cs m rule: register_base.induct) (force split: if_splits option.splits)+

lemma register_chains_handlers:
  "register_chains cm cs m = Inr m' \<Longrightarrow>
     hm_get (om_handlers m') t =
       (if t \<in> tags_where (\<lambda>c. oc_protocol c = ''chain'') cs then Some (Plain t) else hm_get (om_handlers m) t)"
  by (induction cm cs m rule: register_chains.induct) (auto split: if_splits option.splits list.splits sum.splits)

lemma resolve_hops_ok:
  "resolve_hops cm hs tag hops = Inr r \<Longrightarrow>
     list_all2 (\<lambda>hop h. hop \<noteq> tag \<and> hm_get hs hop = Some h \<and>
        (\<exists>c. hm_get cm hop = Some c \<and> oc_protocol c \<noteq> ''chain'')) hops r"
  by (induction cm hs tag hops arbitrary: r rule: resolve_hops.induct)
     (auto split: if_splits option.splits sum.splits)

lemma config_map_get: "hm_get (config_map cs) t = Some c \<Longrightarrow> c \<in> set cs \<and> oc_tag c = t"
  unfolding config_map_def by (induction cs rule: rev_induct) (auto split: if_splits)

text \<open>The invariant of the table while base outbounds and chains are registered.\<close>

definition chains_ok :: "(string, outbound_config) hashmap \<Rightarrow> outbound_manager \<Rightarrow> bool" where
  "chains_ok cm m \<longleftrightarrow>
     (\<forall>t h. hm_get (om_handlers m) t = Some h \<longrightarrow> h = Plain t) \<and>
     (\<forall>t hs. hm_get (om_chains m) t = Some hs \<longrightarrow> hs \<noteq> [] \<and>
        (\<forall>h \<in> set hs. \<exists>hop c. h = Plain hop \<and> hop \<noteq> t \<and> hm_get cm hop = Some c \<and> oc_protocol c \<noteq> ''chain''))"

lemma chains_ok_insert:
  assumes "chains_ok cm m" and "resolve_hops cm (om_handlers m) tag hops = Inr hs" and "hops \<noteq> []"
  shows "chains_ok cm (m\<lparr>om_handlers := hm_insert tag (Plain tag) (om_handlers m), om_direct := d,
     om_chains := hm_insert tag hs (om_chains m)\<rparr>)"
proof -
  have l: "list_all2 (\<lambda>hop h. hop \<noteq> tag \<and> hm_get (om_handlers m) hop = Some h \<and>
      (\<exists>c. hm_get cm hop = Some c \<and> oc_protocol c \<noteq> ''chain'')) hops hs"
    using assms(2) by (rule resolve_hops_ok)
  then have "hs \<noteq> []" using assms(3) by auto
  moreover have "\<exists>hop c. h = Plain hop \<and> hop \<noteq> tag \<and> hm_get cm hop = Some c \<and> oc_protocol c \<noteq> ''chain''"
    if "h \<in> set hs" for h
  proof -
    from that obtain i where "i < length hs" "hs ! i = h" by (auto simp: in_set_conv_nth)
    with l have "hops ! i \<noteq> tag" "hm_get (om_handlers m) (hops ! i) = Some h"
      "\<exists>c. hm_get cm (hops ! i) = Some c \<and> oc_protocol c \<noteq> ''chain''"
      by (auto simp: list_all2_conv_all_nth)
    moreover from this(2) assms(1) have "h = Plain (hops ! i)" by (simp add: chains_ok_def)
    ultimately show ?thesis by blast
  qed
  ultimately show ?thesis using assms(1) by (auto simp: chains_ok_def)
qed

lemma register_chains_ok:
  "register_chains cm cs m = Inr m' \<Longrightarrow> chains_ok cm m \<Longrightarrow> chains_ok cm m' \<and> set (om_direct m') \<subseteq> set (om_direct m)"
proof (induction cm cs m rule: register_chains.induct)
  case (2 cm c cs m)
  show ?case
  proof (cases "oc_protocol c = ''chain''")
    case False
    with 2 show ?thesis by simp
  next
    case True
    with 2(3) obtain hop hops where hops: "oc_chain c = Some (hop # hops)"
      by (auto split: option.splits list.splits)
    with True 2(3) obtain hs where hs: "resolve_hops cm (om_handlers m) (oc_tag c) (hop # hops) = Inr hs"
      by (auto split: sum.splits)
    let ?m = "m\<lparr>om_handlers := hm_insert (oc_tag c) (Plain (oc_tag c)) (om_handlers m),
                om_direct := removeAll (oc_tag c) (om_direct m), om_chains := hm_insert (oc_tag c) hs (om_chains m)\<rparr>"
    have "chains_ok cm ?m" using chains_ok_insert [OF 2(4) hs] by simp
    moreover have "register_chains cm cs ?m = Inr m'" using 2(3) True hops hs by (simp del: resolve_hops.simps)
    ultimately show ?thesis using 2(2) [of "hop # hops" hop hops hs] True hops hs by auto
  qed
qed simp

lemma fold_insert_get:
  "hm_get (fold (\<lambda>(n, h) m. hm_insert n h m) gs m) t = (case map_of (rev gs) t of Some h \<Rightarrow> Some h | None \<Rightarrow> hm_get m t)"
  by (induction gs rule: rev_induct) auto

lemma build_groups_names:
  assumes "build_proxy_groups groups hs = Inr gs"
  shows "map fst gs = map pg_name groups" and "(n, h) \<in> set gs \<Longrightarrow> \<exists>k ms ns. h = Group n k ms ns"
proof -
  from assms have len: "length gs = length groups"
    and "\<And>i. i < length groups \<Longrightarrow> build_group hs (take i gs) (groups ! i) = Inr (gs ! i)"
    by (auto simp: build_proxy_groups_def build_from_ok)
  then have g: "\<exists>k ms ns. gs ! i = (pg_name (groups ! i), Group (pg_name (groups ! i)) k ms ns)" if "i < length groups" for i
    using that by (fastforce simp: build_group_ok)
  show "map fst gs = map pg_name groups"
  proof (rule nth_equalityI)
    fix i assume "i < length (map fst gs)"
    with len g [of i] show "map fst gs ! i = map pg_name groups ! i" by auto
  qed (simp add: len)
  show "\<exists>k ms ns. h = Group n k ms ns" if "(n, h) \<in> set gs"
  proof -
    from that obtain i where "i < length groups" "gs ! i = (n, h)" by (auto simp: in_set_conv_nth len)
    with g [of i] show ?thesis by auto
  qed
qed

lemma tags_split:
  "oc_tag ` set configs =
     tags_where (\<lambda>c. \<not> P c) (map normalize_outbound_alias configs) \<union> tags_where P (map normalize_outbound_alias configs)"
  by (induction configs) auto

lemma manager_new_cases:
  assumes "manager_new accept configs groups = Inr m"
  obtains m1 m2 gs where "register_base accept (map normalize_outbound_alias configs)
      \<lparr>om_handlers = [], om_direct = [], om_chains = [], om_group_metas = []\<rparr> = Inr m1"
    and "register_chains (config_map (map normalize_outbound_alias configs)) (map normalize_outbound_alias configs) m1 = Inr m2"
    and "build_proxy_groups groups (om_handlers m2) = Inr gs"
    and "om_handlers m = fold (\<lambda>(n, h) m. hm_insert n h m) gs (om_handlers m2)"
    and "om_direct m = om_direct m2" and "om_chains m = om_chains m2"
  using assms by (auto simp: manager_new_def Let_def split: sum.splits)

section \<open>Properties\<close>

definition sample_outbound :: "string \<Rightarrow> string \<Rightarrow> string list option \<Rightarrow> outbound_config" where
  "sample_outbound tag p ch = \<lparr>oc_tag = tag, oc_protocol = p, oc_flow = None, oc_security = None, oc_tls = None,
     oc_transport = None, oc_chain = ch\<rparr>"



end
