(* ===== verification/Dispatcher.thy ===== *)
theory Dispatcher
  imports OutboundManager FakeIp Sniff Tracker Resilience NatTable Hosts
begin

text \<open>
  The dispatcher, \<^verbatim>\<open>src/src/app/dispatcher.rs\<close>: what happens to a session an inbound hands over.  It composes the
  components of the other theories: sniffing and the reverse lookup of fake addresses rewrite the target, the mode
  and the router choose the outbound, the tracker counts the connection, the circuit breaker of the outbound admits
  it, the connection is made with retries, and the bytes relayed are accounted.  A dispatch is modelled as one
  step; what the outside does in it (the bytes read, the answer of the resolver, the outcome of every connection
  attempt, the relay, the times) is the record \<^verbatim>\<open>tcp_env\<close>.  UDP packets go through the NAT table one by one.
  The stream that replays sniffed bytes is \<^verbatim>\<open>src/src/common/stream.rs\<close>.
\<close>

section \<open>Definitions\<close>

subsection \<open>Replaying what was read\<close>

record prefixed_stream =
  pf_prefix :: "byte list"
  pf_pos :: nat
  pf_inner :: "byte list"

definition prefixed_new :: "byte list \<Rightarrow> byte list \<Rightarrow> prefixed_stream" where
  "prefixed_new p inner = \<lparr>pf_prefix = p, pf_pos = 0, pf_inner = inner\<rparr>"

text \<open>A read into a buffer with room for \<^term>\<open>n\<close> bytes; the inner stream delivers at most \<^term>\<open>k\<close> bytes now.\<close>

definition prefixed_read :: "nat \<Rightarrow> nat \<Rightarrow> prefixed_stream \<Rightarrow> byte list \<times> prefixed_stream" where
  "prefixed_read n k s =
     (if pf_pos s < length (pf_prefix s) then
        let remaining = drop (pf_pos s) (pf_prefix s); to_copy = min (length remaining) n in
        (take to_copy remaining, s\<lparr>pf_pos := pf_pos s + to_copy\<rparr>)
      else (take (min n k) (pf_inner s), s\<lparr>pf_inner := drop (min n k) (pf_inner s)\<rparr>))"

subsection \<open>The state\<close>

record dispatcher =
  dp_router :: router
  dp_providers :: prov_store
  dp_outbounds :: outbound_manager
  dp_tracker :: tracker
  dp_breakers :: "(string, breaker) hashmap"
  dp_nat :: nat_table
  dp_fakeip :: "fake_ip_pool option"
  dp_mode :: byte

record tcp_env =
  te_match :: match_env
  te_peek :: "(any_error, byte list) result"
  te_group_order :: "string list"
  te_tag_order :: "string list"
  te_resolver :: resolver
  te_connect :: "string \<Rightarrow> session \<Rightarrow> nat \<Rightarrow> (any_error, unit) result"
  te_relay :: "(any_error, u64 \<times> u64) result"
  te_now :: nat
  te_now_failed :: nat
  te_now_done :: nat
  te_elapsed_ms :: nat
  te_lock_free :: bool

definition breaker_for :: "string \<Rightarrow> dispatcher \<Rightarrow> breaker" where
  "breaker_for tag d = (case hm_get (dp_breakers d) tag of Some b \<Rightarrow> b | None \<Rightarrow> breaker_new tag breaker_config_default)"

text \<open>\<^verbatim>\<open>circuit_breaker_for\<close>: the breaker of a tag, created when it is missing.\<close>

definition circuit_breaker_for :: "string \<Rightarrow> dispatcher \<Rightarrow> breaker \<times> dispatcher" where
  "circuit_breaker_for tag d = (breaker_for tag d, d\<lparr>dp_breakers := hm_insert tag (breaker_for tag d) (dp_breakers d)\<rparr>)"

definition set_breaker :: "string \<Rightarrow> breaker \<Rightarrow> dispatcher \<Rightarrow> dispatcher" where
  "set_breaker tag b d = d\<lparr>dp_breakers := hm_insert tag b (dp_breakers d)\<rparr>"

definition on_tracker :: "(tracker \<Rightarrow> tracker) \<Rightarrow> dispatcher \<Rightarrow> dispatcher" where
  "on_tracker f d = d\<lparr>dp_tracker := f (dp_tracker d)\<rparr>"

subsection \<open>The target and the outbound\<close>

text \<open>The rewriting of a sniffed session; \<^const>\<open>None\<close> would be a panic of the sniffer.\<close>

definition sniff_session :: "byte list \<Rightarrow> session \<Rightarrow> session option" where
  "sniff_session peek s =
     (case sniff peek of
        None \<Rightarrow> None
      | Some r \<Rightarrow>
          let s1 = (case r of Some name \<Rightarrow> s\<lparr>s_target := Domain name (port (s_target s))\<rparr> | None \<Rightarrow> s)
          in Some (s1\<lparr>s_detected_protocol := detect_protocol peek\<rparr>))"

definition restore_fake_ip :: "fake_ip_pool option \<Rightarrow> session \<Rightarrow> session" where
  "restore_fake_ip pool s =
     (case pool of
        Some p \<Rightarrow>
          (case s_target s of
             Ip a \<Rightarrow>
               (if is_fake_ip (sock_ip a) p then
                  case fake_lookup (sock_ip a) p of
                    Some d \<Rightarrow> s\<lparr>s_target := Domain d (sock_port a)\<rparr>
                  | None \<Rightarrow> s
                else s)
           | Domain _ _ \<Rightarrow> s)
      | None \<Rightarrow> s)"

definition choose_outbound ::
  "tcp_env \<Rightarrow> session \<Rightarrow> dispatcher \<Rightarrow> (string \<times> string option) option \<times> prov_store" where
  "choose_outbound e s d =
     (case get_mode (dp_mode d) of
        GlobalMode \<Rightarrow>
          (Some (case first_proxy_tag (te_group_order e) (te_tag_order e) (dp_outbounds d) of Some t \<Rightarrow> t | None \<Rightarrow> ''direct'',
                 Some ''GLOBAL''), dp_providers d)
      | DirectMode \<Rightarrow> (Some (''direct'', Some ''DIRECT''), dp_providers d)
      | RuleMode \<Rightarrow> route_with_rule (te_match e) (dp_router d) s (dp_providers d))"

subsection \<open>One TCP session\<close>

text \<open>The session the outbound is asked to connect: a direct outbound gets the address the configured resolver
  returns.\<close>

definition connect_session :: "tcp_env \<Rightarrow> handler \<Rightarrow> session \<Rightarrow> dispatcher \<Rightarrow> (any_error, session) result" where
  "connect_session e h s d =
     (case s_target s of
        Domain _ _ \<Rightarrow>
          if is_direct_outbound (dp_outbounds d) h then
            (case resolve_with (\<lambda>_. Inr []) (Some (te_resolver e)) (s_target s) of
               Inl err \<Rightarrow> Inl (AnyOther ''resolve'')
             | Inr a \<Rightarrow> Inr (s\<lparr>s_target := Ip a\<rparr>))
          else Inr s
      | Ip _ \<Rightarrow> Inr s)"

text \<open>The part that is instrumented: resolving, admission, connecting, relaying.  The result carries the
  session the outbound was asked to connect and the number of attempts.\<close>

definition connect_and_relay ::
  "tcp_env \<Rightarrow> handler \<Rightarrow> nat \<Rightarrow> session \<Rightarrow> dispatcher \<Rightarrow> (any_error, unit) result \<times> (session \<times> nat) option \<times> dispatcher" where
  "connect_and_relay e h i s d =
     (let tag = handler_tag h in
      case connect_session e h s d of
        Inl err \<Rightarrow> (Inl err, None, d)
      | Inr s1 \<Rightarrow>
          (case allow_request (te_now e) (breaker_for tag d) of
             (False, b) \<Rightarrow>
               (Inl (AnyProxy (CircuitBreakerOpen tag)), None,
                on_tracker (record_error ''OUTBOUND_CIRCUIT_OPEN'') (set_breaker tag b d))
           | (True, b) \<Rightarrow>
               (case retry_with_backoff retry_policy_default (te_connect e tag s1) of
                  (Inl err, ds) \<Rightarrow>
                    (Inl err, Some (s1, length ds + 1),
                     on_tracker (record_error (kind_as_str (classify err))) (set_breaker tag (record_failure (te_now_failed e) b) d))
                | (Inr _, ds) \<Rightarrow>
                    let d1 = set_breaker tag (record_success b) d in
                    (case te_relay e of
                       Inl err \<Rightarrow>
                         (Inl err, Some (s1, length ds + 1), on_tracker (record_error (kind_as_str (classify err))) d1)
                     | Inr (up, down) \<Rightarrow>
                         (Inr (), Some (s1, length ds + 1),
                          on_tracker (\<lambda>t. add_download (te_now_done e) i down (add_upload (te_now_done e) i up
                            (record_latency_ms (te_elapsed_ms e) t))) d1)))))"

datatype dispatch_result =
    Failed any_error
  | Panicked
  | Finished "(any_error, unit) result" string "string option" "(session \<times> nat) option"

text \<open>From the choice of the outbound to the end of the guard.\<close>

definition dispatch_routed :: "tcp_env \<Rightarrow> session \<Rightarrow> dispatcher \<Rightarrow> dispatch_result \<times> dispatcher" where
  "dispatch_routed e s d =
     (case choose_outbound e s d of
        (None, st) \<Rightarrow> (Panicked, d\<lparr>dp_providers := st\<rparr>)
      | (Some (tag, matched), st) \<Rightarrow>
          let d1 = d\<lparr>dp_providers := st\<rparr>; route_tag = (case matched of Some r \<Rightarrow> r | None \<Rightarrow> ''MATCH'') in
          (case manager_get tag (dp_outbounds d1) of
             None \<Rightarrow>
               (Failed (AnyProxy (ConfigError tag)), on_tracker (record_error ''OUTBOUND_NOT_FOUND'') d1)
           | Some h \<Rightarrow>
               (case track (te_now e) s (handler_tag h) route_tag matched (dp_tracker d1) of
                  (i, t) \<Rightarrow>
                    (case connect_and_relay e h i s (snd (circuit_breaker_for (handler_tag h) (d1\<lparr>dp_tracker := t\<rparr>))) of
                       (r, conn, d2) \<Rightarrow>
                         (Finished r (handler_tag h) matched conn, on_tracker (guard_drop (te_lock_free e) i) d2)))))"

definition prepare_session :: "tcp_env \<Rightarrow> session \<Rightarrow> dispatcher \<Rightarrow> (dispatch_result, session) result" where
  "prepare_session e s d =
     (if s_sniff s then
        (case te_peek e of
           Inl err \<Rightarrow> Inl (Failed err)
         | Inr peek \<Rightarrow>
             (case sniff_session peek s of None \<Rightarrow> Inl Panicked | Some s1 \<Rightarrow> Inr (restore_fake_ip (dp_fakeip d) s1)))
      else Inr (restore_fake_ip (dp_fakeip d) s))"

definition dispatch_tcp :: "tcp_env \<Rightarrow> session \<Rightarrow> dispatcher \<Rightarrow> dispatch_result \<times> dispatcher" where
  "dispatch_tcp e s d =
     (case prepare_session e s d of
        Inl r \<Rightarrow> (r, d)
      | Inr s1 \<Rightarrow> dispatch_routed e s1 d)"

subsection \<open>UDP packets\<close>

record udp_env =
  ue_match :: match_env
  ue_connect :: "string \<Rightarrow> session \<Rightarrow> (any_error, nat) result"
  ue_now :: int
  ue_send_ok :: bool

datatype udp_result = UdpNoOutbound | UdpConnectFailed | UdpPanicked | UdpSent nat bool | UdpSendFailed nat bool

definition unspecified_source :: socket_addr where
  "unspecified_source = SockV4 0 0"

definition packet_session :: "session \<Rightarrow> address \<Rightarrow> session" where
  "packet_session s a = \<lparr>s_target = a, s_source = s_source s, s_inbound_tag = s_inbound_tag s, s_network = Udp, s_sniff = False,
     s_detected_protocol = None\<rparr>"

text \<open>Touching an entry that was read from the table touches the table; the time stamp is shared.\<close>

definition touch_flow :: "int \<Rightarrow> nat_key \<Rightarrow> nat_table \<Rightarrow> nat_table" where
  "touch_flow now k t =
     (case hm_get (nt_entries t) k of
        Some en \<Rightarrow> t\<lparr>nt_entries := hm_insert k (nat_touch now en) (nt_entries t)\<rparr>
      | None \<Rightarrow> t)"

text \<open>One turn of the forwarding loop: the packet's flow is looked up or created, and the packet is sent.  A new
  flow starts a task that relays the replies.  An entry that could not be stored is not in the table, so touching
  it after sending changes nothing there.\<close>

definition udp_flow ::
  "udp_env \<Rightarrow> session \<Rightarrow> string \<Rightarrow> nat_key \<Rightarrow> dispatcher \<Rightarrow> (udp_result, nat \<times> bool) result \<times> dispatcher" where
  "udp_flow e ts tag k d =
     (case nat_get (ue_now e) k (dp_nat d) of
        Some en \<Rightarrow> (Inr (ne_transport en, False), d\<lparr>dp_nat := touch_flow (ue_now e) k (dp_nat d)\<rparr>)
      | None \<Rightarrow>
          (case (case get_transport_for_source (nk_source k) tag (dp_nat d) of
                   Some tr \<Rightarrow> (Inr tr, d)
                 | None \<Rightarrow>
                     (case manager_get tag (dp_outbounds d) of
                        None \<Rightarrow> (Inl UdpNoOutbound, on_tracker (record_error ''UDP_OUTBOUND_NOT_FOUND'') d)
                      | Some h \<Rightarrow>
                          (case ue_connect e tag ts of
                             Inl err \<Rightarrow> (Inl UdpConnectFailed, on_tracker (record_error ''UDP_OUTBOUND_CONNECT_FAILED'') d)
                           | Inr tr \<Rightarrow> (Inr tr, d)))) of
             (Inl r, d1) \<Rightarrow> (Inl r, d1)
           | (Inr tr, d1) \<Rightarrow>
               (case nat_get_or_insert (ue_now e) k tr tag (dp_nat d1) of
                  ((en, is_new), t) \<Rightarrow> (Inr (ne_transport en, is_new), d1\<lparr>dp_nat := t\<rparr>))))"

definition dispatch_packet :: "udp_env \<Rightarrow> session \<Rightarrow> address \<Rightarrow> dispatcher \<Rightarrow> udp_result \<times> dispatcher" where
  "dispatch_packet e s a d =
     (let ts = packet_session s a in
      case route_with_rule (ue_match e) (dp_router d) ts (dp_providers d) of
        (None, st) \<Rightarrow> (UdpPanicked, d\<lparr>dp_providers := st\<rparr>)
      | (Some (tag, matched), st) \<Rightarrow>
          let route_tag = (case matched of Some r \<Rightarrow> r | None \<Rightarrow> ''MATCH'');
              d1 = on_tracker (record_route_hit route_tag) (d\<lparr>dp_providers := st\<rparr>);
              k = \<lparr>nk_source = (case s_source s of Some src \<Rightarrow> src | None \<Rightarrow> unspecified_source), nk_dest = a\<rparr>
          in (case udp_flow e ts tag k d1 of
                (Inl r, d2) \<Rightarrow> (r, d2)
              | (Inr (tr, is_new), d2) \<Rightarrow>
                  if ue_send_ok e then
                    (UdpSent tr is_new,
                     d2\<lparr>dp_nat := (if nat_get (ue_now e) k (dp_nat d2) = None then dp_nat d2 else touch_flow (ue_now e) k (dp_nat d2))\<rparr>)
                  else (UdpSendFailed tr is_new, on_tracker (record_error ''UDP_OUTBOUND_SEND_FAILED'') d2)))"

datatype dispatch_op =
    DTcp tcp_env session
  | DUdp udp_env session address
  | DNatCleanup int
  | DRouter router
  | DOutbounds outbound_manager
  | DMode clash_mode

fun dispatch_do :: "dispatch_op \<Rightarrow> dispatcher \<Rightarrow> dispatcher" where
  "dispatch_do (DTcp e s) d = snd (dispatch_tcp e s d)"
| "dispatch_do (DUdp e s a) d = snd (dispatch_packet e s a d)"
| "dispatch_do (DNatCleanup now) d = d\<lparr>dp_nat := snd (nat_cleanup now (dp_nat d))\<rparr>"
| "dispatch_do (DRouter r) d = d\<lparr>dp_router := r\<rparr>"
| "dispatch_do (DOutbounds m) d = d\<lparr>dp_outbounds := m\<rparr>"
| "dispatch_do (DMode m) d = d\<lparr>dp_mode := set_mode m (dp_mode d)\<rparr>"

section \<open>Lemmas\<close>

subsection \<open>Replaying\<close>

lemma take_min_drop: "take (min (length xs) n) xs @ drop (min (length xs) n) xs = xs"
  by (rule append_take_drop_id)

lemma prefixed_read_split:
  assumes "prefixed_read n k s = (bs, s')"
  shows "bs @ drop (pf_pos s') (pf_prefix s') @ pf_inner s' = drop (pf_pos s) (pf_prefix s) @ pf_inner s"
proof (cases "pf_pos s < length (pf_prefix s)")
  case True
  let ?r = "drop (pf_pos s) (pf_prefix s)"
  from True assms have "bs = take (min (length ?r) n) ?r" "drop (pf_pos s') (pf_prefix s') = drop (min (length ?r) n) ?r"
    "pf_inner s' = pf_inner s"
    by (auto simp: prefixed_read_def Let_def add.commute)
  then show ?thesis by (simp only: append_assoc [symmetric] take_min_drop)
next
  case False
  with assms have "bs = take (min n k) (pf_inner s)" "pf_inner s' = drop (min n k) (pf_inner s)"
    "drop (pf_pos s') (pf_prefix s') = []" "drop (pf_pos s) (pf_prefix s) = []"
    by (auto simp: prefixed_read_def)
  then show ?thesis by (simp only: append_Nil append_take_drop_id)
qed

subsection \<open>What a dispatch leaves alone\<close>

lemma on_tracker_fields [simp]:
  "dp_router (on_tracker f d) = dp_router d" "dp_providers (on_tracker f d) = dp_providers d"
  "dp_outbounds (on_tracker f d) = dp_outbounds d" "dp_breakers (on_tracker f d) = dp_breakers d"
  "dp_nat (on_tracker f d) = dp_nat d" "dp_fakeip (on_tracker f d) = dp_fakeip d" "dp_mode (on_tracker f d) = dp_mode d"
  "dp_tracker (on_tracker f d) = f (dp_tracker d)"
  by (simp_all add: on_tracker_def)

lemma set_breaker_fields [simp]:
  "dp_router (set_breaker t b d) = dp_router d" "dp_providers (set_breaker t b d) = dp_providers d"
  "dp_outbounds (set_breaker t b d) = dp_outbounds d" "dp_tracker (set_breaker t b d) = dp_tracker d"
  "dp_nat (set_breaker t b d) = dp_nat d" "dp_fakeip (set_breaker t b d) = dp_fakeip d" "dp_mode (set_breaker t b d) = dp_mode d"
  "breaker_for t' (set_breaker t b d) = (if t' = t then b else breaker_for t' d)"
  by (simp_all add: set_breaker_def breaker_for_def)

lemma breaker_for_on_tracker [simp]: "breaker_for t (on_tracker f d) = breaker_for t d"
  by (simp add: breaker_for_def)

lemma circuit_breaker_for_set: "circuit_breaker_for tag d = (breaker_for tag d, set_breaker tag (breaker_for tag d) d)"
  by (simp add: circuit_breaker_for_def set_breaker_def)

definition same_config :: "dispatcher \<Rightarrow> dispatcher \<Rightarrow> bool" where
  "same_config d d' \<longleftrightarrow> dp_router d' = dp_router d \<and> dp_outbounds d' = dp_outbounds d \<and> dp_fakeip d' = dp_fakeip d \<and>
     dp_mode d' = dp_mode d \<and> dp_nat d' = dp_nat d"

lemma connect_and_relay_config:
  "connect_and_relay e h i s d = (r, conn, d') \<Longrightarrow> same_config d d' \<and> dp_providers d' = dp_providers d"
  by (auto simp: connect_and_relay_def same_config_def Let_def split: sum.splits prod.splits bool.splits)

text \<open>The three ways through \<^const>\<open>dispatch_routed\<close>.\<close>

lemma dispatch_routed_cases:
  obtains (panic) st where "choose_outbound e s d = (None, st)" "dispatch_routed e s d = (Panicked, d\<lparr>dp_providers := st\<rparr>)"
  | (missing) tag matched st where "choose_outbound e s d = (Some (tag, matched), st)" "manager_get tag (dp_outbounds d) = None"
      "dispatch_routed e s d =
         (Failed (AnyProxy (ConfigError tag)), on_tracker (record_error ''OUTBOUND_NOT_FOUND'') (d\<lparr>dp_providers := st\<rparr>))"
  | (run) tag matched st h i t r conn d2 where "choose_outbound e s d = (Some (tag, matched), st)"
      "manager_get tag (dp_outbounds d) = Some h"
      "track (te_now e) s (handler_tag h) (case matched of Some x \<Rightarrow> x | None \<Rightarrow> ''MATCH'') matched (dp_tracker d) = (i, t)"
      "connect_and_relay e h i s (set_breaker (handler_tag h) (breaker_for (handler_tag h) d) (d\<lparr>dp_providers := st, dp_tracker := t\<rparr>))
         = (r, conn, d2)"
      "dispatch_routed e s d = (Finished r (handler_tag h) matched conn, on_tracker (guard_drop (te_lock_free e) i) d2)"
proof -
  obtain c st where c: "choose_outbound e s d = (c, st)" by fastforce
  show thesis
  proof (cases c)
    case None
    with c show thesis by (intro panic) (simp_all add: dispatch_routed_def)
  next
    case (Some x)
    obtain tag matched where x: "x = (tag, matched)" by fastforce
    show thesis
    proof (cases "manager_get tag (dp_outbounds d)")
      case None
      with c Some x show thesis by (intro missing) (simp_all add: dispatch_routed_def Let_def)
    next
      case (Some h)
      obtain i t where t: "track (te_now e) s (handler_tag h) (case matched of Some x \<Rightarrow> x | None \<Rightarrow> ''MATCH'') matched (dp_tracker d) = (i, t)"
        by fastforce
      let ?d = "set_breaker (handler_tag h) (breaker_for (handler_tag h) d) (d\<lparr>dp_providers := st, dp_tracker := t\<rparr>)"
      obtain r conn d2 where r: "connect_and_relay e h i s ?d = (r, conn, d2)" by (metis prod.exhaust)
      have "breaker_for (handler_tag h) (d\<lparr>dp_providers := st, dp_tracker := t\<rparr>) = breaker_for (handler_tag h) d"
        by (simp add: breaker_for_def)
      with c \<open>c = Some x\<close> x Some t r show thesis
        by (intro run [of tag matched st h i t r conn d2]) (simp_all add: dispatch_routed_def Let_def circuit_breaker_for_set)
    qed
  qed
qed

lemma dispatch_routed_config: "same_config d (snd (dispatch_routed e s d))"
  by (cases rule: dispatch_routed_cases [of e s d]) (auto simp: same_config_def dest!: connect_and_relay_config)

lemma dispatch_tcp_config: "same_config d (snd (dispatch_tcp e s d))"
  using dispatch_routed_config by (auto simp: dispatch_tcp_def same_config_def split: sum.split)

subsection \<open>Targets\<close>

lemma sock_new_simps [simp]: "sock_ip (sock_new ip p) = ip" "sock_port (sock_new ip p) = p"
  by (cases ip; simp add: sock_new_def)+

lemma fake_lookup_allocated:
  assumes "pool_inv pool" and "hm_get (domain_to_ip pool) k = Some ip" and "k = name \<or> k = ''v6:'' @ name"
    and "\<not> starts_with name ''v6:''"
  shows "fake_lookup ip pool = Some name"
proof -
  have "hm_get (ip_to_domain pool) ip = Some k" using assms(1,2) by (simp add: pool_inv_def)
  with assms(3,4) show ?thesis by (auto simp: fake_lookup_def strip_prefix_def starts_with_def)
qed

lemma restore_allocated:
  assumes "is_fake_ip ip pool" and "fake_lookup ip pool = Some name" and "s_target s = Ip (sock_new ip p)"
  shows "restore_fake_ip (Some pool) s = s\<lparr>s_target := Domain name p\<rparr>"
  using assms by (simp add: restore_fake_ip_def)

subsection \<open>Accounting\<close>

lemma track_table:
  assumes "tracker_wf t" and "track now s tag rt m t = (i, t')"
  shows "tk_connections t' = hm_insert i (the (hm_get (tk_connections t') i)) (tk_connections t)"
    and "hm_get (tk_connections t) i = None" and "hm_get (tk_connections t') i \<noteq> None"
    and "tk_cells t' i = \<lparr>cc_upload = 0, cc_download = 0, cc_last_activity = now\<rparr>"
    and "tk_total_upload t' = tk_total_upload t" and "tk_total_download t' = tk_total_download t"
proof -
  from assms(2) have i: "i = tk_next_id t" by (simp add: track_def Let_def)
  with assms(1) show "hm_get (tk_connections t) i = None" by (auto simp: tracker_wf_def)
qed (use assms(2) in \<open>auto simp: track_def Let_def record_route_hit_def\<close>)

lemma record_error_fields [simp]:
  "tk_connections (record_error c t) = tk_connections t" "tk_cells (record_error c t) = tk_cells t"
  "tk_total_upload (record_error c t) = tk_total_upload t" "tk_total_download (record_error c t) = tk_total_download t"
  "tk_next_id (record_error c t) = tk_next_id t" "tk_outbound_traffic (record_error c t) = tk_outbound_traffic t"
  by (simp_all add: record_error_def)

lemma guard_fields [simp]:
  "tk_connections (add_upload now i n t) = tk_connections t" "tk_connections (add_download now i n t) = tk_connections t"
  "tk_connections (record_latency_ms l t) = tk_connections t"
  "tk_total_upload (add_upload now i n t) = tk_total_upload t" "tk_total_upload (add_download now i n t) = tk_total_upload t"
  "tk_total_upload (record_latency_ms l t) = tk_total_upload t"
  "tk_total_download (add_upload now i n t) = tk_total_download t" "tk_total_download (add_download now i n t) = tk_total_download t"
  "tk_total_download (record_latency_ms l t) = tk_total_download t"
  "tk_cells (record_latency_ms l t) = tk_cells t"
  by (simp_all add: add_upload_def add_download_def record_latency_ms_def Let_def)

definition relayed :: "tcp_env \<Rightarrow> (any_error, unit) result \<Rightarrow> u64 \<times> u64" where
  "relayed e r = (case r of Inr _ \<Rightarrow> (case te_relay e of Inr x \<Rightarrow> x | Inl _ \<Rightarrow> (0, 0)) | Inl _ \<Rightarrow> (0, 0))"

lemma connect_and_relay_tracker:
  assumes "connect_and_relay e h i s d = (r, conn, d')"
  shows "tk_connections (dp_tracker d') = tk_connections (dp_tracker d) \<and>
    tk_total_upload (dp_tracker d') = tk_total_upload (dp_tracker d) \<and>
    tk_total_download (dp_tracker d') = tk_total_download (dp_tracker d) \<and>
    cc_upload (tk_cells (dp_tracker d') i) = cc_upload (tk_cells (dp_tracker d) i) + fst (relayed e r) \<and>
    cc_download (tk_cells (dp_tracker d') i) = cc_download (tk_cells (dp_tracker d) i) + snd (relayed e r)"
  using assms
  by (auto simp: connect_and_relay_def relayed_def add_upload_def add_download_def Let_def
      split: sum.splits prod.splits bool.splits)

lemma guard_drop_known:
  assumes "hm_get (tk_connections t) i = Some info"
  shows "tk_connections (guard_drop True i t) = hm_remove i (tk_connections t) \<and>
    tk_total_upload (guard_drop True i t) = tk_total_upload t + cc_upload (tk_cells t i) \<and>
    tk_total_download (guard_drop True i t) = tk_total_download t + cc_download (tk_cells t i)"
  using assms by (simp add: guard_drop_def archive_def accumulate_outbound_traffic_def Let_def)

lemma dispatch_routed_accounts:
  assumes "tracker_wf (dp_tracker d)" and "te_lock_free e" and "dispatch_routed e s d = (Finished r tag m conn, d')"
  shows "tk_connections (dp_tracker d') = tk_connections (dp_tracker d) \<and>
    tk_total_upload (dp_tracker d') = tk_total_upload (dp_tracker d) + fst (relayed e r) \<and>
    tk_total_download (dp_tracker d') = tk_total_download (dp_tracker d) + snd (relayed e r)"
proof (cases rule: dispatch_routed_cases [of e s d])
  case (run tag' matched st h i t r' conn' d2)
  with assms(3) have r: "r' = r" and d': "dp_tracker d' = guard_drop True i (dp_tracker d2)"
    using assms(2) by auto
  note tr = track_table [OF assms(1) run(3)]
  note cr = connect_and_relay_tracker [OF run(4)]
  have "hm_remove i (tk_connections t) = tk_connections (dp_tracker d)"
    using tr(1,2) hm_remove_insert [of i _ "tk_connections (dp_tracker d)"] by (metis hm_get_eq_None hm_remove_absent)
  moreover from tr(3) cr obtain info where "hm_get (tk_connections (dp_tracker d2)) i = Some info" by auto
  note guard_drop_known [OF this]
  ultimately show ?thesis using cr tr(4-6) r d' by simp
qed (use assms(3) in simp_all)

subsection \<open>Admission\<close>

text \<open>A session that is routed to an outbound and can be handed to it.\<close>

definition reaches :: "string \<Rightarrow> tcp_env \<Rightarrow> session \<Rightarrow> dispatcher \<Rightarrow> bool" where
  "reaches tag e s d \<longleftrightarrow>
     (\<exists>s1 s2 t m h. prepare_session e s d = Inr s1 \<and> choose_outbound e s1 d = (Some (t, m), dp_providers d) \<and>
        manager_get t (dp_outbounds d) = Some h \<and> handler_tag h = tag \<and> connect_session e h s1 d = Inr s2)"

lemma reaches_config:
  assumes "same_config d d'" and "dp_providers d' = dp_providers d"
  shows "reaches tag e s d' = reaches tag e s d"
proof -
  from assms have eqs: "dp_router d' = dp_router d" "dp_outbounds d' = dp_outbounds d" "dp_fakeip d' = dp_fakeip d"
    "dp_mode d' = dp_mode d" "dp_providers d' = dp_providers d"
    by (simp_all add: same_config_def)
  show ?thesis
    unfolding reaches_def prepare_session_def choose_outbound_def connect_session_def eqs ..
qed

lemma connect_session_cong: "dp_outbounds d' = dp_outbounds d \<Longrightarrow> connect_session e h s d' = connect_session e h s d"
  by (simp add: connect_session_def)

lemma dispatch_reaches:
  assumes "reaches tag e s d"
  obtains h i t m d0 r conn d2 s2 where "handler_tag h = tag" and "breaker_for tag d0 = breaker_for tag d"
    and "same_config d d0" "dp_providers d0 = dp_providers d" "connect_session e h s2 d0 = connect_session e h s2 d"
    and "connect_and_relay e h i s2 d0 = (r, conn, d2)" and "is_ok (connect_session e h s2 d)"
    and "dispatch_tcp e s d = (Finished r tag m conn, on_tracker (guard_drop (te_lock_free e) i) d2)"
proof -
  from assms obtain s1 s2 t m h where p: "prepare_session e s d = Inr s1"
    and c: "choose_outbound e s1 d = (Some (t, m), dp_providers d)" "manager_get t (dp_outbounds d) = Some h" "handler_tag h = tag"
    and s2: "connect_session e h s1 d = Inr s2"
    by (auto simp: reaches_def)
  show thesis
  proof (cases rule: dispatch_routed_cases [of e s1 d])
    case (run tag' matched st h' i t' r conn d2)
    let ?d0 = "set_breaker (handler_tag h') (breaker_for (handler_tag h') d) (d\<lparr>dp_providers := st, dp_tracker := t'\<rparr>)"
    from run(1,2) c have eq: "tag' = t" "matched = m" "st = dp_providers d" "h' = h" by auto
    show thesis
    proof (rule that [of h ?d0 s1 i r conn d2 m])
      show "connect_and_relay e h i s1 ?d0 = (r, conn, d2)" using run(4) eq by simp
      show "dispatch_tcp e s d = (Finished r tag m conn, on_tracker (guard_drop (te_lock_free e) i) d2)"
        using run(5) eq p c(3) by (simp add: dispatch_tcp_def)
    qed (use eq c s2 connect_session_cong [of ?d0 d e h s1] in \<open>simp_all add: same_config_def\<close>)
  qed (use c in auto)
qed

lemma retry_all_fail:
  assumes "\<And>n. \<not> is_ok (f n)"
  shows "\<not> is_ok (fst (retry_with_backoff p f))"
proof -
  have "\<not> is_ok (fst (retry_from p f a n))" for a n
  proof (induction n arbitrary: a)
    case (Suc n)
    with assms [of a] Suc.IH [of "Suc a"] show ?case
      by (cases "f a"; cases "retry_from p f (Suc a) n") simp_all
  qed (simp add: assms)
  then show ?thesis by (simp add: retry_with_backoff_def)
qed

lemma is_ok_iff: "is_ok r \<longleftrightarrow> (\<exists>v. r = Inr v)"
  by (cases r) simp_all

lemma dispatch_fails:
  assumes "reaches tag e s d" and "\<And>s n. \<not> is_ok (te_connect e tag s n)" and "allow_request (te_now e) (breaker_for tag d) = (True, b)"
  shows "breaker_for tag (snd (dispatch_tcp e s d)) = record_failure (te_now_failed e) b \<and>
    same_config d (snd (dispatch_tcp e s d)) \<and> dp_providers (snd (dispatch_tcp e s d)) = dp_providers d"
proof -
  from dispatch_reaches [OF assms(1)] obtain h i t m d0 r conn d2 s1
    where h: "handler_tag h = tag" and b: "breaker_for tag d0 = breaker_for tag d"
    and d0: "same_config d d0" "dp_providers d0 = dp_providers d" "connect_session e h s1 d0 = connect_session e h s1 d"
    and c: "connect_and_relay e h i s1 d0 = (r, conn, d2)" and s2: "is_ok (connect_session e h s1 d)"
    and d: "dispatch_tcp e s d = (Finished r tag m conn, on_tracker (guard_drop (te_lock_free e) i) d2)" .
  from s2 d0(3) obtain s2 where s2: "connect_session e h s1 d0 = Inr s2" by (auto simp: is_ok_iff)
  have "\<not> is_ok (fst (retry_with_backoff retry_policy_default (te_connect e tag s2)))"
    by (rule retry_all_fail) (rule assms(2))
  then obtain err ds where "retry_with_backoff retry_policy_default (te_connect e tag s2) = (Inl err, ds)"
    by (metis is_ok.elims(3) prod.collapse)
  with c h b s2 assms(3) have "breaker_for tag d2 = record_failure (te_now_failed e) b"
    by (auto simp: connect_and_relay_def)
  with connect_and_relay_config [OF c] d0 d show ?thesis by (auto simp: same_config_def)
qed

lemma dispatch_refused:
  assumes "reaches tag e s d" and "allow_request (te_now e) (breaker_for tag d) = (False, b)"
  shows "\<exists>m. fst (dispatch_tcp e s d) = Finished (Inl (AnyProxy (CircuitBreakerOpen tag))) tag m None"
proof -
  from dispatch_reaches [OF assms(1)] obtain h i t m d0 r conn d2 s1
    where h: "handler_tag h = tag" and b: "breaker_for tag d0 = breaker_for tag d"
    and d0: "connect_session e h s1 d0 = connect_session e h s1 d"
    and c: "connect_and_relay e h i s1 d0 = (r, conn, d2)" and s2: "is_ok (connect_session e h s1 d)"
    and d: "dispatch_tcp e s d = (Finished r tag m conn, on_tracker (guard_drop (te_lock_free e) i) d2)" .
  from s2 d0 obtain s2 where "connect_session e h s1 d0 = Inr s2" by (auto simp: is_ok_iff)
  with c h b assms(2) have "r = Inl (AnyProxy (CircuitBreakerOpen tag)) \<and> conn = None"
    by (auto simp: connect_and_relay_def)
  with d show ?thesis by auto
qed

lemma failing_run_opens:
  assumes "\<And>e s. (e, s) \<in> set es \<Longrightarrow> reaches tag e s d \<and> (\<forall>s n. \<not> is_ok (te_connect e tag s n))"
    and "cb_state (breaker_for tag d) = Closed" and "cb_config (breaker_for tag d) = breaker_config_default"
    and "cb_failure_count (breaker_for tag d) + length es = 5" and "es \<noteq> []"
  shows "let d' = fold (\<lambda>(e, s) d. snd (dispatch_tcp e s d)) es d; b = breaker_for tag d' in
    cb_state b = Open \<and> cb_last_failure_time b = Some (te_now_failed (fst (last es))) \<and> cb_config b = breaker_config_default \<and>
    same_config d d' \<and> dp_providers d' = dp_providers d"
  using assms
proof (induction es arbitrary: d)
  case (Cons x es)
  obtain e s where x: "x = (e, s)" by fastforce
  let ?d = "snd (dispatch_tcp e s d)"
  have "allow_request (te_now e) (breaker_for tag d) = (True, breaker_for tag d)"
    using Cons.prems(2) by (simp add: allow_request_def)
  from dispatch_fails [OF _ _ this] Cons.prems(1) [of e s] x
  have step: "breaker_for tag ?d = record_failure (te_now_failed e) (breaker_for tag d)"
    and cfg: "same_config d ?d" "dp_providers ?d = dp_providers d" by auto
  show ?case
  proof (cases "es = []")
    case True
    with x step cfg Cons.prems(2-4) show ?thesis
      by (simp add: record_failure_def Let_def breaker_config_default_def)
  next
    case False
    with Cons.prems(4) have "cb_failure_count (breaker_for tag d) + 1 < 5" by (cases es) simp_all
    with step Cons.prems(2,3) have "cb_state (breaker_for tag ?d) = Closed" "cb_config (breaker_for tag ?d) = breaker_config_default"
      "cb_failure_count (breaker_for tag ?d) = cb_failure_count (breaker_for tag d) + 1"
      by (simp_all add: record_failure_def Let_def breaker_config_default_def)
    moreover have "reaches tag e' s' ?d \<and> (\<forall>s n. \<not> is_ok (te_connect e' tag s n))" if "(e', s') \<in> set es" for e' s'
      using Cons.prems(1) [of e' s'] that reaches_config [OF cfg] by simp
    ultimately have "let d' = fold (\<lambda>(e, s) d. snd (dispatch_tcp e s d)) es ?d; b = breaker_for tag d' in
        cb_state b = Open \<and> cb_last_failure_time b = Some (te_now_failed (fst (last es))) \<and> cb_config b = breaker_config_default \<and>
        same_config ?d d' \<and> dp_providers d' = dp_providers ?d"
      using Cons.prems(4) False by (intro Cons.IH) auto
    with x cfg False show ?thesis by (simp add: Let_def same_config_def)
  qed
qed simp

subsection \<open>Flows\<close>

text \<open>All flows of a source through an outbound share the transport of the source map.\<close>

definition nat_shared :: "dispatcher \<Rightarrow> bool" where
  "nat_shared d \<longleftrightarrow> nat_inv (dp_nat d) \<and>
     (\<forall>k en. hm_get (nt_entries (dp_nat d)) k = Some en \<longrightarrow>
        get_transport_for_source (nk_source k) (ne_outbound_tag en) (dp_nat d) = Some (ne_transport en))"

lemma touch_transport [simp]: "ne_transport (nat_touch now en) = ne_transport en"
  by (simp add: nat_touch_def)

lemma touch_shared: "nat_shared d \<Longrightarrow> nat_shared (d\<lparr>dp_nat := touch_flow now k (dp_nat d)\<rparr>)"
  by (cases "hm_get (nt_entries (dp_nat d)) k")
     (auto simp: nat_shared_def touch_flow_def get_transport_for_source_def intro!: nat_replace_inv)

lemma get_or_insert_shared:
  assumes "nat_shared d" and "get_transport_for_source (nk_source k) tag (dp_nat d) \<in> {None, Some tr}"
  shows "nat_shared (d\<lparr>dp_nat := snd (nat_get_or_insert now k tr tag (dp_nat d))\<rparr>)"
proof (cases "nat_get now k (dp_nat d)")
  case None
  let ?e = "nat_entry_new now tr tag (nt_ttl_secs (dp_nat d))"
  have "nat_inv (snd (nat_insert k ?e (dp_nat d)))"
    using assms(1) nat_insert_inv by (simp add: nat_shared_def)
  with None assms show ?thesis
    by (auto simp: nat_shared_def nat_get_or_insert_fresh nat_insert_def nat_entry_new_def get_transport_for_source_def
        Let_def split: option.splits if_splits) (metis option.distinct(1))+
next
  case (Some en)
  then have en: "hm_get (nt_entries (dp_nat d)) k = Some en"
    by (auto simp: nat_get_def split: option.splits if_splits)
  with Some have "snd (nat_get_or_insert now k tr tag (dp_nat d)) = touch_flow now k (dp_nat d)"
    by (simp add: nat_get_or_insert_def touch_flow_def)
  with touch_shared [OF assms(1)] show ?thesis by simp
qed

lemma nat_shared_cong: "dp_nat d' = dp_nat d \<Longrightarrow> nat_shared d' = nat_shared d"
  by (simp add: nat_shared_def)

lemma get_or_insert_shared_eq:
  "nat_get_or_insert now k tr tag (dp_nat d) = (x, t) \<Longrightarrow> nat_shared d \<Longrightarrow>
     get_transport_for_source (nk_source k) tag (dp_nat d) \<in> {None, Some tr} \<Longrightarrow> nat_shared (d\<lparr>dp_nat := t\<rparr>)"
  using get_or_insert_shared [of d k tag tr now] by simp

lemma udp_flow_shared: "udp_flow e ts tag k d = (r, d') \<Longrightarrow> nat_shared d \<Longrightarrow> nat_shared d'"
  by (auto simp: udp_flow_def touch_shared nat_shared_cong [of "on_tracker _ d" d]
      intro: get_or_insert_shared_eq split: option.splits sum.splits prod.splits)

lemma dispatch_packet_shared:
  assumes "nat_shared d"
  shows "nat_shared (snd (dispatch_packet e s a d))"
proof -
  let ?ts = "packet_session s a"
  obtain c st where c: "route_with_rule (ue_match e) (dp_router d) ?ts (dp_providers d) = (c, st)" by fastforce
  show ?thesis
  proof (cases c)
    case None
    with c assms show ?thesis by (simp add: dispatch_packet_def nat_shared_def)
  next
    case (Some x)
    obtain tag matched where x: "x = (tag, matched)" by fastforce
    let ?d1 = "on_tracker (record_route_hit (case matched of Some r \<Rightarrow> r | None \<Rightarrow> ''MATCH'')) (d\<lparr>dp_providers := st\<rparr>)"
    let ?k = "\<lparr>nk_source = (case s_source s of Some src \<Rightarrow> src | None \<Rightarrow> unspecified_source), nk_dest = a\<rparr>"
    obtain r d2 where f: "udp_flow e ?ts tag ?k ?d1 = (r, d2)" by fastforce
    have "nat_shared ?d1" using assms by (simp add: nat_shared_def)
    with f have "nat_shared d2" by (rule udp_flow_shared)
    moreover from this have "nat_shared (on_tracker g d2)" for g by (simp add: nat_shared_def)
    ultimately show ?thesis
      using c Some x f touch_shared [of d2 "ue_now e" ?k]
      by (auto simp: dispatch_packet_def Let_def split: sum.split)
  qed
qed

lemma cleanup_shared: "nat_shared d \<Longrightarrow> nat_shared (d\<lparr>dp_nat := snd (nat_cleanup now (dp_nat d))\<rparr>)"
proof -
  assume a: "nat_shared d"
  obtain n t where c: "nat_cleanup now (dp_nat d) = (n, t)" by fastforce
  from a have inv: "nat_inv (dp_nat d)" by (simp add: nat_shared_def)
  have inv': "nat_inv t" using nat_ops.step_inv [OF inv, of "Cleanup now"] c by simp
  note maps = nat_cleanup_maps [OF inv c]
  have "hm_get (nt_source_map t) (nk_source k, ne_outbound_tag en) = Some (ne_transport en)"
    if "hm_get (nt_entries t) k = Some en" for k en
  proof -
    from that maps(1) [of k] have "hm_get (nt_entries (dp_nat d)) k = Some en"
      by (auto split: option.splits if_splits)
    with a have "hm_get (nt_source_map (dp_nat d)) (nk_source k, ne_outbound_tag en) = Some (ne_transport en)"
      by (auto simp: nat_shared_def get_transport_for_source_def)
    moreover have "has_active (nt_entries t) (nk_source k, ne_outbound_tag en)"
      using that maps(2) by (auto simp: has_active_iff)
    ultimately show ?thesis using maps(5) [of "(nk_source k, ne_outbound_tag en)"] by auto
  qed
  with inv' c show ?thesis by (simp add: nat_shared_def get_transport_for_source_def)
qed

lemma dispatch_do_shared: "nat_shared d \<Longrightarrow> nat_shared (dispatch_do x d)"
proof (cases x)
  case (DTcp e s)
  moreover assume "nat_shared d"
  ultimately show ?thesis
    using dispatch_tcp_config [of d e s] nat_shared_cong [of "snd (dispatch_tcp e s d)" d] by (simp add: same_config_def)
next
  case (DUdp e s a)
  then show "nat_shared d \<Longrightarrow> ?thesis" by (simp add: dispatch_packet_shared)
next
  case (DNatCleanup now)
  then show "nat_shared d \<Longrightarrow> ?thesis" by (simp add: cleanup_shared)
qed (simp_all add: nat_shared_def)

interpretation udp_sharing: preserved dispatch_do nat_shared
  by unfold_locales (rule dispatch_do_shared)

lemma nat_shared_new: "dp_nat d = nat_with_ttl ttl \<Longrightarrow> nat_shared d"
  using nat_inv_empty [of ttl] by (simp add: nat_shared_def nat_with_ttl_def)

text \<open>Neither the mode nor the pool of fake addresses is consulted for UDP.\<close>

lemma udp_flow_ignores:
  "udp_flow e ts tag k (d\<lparr>dp_mode := m, dp_fakeip := p\<rparr>) =
     (case udp_flow e ts tag k d of (r, d') \<Rightarrow> (r, d'\<lparr>dp_mode := m, dp_fakeip := p\<rparr>))"
  by (simp add: udp_flow_def on_tracker_def split: option.split sum.split prod.split)

lemma dispatch_packet_ignores:
  "fst (dispatch_packet e s a (d\<lparr>dp_mode := m, dp_fakeip := p\<rparr>)) = fst (dispatch_packet e s a d)"
proof -
  let ?ts = "packet_session s a" and ?k = "\<lparr>nk_source = (case s_source s of Some src \<Rightarrow> src | None \<Rightarrow> unspecified_source), nk_dest = a\<rparr>"
  obtain c st where c: "route_with_rule (ue_match e) (dp_router d) ?ts (dp_providers d) = (c, st)" by fastforce
  show ?thesis
  proof (cases c)
    case None
    with c show ?thesis by (simp add: dispatch_packet_def)
  next
    case (Some x)
    obtain tag matched where x: "x = (tag, matched)" by fastforce
    let ?f = "record_route_hit (case matched of Some r \<Rightarrow> r | None \<Rightarrow> ''MATCH'')"
    have "on_tracker ?f (d\<lparr>dp_mode := m, dp_fakeip := p, dp_providers := st\<rparr>) =
        (on_tracker ?f (d\<lparr>dp_providers := st\<rparr>))\<lparr>dp_mode := m, dp_fakeip := p\<rparr>"
      by (simp add: on_tracker_def)
    then have "udp_flow e ?ts tag ?k (on_tracker ?f (d\<lparr>dp_mode := m, dp_fakeip := p, dp_providers := st\<rparr>)) =
        (case udp_flow e ?ts tag ?k (on_tracker ?f (d\<lparr>dp_providers := st\<rparr>)) of (r, d') \<Rightarrow> (r, d'\<lparr>dp_mode := m, dp_fakeip := p\<rparr>))"
      by (simp only: udp_flow_ignores)
    with c Some x show ?thesis
      by (cases "udp_flow e ?ts tag ?k (on_tracker ?f (d\<lparr>dp_providers := st\<rparr>))")
         (auto simp: dispatch_packet_def Let_def split: sum.split)
  qed
qed

text \<open>The flows of a source live in the table of the dispatcher and not in the session: while the entry of a flow is
  fresh, a packet of any other session with that source, and every session that has no source, is sent over the
  transport of the first one, and no task that relays the replies is started for it.\<close>

lemma flow_outlives_session:
  assumes "nat_get (ue_now e) \<lparr>nk_source = (case s_source s of Some src \<Rightarrow> src | None \<Rightarrow> unspecified_source), nk_dest = a\<rparr> (dp_nat d) = Some en"
    and "route_with_rule (ue_match e) (dp_router d) (packet_session s a) (dp_providers d) = (Some x, st)" and "ue_send_ok e"
  shows "fst (dispatch_packet e s a d) = UdpSent (ne_transport en) False"
  using assms by (cases x) (simp add: dispatch_packet_def udp_flow_def Let_def)

subsection \<open>A sample dispatcher\<close>

definition sample_dispatcher :: "router \<Rightarrow> prov_store \<Rightarrow> clash_mode \<Rightarrow> fake_ip_pool option \<Rightarrow> dispatcher" where
  "sample_dispatcher rt st m pool = \<lparr>dp_router = rt, dp_providers = st,
     dp_outbounds = \<lparr>om_handlers = [(''direct'', Plain ''direct''), (''proxy'', Plain ''proxy'')], om_direct = [''direct''], om_chains = [], om_group_metas = []\<rparr>,
     dp_tracker = tracker_new, dp_breakers = [], dp_nat = nat_with_ttl 60, dp_fakeip = pool, dp_mode = mode_byte m\<rparr>"

definition sample_router :: router where
  "sample_router = \<lparr>rt_rules = [], rt_default = ''proxy'', rt_domain_trie = domain_trie_new, rt_ip_trie = ip_prefix_trie_new,
     rt_geoip_db = None, rt_geosite_db = None\<rparr>"

definition sample_tcp :: "(any_error, unit) result \<Rightarrow> nat \<Rightarrow> tcp_env" where
  "sample_tcp r now = \<lparr>te_match = sample_env, te_peek = Inr [], te_group_order = [], te_tag_order = [], te_resolver = \<lambda>_. Inr [],
     te_connect = \<lambda>_ _ _. r, te_relay = Inr (10, 200), te_now = now, te_now_failed = now, te_now_done = now,
     te_elapsed_ms = 5, te_lock_free = True\<rparr>"

definition sample_target :: session where
  "sample_target = sample_session\<lparr>s_target := Ip (SockV4 0x01020304 443)\<rparr>"

definition sample_udp :: udp_env where
  "sample_udp = \<lparr>ue_match = sample_env, ue_connect = \<lambda>_ _. Inr 7, ue_now = 0, ue_send_ok = True\<rparr>"

section \<open>Properties\<close>



text \<open>C7. An outbound that keeps failing is shut off: after five sessions for an outbound whose every connection
  attempt fails (the breaker being fresh), the next session for it within thirty seconds of the last failure is
  refused without a connection attempt, whatever else the sessions are.\<close>

theorem failing_outbound_is_shut_off:
  assumes "length es = 5" and "\<forall>(e, s) \<in> set es. reaches tag e s d \<and> (\<forall>s n. \<not> is_ok (te_connect e tag s n))"
    and "hm_get (dp_breakers d) tag = None" and "reaches tag e s d"
    and "te_now e < te_now_failed (fst (last es)) + 30000"
  shows "\<exists>m. fst (dispatch_tcp e s (fold (\<lambda>(e, s) d. snd (dispatch_tcp e s d)) es d)) =
    Finished (Inl (AnyProxy (CircuitBreakerOpen tag))) tag m None"
proof -
  let ?d = "fold (\<lambda>(e, s) d. snd (dispatch_tcp e s d)) es d"
  have b: "breaker_for tag d = breaker_new tag breaker_config_default" using assms(3) by (simp add: breaker_for_def)
  have run: "cb_state (breaker_for tag ?d) = Open \<and> cb_last_failure_time (breaker_for tag ?d) = Some (te_now_failed (fst (last es))) \<and>
      cb_config (breaker_for tag ?d) = breaker_config_default \<and> same_config d ?d \<and> dp_providers ?d = dp_providers d"
    using failing_run_opens [of es tag d] assms(1,2) b by (fastforce simp: Let_def breaker_new_def)
  then have "allow_request (te_now e) (breaker_for tag ?d) = (False, breaker_for tag ?d)"
    using assms(5) by (simp add: allow_request_def breaker_config_default_def less_diff_conv2 not_le)
  moreover have "reaches tag e s ?d" using run reaches_config assms(4) by blast
  ultimately show ?thesis by (intro dispatch_refused)
qed

lemma sample_reaches: "reaches ''direct'' (sample_tcp r now) sample_target (sample_dispatcher rt st DirectMode None)"
  by (simp add: reaches_def prepare_session_def choose_outbound_def restore_fake_ip_def connect_session_def sample_target_def
      sample_session_def sample_dispatcher_def manager_get_def get_mode_def hm_get_def)

theorem failing_outbound_is_shut_off_witness:
  "\<exists>m. fst (dispatch_tcp (sample_tcp (Inr ()) 30000) sample_target
     (fold (\<lambda>(e, s) d. snd (dispatch_tcp e s d)) (replicate 5 (sample_tcp (Inl (AnyOther ''refused'')) 1, sample_target))
       (sample_dispatcher sample_router \<lparr>ps_providers = [], ps_files = []\<rparr> DirectMode None))) =
    Finished (Inl (AnyProxy (CircuitBreakerOpen ''direct''))) ''direct'' m None"
proof (rule failing_outbound_is_shut_off)
  show "te_now (sample_tcp (Inr ()) 30000) < te_now_failed (fst (last (replicate 5 (sample_tcp (Inl (AnyOther ''refused'')) 1, sample_target)))) + 30000"
    by (simp add: sample_tcp_def)
qed (simp_all add: sample_reaches, simp_all add: sample_tcp_def sample_dispatcher_def)



text \<open>C9. One outbound socket per client socket (full cone): after any sequence of sessions, packets, cleanups and
  configuration updates, the flows of one source through one outbound, whatever their destinations, are carried by
  one transport; so a remote peer sees one mapped address for it.\<close>

theorem udp_one_transport_per_source:
  assumes "dp_nat d = nat_with_ttl ttl"
    and "hm_get (nt_entries (dp_nat (fold dispatch_do ops d))) k1 = Some e1"
    and "hm_get (nt_entries (dp_nat (fold dispatch_do ops d))) k2 = Some e2"
    and "nk_source k1 = nk_source k2" and "ne_outbound_tag e1 = ne_outbound_tag e2"
  shows "ne_transport e1 = ne_transport e2"
proof -
  have "nat_shared (fold dispatch_do ops d)" by (rule udp_sharing.run_inv [OF nat_shared_new [OF assms(1)]])
  with assms(2-5) show ?thesis by (metis nat_shared_def option.inject)
qed

theorem udp_one_transport_per_source_witness:
  "\<exists>e1 e2. let d = fold dispatch_do [DUdp sample_udp sample_session (Domain ''a'' 53), DUdp sample_udp sample_session (Domain ''b'' 53)]
      (sample_dispatcher sample_router \<lparr>ps_providers = [], ps_files = []\<rparr> RuleMode None) in
    hm_get (nt_entries (dp_nat d)) \<lparr>nk_source = unspecified_source, nk_dest = Domain ''a'' 53\<rparr> = Some e1 \<and>
    hm_get (nt_entries (dp_nat d)) \<lparr>nk_source = unspecified_source, nk_dest = Domain ''b'' 53\<rparr> = Some e2 \<and>
    ne_transport e1 = ne_transport e2"
proof -
  let ?init = "sample_dispatcher sample_router \<lparr>ps_providers = [], ps_files = []\<rparr> RuleMode None"
  let ?ops = "[DUdp sample_udp sample_session (Domain ''a'' 53), DUdp sample_udp sample_session (Domain ''b'' 53)]"
  let ?d = "fold dispatch_do ?ops ?init"
  let ?a = "\<lparr>nk_source = unspecified_source, nk_dest = Domain ''a'' 53\<rparr>" and ?b = "\<lparr>nk_source = unspecified_source, nk_dest = Domain ''b'' 53\<rparr>"
  have "case (hm_get (nt_entries (dp_nat ?d)) ?a, hm_get (nt_entries (dp_nat ?d)) ?b) of
      (Some e1, Some e2) \<Rightarrow> ne_outbound_tag e1 = ne_outbound_tag e2 | _ \<Rightarrow> False"
    by code_simp
  then obtain e1 e2 where e: "hm_get (nt_entries (dp_nat ?d)) ?a = Some e1" "hm_get (nt_entries (dp_nat ?d)) ?b = Some e2"
    "ne_outbound_tag e1 = ne_outbound_tag e2"
    by (auto split: option.splits)
  moreover have "dp_nat ?init = nat_with_ttl 60" by (simp add: sample_dispatcher_def)
  from udp_one_transport_per_source [of ?init 60 ?ops, OF this e(1,2) _ e(3)] have "ne_transport e1 = ne_transport e2" by simp
  ultimately show ?thesis by (metis (no_types, lifting))
qed

text \<open>The clash mode and the pool of fake addresses have no effect on UDP: the outcome for a packet is the same in
  every mode and with every pool, so in direct or global mode UDP still follows the rules.\<close>

theorem udp_ignores_mode_and_pool:
  "fst (dispatch_packet e s a (d\<lparr>dp_mode := m, dp_fakeip := p\<rparr>)) = fst (dispatch_packet e s a d)"
  by (rule dispatch_packet_ignores)

end
