(* ===== verification/Checksum.thy ===== *)
theory Checksum
  imports OW_Prelude
begin

text \<open>
  The Internet checksum, which the code computes in four places: \<^verbatim>\<open>checksum\<close> and \<^verbatim>\<open>icmpv6_checksum\<close> of
  \<^verbatim>\<open>src/src/proxy/inbound/icmp.rs\<close>, \<^verbatim>\<open>ipv4_checksum\<close> of \<^verbatim>\<open>src/src/proxy/inbound/dns_hijack.rs\<close>, and
  \<^verbatim>\<open>ipv4_header_checksum\<close> and \<^verbatim>\<open>tcp_checksum_ipv4\<close> of \<^verbatim>\<open>src/src/proxy/inbound/tun_stack.rs\<close>.  The sums are taken with
  the 32 bit additions of the code, and the carries are folded in its loop.  The lemmas relate all of them to the
  sum of the words as a natural number, and show that a packet with its checksum in place verifies.
\<close>

section \<open>Definitions\<close>

subsection \<open>Halves of a word\<close>

lemma unat_low16: "unat (s AND 0xFFFF :: u32) = unat s mod 65536"
proof -
  have "s AND 0xFFFF = take_bit 16 s" by (simp add: take_bit_eq_mask mask_eq_exp_minus_1)
  then show ?thesis by (simp add: unat_mod take_bit_eq_mod)
qed

lemma unat_high16: "unat (drop_bit 16 s :: u32) = unat s div 65536"
  by (simp add: drop_bit_eq_div unat_div)

lemma unat_fold_step:
  "unat ((s AND 0xFFFF) + drop_bit 16 s :: u32) = unat s mod 65536 + unat s div 65536"
proof -
  have "unat s < 2 ^ 32" using unsigned_less [of s, where 'a = nat] by simp
  then have "unat s div 65536 < 65536" by (simp add: less_mult_imp_div_less)
  moreover have "unat s mod 65536 < 65536" by simp
  ultimately have "unat s mod 65536 + unat s div 65536 < 131072" by linarith
  then have "unat s mod 65536 + unat s div 65536 < 2 ^ 32" by simp
  then show ?thesis by (simp add: unat_word_ariths unat_low16 unat_high16)
qed

subsection \<open>The code\<close>

text \<open>The sum of the big-endian words, an odd byte padded with zero.\<close>

fun sum_words :: "u32 \<Rightarrow> byte list \<Rightarrow> u32" where
  "sum_words s (a # b # r) = sum_words (s + ucast (from_be [a, b] :: u16)) r"
| "sum_words s [a] = s + push_bit 8 (ucast a)"
| "sum_words s [] = s"

text \<open>The same, without an odd byte and without the word at the index \<^term>\<open>k\<close>.\<close>

fun sum_words_skip :: "nat \<Rightarrow> nat \<Rightarrow> u32 \<Rightarrow> byte list \<Rightarrow> u32 \<times> byte list" where
  "sum_words_skip k i s (a # b # r) =
     (if i = k then sum_words_skip k (i + 2) s r else sum_words_skip k (i + 2) (s + ucast (from_be [a, b] :: u16)) r)"
| "sum_words_skip k i s r = (s, r)"

function fold_carries :: "u32 \<Rightarrow> u32" where
  "fold_carries s = (if drop_bit 16 s \<noteq> 0 then fold_carries ((s AND 0xFFFF) + drop_bit 16 s) else s)"
  by pat_completeness auto
termination
proof (relation "measure unat")
  fix s :: u32 assume "drop_bit 16 s \<noteq> 0"
  then have "0 < unat s div 65536" by (metis neq0_conv unat_eq_0 unat_high16)
  moreover have "unat s = unat s mod 65536 + 65536 * (unat s div 65536)" by simp
  ultimately have "unat s mod 65536 + unat s div 65536 < unat s" by linarith
  then show "((s AND 0xFFFF) + drop_bit 16 s, s) \<in> measure unat" by (simp add: unat_fold_step)
qed simp

declare fold_carries.simps [simp del]

definition finish_sum :: "u32 \<Rightarrow> u16" where
  "finish_sum s = NOT (ucast (fold_carries s))"

definition checksum :: "byte list \<Rightarrow> u16" where
  "checksum d = finish_sum (sum_words 0 d)"

definition ipv4_checksum :: "byte list \<Rightarrow> u16" where
  "ipv4_checksum header = finish_sum (sum_words 0 header)"

definition ipv4_header_checksum :: "byte list \<Rightarrow> u16" where
  "ipv4_header_checksum header = finish_sum (fst (sum_words_skip 10 0 0 header))"

definition icmpv6_checksum :: "u128 \<Rightarrow> u128 \<Rightarrow> byte list \<Rightarrow> u16" where
  "icmpv6_checksum src dst d =
     (let s1 = sum_words (sum_words 0 (to_be 16 src)) (to_be 16 dst);
          s2 = s1 + word_of_nat (length d) + 58;
          (s3, r) = sum_words_skip 2 0 s2 d
      in finish_sum (case r of a # _ \<Rightarrow> s3 + push_bit 8 (ucast a) | [] \<Rightarrow> s3))"

definition tcp_checksum_ipv4 :: "u32 \<Rightarrow> u32 \<Rightarrow> byte list \<Rightarrow> u16 \<Rightarrow> u16" where
  "tcp_checksum_ipv4 src dst seg tcp_len =
     finish_sum (sum_words (sum_words (sum_words 0 (to_be 4 src)) (to_be 4 dst) + 6 + ucast tcp_len) seg)"

subsection \<open>What a receiver computes\<close>

text \<open>The sum of the words without bound, and the folded sum: the representative of the sum modulo 65535 that is
  zero only for zero.  A packet verifies if the folded sum over it, checksum included, has all bits set.\<close>

fun word_sum :: "byte list \<Rightarrow> nat" where
  "word_sum (a # b # r) = unat a * 256 + unat b + word_sum r"
| "word_sum [a] = unat a * 256"
| "word_sum [] = 0"

definition ones_sum :: "nat \<Rightarrow> nat" where
  "ones_sum n = (if n = 0 then 0 else (n - 1) mod 65535 + 1)"

definition verifies :: "nat \<Rightarrow> bool" where
  "verifies n \<longleftrightarrow> ones_sum n = 65535"

section \<open>Lemmas\<close>

subsection \<open>Folding\<close>

lemma ones_sum_step: "ones_sum (n mod 65536 + n div 65536) = ones_sum n"
proof (cases "n = 0")
  case False
  then have p: "n mod 65536 + n div 65536 \<noteq> 0" by (metis add_is_0 div_mult_mod_eq mult_0)
  have e: "n = n mod 65536 + 65536 * (n div 65536)" by simp
  have "n - 1 = (n mod 65536 + n div 65536 - 1) + 65535 * (n div 65536)"
    using p e by linarith
  then have "(n - 1) mod 65535 = (n mod 65536 + n div 65536 - 1) mod 65535" by simp
  with False p show ?thesis by (simp add: ones_sum_def)
qed simp

lemma ones_sum_small: "n < 65536 \<Longrightarrow> ones_sum n = n"
  by (auto simp: ones_sum_def)

lemma ones_sum_le: "ones_sum n \<le> 65535"
proof -
  have "(n - 1) mod 65535 < 65535" by simp
  then show ?thesis by (simp add: ones_sum_def del: mod_less_divisor)
qed

lemma unat_fold_carries: "unat (fold_carries s) = ones_sum (unat s)"
proof (induction s rule: fold_carries.induct)
  case (1 s)
  show ?case
  proof (cases "drop_bit 16 s = 0")
    case True
    then have "unat s div 65536 = 0" by (metis unat_0 unat_high16)
    then have "unat s < 65536" by (simp add: div_eq_0_iff)
    with True show ?thesis by (simp add: ones_sum_small fold_carries.simps [of s])
  next
    case False
    with 1 show ?thesis by (simp add: unat_fold_step ones_sum_step fold_carries.simps [of s])
  qed
qed

lemma unat_finish_sum: "unat (finish_sum s) = 65535 - ones_sum (unat s)"
proof -
  have "unat (ucast (fold_carries s) :: u16) = ones_sum (unat s)"
    using ones_sum_le [of "unat s"] by (simp add: unsigned_ucast_eq take_bit_eq_mod unat_fold_carries)
  moreover have "unat (NOT w :: u16) = 65535 - unat w" for w
  proof -
    have "NOT w = - 1 - w" by (simp add: not_eq_complement)
    moreover have "unat (- 1 :: u16) = 65535" by (simp add: unsigned_minus_1_eq_mask mask_eq_exp_minus_1)
    ultimately show ?thesis using unat_sub [of w "- 1"] by simp
  qed
  ultimately show ?thesis by (simp add: finish_sum_def)
qed

lemma verifies_iff: "verifies n \<longleftrightarrow> 0 < n \<and> 65535 dvd n"
proof (cases n)
  case (Suc m)
  have "(m mod 65535 = 65534) = (65535 dvd Suc m)"
    by (simp add: dvd_eq_mod_eq_0 mod_Suc)
  with Suc show ?thesis by (auto simp: verifies_def ones_sum_def)
qed (simp add: verifies_def ones_sum_def)

text \<open>The complement of the sum makes the sum verify.\<close>

lemma complement_verifies: "verifies (n + (65535 - ones_sum n))"
proof (cases n)
  case (Suc m)
  have "m = 65535 * (m div 65535) + m mod 65535" by simp
  moreover have "m mod 65535 < 65535" by simp
  ultimately have "m + (65534 - m mod 65535) = 65535 * (m div 65535) + 65534" by linarith
  then have "n + (65535 - ones_sum n) = 65535 * (m div 65535 + 1)"
    unfolding Suc ones_sum_def by simp
  then show ?thesis by (simp add: verifies_iff)
qed (simp add: verifies_def ones_sum_def)

lemma finish_sum_zero: "finish_sum s = 0 \<longleftrightarrow> verifies (unat s)"
  using unat_finish_sum [of s] ones_sum_le [of "unat s"] by (auto simp: verifies_def unat_eq_0 [symmetric])

subsection \<open>Sums\<close>

lemma word_sum_append: "even (length a) \<Longrightarrow> word_sum (a @ b) = word_sum a + word_sum b"
  by (induction a rule: word_sum.induct) simp_all

lemma unat_from_be2: "unat (from_be [a, b] :: u16) = unat a * 256 + unat b"
proof -
  have "(from_be [a, b] :: u16) = push_bit 8 (ucast a) OR ucast b" by (simp add: from_be_def)
  also have "\<dots> = push_bit 8 (ucast a) + ucast b"
    by (intro disjunctive_add [symmetric]) (auto simp: bit_simps dest: bit_imp_le_length)
  also have "unat \<dots> = unat a * 256 + unat b"
  proof -
    have "unat a * 256 + unat b < 65536" using unat_byte_less [of a] unat_byte_less [of b] by linarith
    then show ?thesis
      by (simp add: push_bit_eq_mult unat_word_ariths unsigned_ucast_eq take_bit_eq_mod)
  qed
  finally show ?thesis .
qed

lemma word_sum_to_be2: "word_sum (to_be 2 w) = unat (w :: u16)"
proof -
  obtain a b where ab: "to_be 2 w = [a, b]"
    using length_to_be [of 2 w] by (auto simp: length_Suc_conv numeral_2_eq_2 simp del: length_to_be)
  have "w = from_be [a, b]" using be16.dec_enc [of w] ab by simp
  with ab show ?thesis by (simp add: unat_from_be2)
qed

lemma word_sum_bound: "word_sum d \<le> 65535 * ((length d + 1) div 2)"
proof (induction d rule: word_sum.induct)
  case (1 a b r)
  have "unat a * 256 + unat b \<le> 65535" using unat_byte_less [of a] unat_byte_less [of b] by linarith
  with 1 show ?case by simp
next
  case (2 a)
  have "unat a * 256 \<le> 65535" using unat_byte_less [of a] by linarith
  then show ?case by simp
qed simp

lemma unat_sum_words:
  "unat s + word_sum d < 2 ^ 32 \<Longrightarrow> unat (sum_words s d) = unat s + word_sum d"
proof (induction s d rule: sum_words.induct)
  case (1 s a b r)
  have "unat (ucast (from_be [a, b] :: u16) :: u32) = unat a * 256 + unat b"
    using unsigned_less [of "from_be [a, b] :: u16", where 'a = nat]
    by (simp add: unsigned_ucast_eq unat_from_be2 take_bit_eq_mod)
  moreover from this 1 have "unat (s + ucast (from_be [a, b] :: u16)) = unat s + (unat a * 256 + unat b)"
    by (simp add: unat_word_ariths)
  ultimately show ?case using 1 by simp
next
  case (2 s a)
  have "unat a < 4294967296" "unat a * 256 < 4294967296" using unat_byte_less [of a] by linarith+
  then have "unat (push_bit 8 (ucast a) :: u32) = unat a * 256"
    by (simp add: push_bit_eq_mult unat_word_ariths unsigned_ucast_eq take_bit_eq_mod)
  with 2 show ?case by (simp add: unat_word_ariths)
qed simp

text \<open>Skipping a word of the sum.\<close>

lemma unat_add_word: "unat s + (unat a * 256 + unat b) < 2 ^ 32 \<Longrightarrow>
    unat (s + ucast (from_be [a, b] :: u16) :: u32) = unat s + (unat a * 256 + unat b)"
  using unat_sum_words [of s "[a, b]"] by simp

lemma sum_words_skip_after:
  "k < i \<Longrightarrow> sum_words_skip k i s d = (sum_words s (take (2 * (length d div 2)) d), drop (2 * (length d div 2)) d)"
proof (induction s d arbitrary: i rule: sum_words.induct)
  case (1 s a b r)
  have n: "2 * (length (a # b # r) div 2) = Suc (Suc (2 * (length r div 2)))" by simp
  have "i \<noteq> k" "k < i + 2" using 1 by linarith+
  then show ?case using 1 unfolding n take_Suc_Cons drop_Suc_Cons sum_words.simps sum_words_skip.simps by (simp only: if_False)
next
  case (2 s a)
  have "2 * (length [a] div 2) = 0" by simp
  then show ?case by (simp only: sum_words_skip.simps take_0 drop_0 sum_words.simps)
next
  case (3 s)
  show ?case by (simp only: sum_words_skip.simps take_Nil drop_Nil sum_words.simps)
qed

lemma sum_words_append: "even (length a) \<Longrightarrow> sum_words s (a @ b) = sum_words (sum_words s a) b"
  by (induction s a rule: sum_words.induct) simp_all

lemma sum_words_skip_at:
  assumes "even (length a)" and "length w = 2" and "k = i + length a"
  shows "sum_words_skip k i s (a @ w @ d) =
    (sum_words (sum_words s a) (take (2 * (length d div 2)) d), drop (2 * (length d div 2)) d)"
  using assms
proof (induction s a arbitrary: i rule: sum_words.induct)
  case (3 s)
  then obtain x y where "w = [x, y]" by (auto simp: length_Suc_conv numeral_2_eq_2)
  with 3 show ?case by (simp add: sum_words_skip_after)
qed simp_all

lemma take_even_sum: "sum_words s d = (case drop (2 * (length d div 2)) d of
    a # _ \<Rightarrow> sum_words s (take (2 * (length d div 2)) d) + push_bit 8 (ucast a) | [] \<Rightarrow> sum_words s (take (2 * (length d div 2)) d))"
proof -
  let ?n = "2 * (length d div 2)"
  have "even (length (take ?n d))" by simp
  then have "sum_words s d = sum_words (sum_words s (take ?n d)) (drop ?n d)"
    using sum_words_append [of "take ?n d" s "drop ?n d"] by simp
  moreover have "length (drop ?n d) \<le> 1" by simp
  then obtain x where "drop ?n d = [] \<or> drop ?n d = [x]" by (cases "drop ?n d") auto
  ultimately show ?thesis by auto
qed

subsection \<open>Packets with their checksum in place\<close>

lemma checksum_in_place:
  assumes "unat s + word_sum (a @ [0, 0] @ d) < 2 ^ 32" and "even (length a)"
  shows "unat s + word_sum (a @ to_be 2 (finish_sum (sum_words s (a @ [0, 0] @ d))) @ d) =
    (unat s + word_sum (a @ [0, 0] @ d)) + (65535 - ones_sum (unat s + word_sum (a @ [0, 0] @ d)))"
proof -
  have "word_sum (a @ to_be 2 w @ d) = word_sum (a @ [0, 0] @ d) + unat w" for w :: u16
    using assms(2) word_sum_append [of "to_be 2 w" d] word_sum_to_be2 [of w] by (simp add: word_sum_append)
  moreover note unat_sum_words [OF assms(1)]
  ultimately show ?thesis by (simp add: unat_finish_sum)
qed

text \<open>A receiver adds up what it has received, starting from the sum of the pseudo header if there is one.\<close>

lemma checksum_verifies:
  assumes "unat s + word_sum (a @ [0, 0] @ d) < 2 ^ 32" and "even (length a)"
  shows "verifies (unat s + word_sum (a @ to_be 2 (finish_sum (sum_words s (a @ [0, 0] @ d))) @ d))"
  unfolding checksum_in_place [OF assms] by (rule complement_verifies)

lemma skip_is_zero:
  assumes "even (length a)" and "length w = 2"
  shows "(case sum_words_skip (length a) 0 s (a @ w @ d) of (s', r) \<Rightarrow>
      (case r of x # _ \<Rightarrow> s' + push_bit 8 (ucast x) | [] \<Rightarrow> s')) = sum_words s (a @ [0, 0] @ d)"
proof -
  have "sum_words s (a @ [0, 0] @ d) = sum_words (sum_words s a) d"
    using assms(1) by (simp add: sum_words_append from_be_def)
  also have "\<dots> = (case drop (2 * (length d div 2)) d of
      x # _ \<Rightarrow> sum_words (sum_words s a) (take (2 * (length d div 2)) d) + push_bit 8 (ucast x)
    | [] \<Rightarrow> sum_words (sum_words s a) (take (2 * (length d div 2)) d))"
    by (rule take_even_sum)
  finally show ?thesis
    using sum_words_skip_at [OF assms, of "length a" 0 s d] by simp
qed

end
