(* ===== verification/Packets.thy ===== *)
theory Packets
  imports Router Sniff Hosts Checksum "HOL-Library.Monad_Syntax"
begin

text \<open>
  Raw IP packets of the TUN inbound: parsing, \<^verbatim>\<open>src/src/proxy/inbound/tun_device.rs\<close> and
  \<^verbatim>\<open>src/src/proxy/inbound/tun.rs\<close>; echo requests and replies, \<^verbatim>\<open>src/src/proxy/inbound/icmp.rs\<close>; the interception of
  DNS queries, \<^verbatim>\<open>src/src/proxy/inbound/dns_hijack.rs\<close>; and the packets the stack writes back,
  \<^verbatim>\<open>src/src/proxy/inbound/tun_stack.rs\<close>.  Indexing a slice panics out of range, so the outer \<^const>\<open>None\<close> is a panic.
  Packets are written into a zeroed buffer, field by field, as the code does it; the checksums are computed with
  32 bit additions and folded.  The theorems show that nothing panics, that what is built is read back, that the
  checksums verify, and that answers go back to the client that asked.
\<close>

section \<open>Definitions\<close>

subsection \<open>Reading and writing buffers\<close>

definition byte_at :: "byte list \<Rightarrow> nat \<Rightarrow> byte option" where
  "byte_at d i = (if i < length d then Some (d ! i) else None)"

definition slice_at :: "byte list \<Rightarrow> nat \<Rightarrow> nat \<Rightarrow> byte list option" where
  "slice_at d a b = (if a \<le> b \<and> b \<le> length d then Some (take (b - a) (drop a d)) else None)"

definition be16_at :: "byte list \<Rightarrow> nat \<Rightarrow> u16 option" where
  "be16_at d i = map_option from_be (slice_at d i (i + 2))"

definition be32_at :: "byte list \<Rightarrow> nat \<Rightarrow> u32 option" where
  "be32_at d i = map_option from_be (slice_at d i (i + 4))"

definition be128_at :: "byte list \<Rightarrow> nat \<Rightarrow> u128 option" where
  "be128_at d i = map_option from_be (slice_at d i (i + 16))"

text \<open>\<^verbatim>\<open>copy_from_slice\<close> into the range that starts at \<^term>\<open>i\<close>, and into the rest of the buffer.\<close>

definition put :: "nat \<Rightarrow> byte list \<Rightarrow> byte list \<Rightarrow> byte list option" where
  "put i bs p = (if i + length bs \<le> length p then Some (take i p @ bs @ drop (i + length bs) p) else None)"

definition put_rest :: "nat \<Rightarrow> byte list \<Rightarrow> byte list \<Rightarrow> byte list option" where
  "put_rest i bs p = (if i \<le> length p \<and> length p - i = length bs then Some (take i p @ bs) else None)"

fun puts :: "(nat \<times> byte list) list \<Rightarrow> byte list \<Rightarrow> byte list option" where
  "puts [] p = Some p"
| "puts ((i, bs) # fs) p = Option.bind (put i bs p) (puts fs)"

subsection \<open>IP headers\<close>

datatype ip_protocol = ProtoTcp | ProtoUdp | ProtoIcmp | ProtoOther byte

definition from_number :: "byte \<Rightarrow> ip_protocol" where
  "from_number n = (if n = 1 \<or> n = 58 then ProtoIcmp else if n = 6 then ProtoTcp else if n = 17 then ProtoUdp else ProtoOther n)"

record parsed_packet =
  pk_version :: nat
  pk_protocol :: ip_protocol
  pk_src_ip :: ip_addr
  pk_dst_ip :: ip_addr
  pk_src_port :: u16
  pk_dst_port :: u16
  pk_payload_offset :: nat
  pk_total_len :: nat

datatype packet_error =
    EmptyPacket
  | PacketTooShort nat
  | InvalidIhl nat
  | UnsupportedVersion byte
  | UnsupportedProtocol byte
  | PacketTooLarge nat
  | NotIpv4

definition ports_at :: "ip_protocol \<Rightarrow> byte list \<Rightarrow> nat \<Rightarrow> (u16 \<times> u16) option" where
  "ports_at proto d off =
     (if length d \<ge> off + 4 \<and> (proto = ProtoTcp \<or> proto = ProtoUdp) then
        do { s \<leftarrow> be16_at d off; t \<leftarrow> be16_at d (off + 2); Some (s, t) }
      else Some (0, 0))"

definition parse_ipv4_packet :: "byte list \<Rightarrow> (packet_error, parsed_packet) result option" where
  "parse_ipv4_packet d =
     (if length d < 20 then Some (Inl (PacketTooShort (length d)))
      else do {
        b0 \<leftarrow> byte_at d 0;
        let ihl = unat (b0 AND 0x0F) * 4;
        if ihl < 20 \<or> length d < ihl then Some (Inl (InvalidIhl ihl))
        else do {
          total_len \<leftarrow> be16_at d 2;
          protocol_num \<leftarrow> byte_at d 9;
          let protocol = from_number protocol_num;
          src \<leftarrow> be32_at d 12;
          dst \<leftarrow> be32_at d 16;
          (sp, dp) \<leftarrow> ports_at protocol d ihl;
          Some (Inr \<lparr>pk_version = 4, pk_protocol = protocol, pk_src_ip = V4 src, pk_dst_ip = V4 dst, pk_src_port = sp,
            pk_dst_port = dp, pk_payload_offset = ihl, pk_total_len = unat total_len\<rparr>)
        }
      })"

definition parse_ipv6_packet :: "byte list \<Rightarrow> (packet_error, parsed_packet) result option" where
  "parse_ipv6_packet d =
     (if length d < 40 then Some (Inl (PacketTooShort (length d)))
      else do {
        payload_len \<leftarrow> be16_at d 4;
        next_header \<leftarrow> byte_at d 6;
        let protocol = from_number next_header;
        src \<leftarrow> be128_at d 8;
        dst \<leftarrow> be128_at d 24;
        (sp, dp) \<leftarrow> ports_at protocol d 40;
        Some (Inr \<lparr>pk_version = 6, pk_protocol = protocol, pk_src_ip = V6 src, pk_dst_ip = V6 dst, pk_src_port = sp,
          pk_dst_port = dp, pk_payload_offset = 40, pk_total_len = 40 + unat payload_len\<rparr>)
      })"

definition parse_ip_packet :: "byte list \<Rightarrow> (packet_error, parsed_packet) result option" where
  "parse_ip_packet d =
     (if d = [] then Some (Inl EmptyPacket)
      else do {
        b0 \<leftarrow> byte_at d 0;
        let version = drop_bit 4 b0;
        if version = 4 then parse_ipv4_packet d
        else if version = 6 then parse_ipv6_packet d
        else Some (Inl (UnsupportedVersion version))
      })"

subsection \<open>Sessions of the plain inbound\<close>

definition tun_network :: "byte \<Rightarrow> (packet_error, network) result" where
  "tun_network n = (if n = 6 then Inr Tcp else if n = 17 then Inr Udp else Inl (UnsupportedProtocol n))"

definition tun_session :: "string \<Rightarrow> ip_addr \<Rightarrow> u16 \<Rightarrow> ip_addr \<Rightarrow> u16 \<Rightarrow> network \<Rightarrow> session" where
  "tun_session tag src sp dst dp n = \<lparr>s_target = Ip (sock_new dst dp), s_source = Some (sock_new src sp), s_inbound_tag = tag,
     s_network = n, s_sniff = False, s_detected_protocol = None\<rparr>"

definition session_from_ipv4 :: "string \<Rightarrow> byte list \<Rightarrow> (packet_error, session) result option" where
  "session_from_ipv4 tag d =
     (if length d < 20 then Some (Inl (PacketTooShort (length d)))
      else do {
        b0 \<leftarrow> byte_at d 0;
        let ihl = unat (b0 AND 0x0f) * 4;
        if ihl < 20 \<or> length d < ihl + 4 then Some (Inl (InvalidIhl ihl))
        else do {
          protocol \<leftarrow> byte_at d 9;
          src \<leftarrow> be32_at d 12;
          dst \<leftarrow> be32_at d 16;
          sp \<leftarrow> be16_at d ihl;
          dp \<leftarrow> be16_at d (ihl + 2);
          Some (case tun_network protocol of Inl e \<Rightarrow> Inl e | Inr n \<Rightarrow> Inr (tun_session tag (V4 src) sp (V4 dst) dp n))
        }
      })"

definition session_from_ipv6 :: "string \<Rightarrow> byte list \<Rightarrow> (packet_error, session) result option" where
  "session_from_ipv6 tag d =
     (if length d < 44 then Some (Inl (PacketTooShort (length d)))
      else do {
        next_header \<leftarrow> byte_at d 6;
        src \<leftarrow> be128_at d 8;
        dst \<leftarrow> be128_at d 24;
        sp \<leftarrow> be16_at d 40;
        dp \<leftarrow> be16_at d 42;
        Some (case tun_network next_header of Inl e \<Rightarrow> Inl e | Inr n \<Rightarrow> Inr (tun_session tag (V6 src) sp (V6 dst) dp n))
      })"

definition session_from_packet :: "string \<Rightarrow> byte list \<Rightarrow> (packet_error, session) result option" where
  "session_from_packet tag d =
     (if d = [] then Some (Inl EmptyPacket)
      else do {
        b0 \<leftarrow> byte_at d 0;
        let version = drop_bit 4 b0;
        if version = 4 then session_from_ipv4 tag d
        else if version = 6 then session_from_ipv6 tag d
        else Some (Inl (UnsupportedVersion version))
      })"

text \<open>\<^verbatim>\<open>route_packet\<close>: session, outbound and the name of the rule; the router never panics where it has been built
  from a configuration.\<close>

definition route_packet ::
  "match_env \<Rightarrow> router \<Rightarrow> string \<Rightarrow> byte list \<Rightarrow> prov_store \<Rightarrow> (packet_error, session \<times> string \<times> string) result option" where
  "route_packet env rt tag d st =
     (case session_from_packet tag d of
        None \<Rightarrow> None
      | Some (Inl e) \<Rightarrow> Some (Inl e)
      | Some (Inr s) \<Rightarrow>
          (case fst (route_with_rule env rt s st) of
             None \<Rightarrow> None
           | Some (out, m) \<Rightarrow> Some (Inr (s, out, case m of Some r \<Rightarrow> r | None \<Rightarrow> ''MATCH''))))"

subsection \<open>Policies and kinds of ICMP packets\<close>

datatype icmp_policy = Passthrough | DropIcmp

definition icmp_policy_from_str :: "string \<Rightarrow> icmp_policy" where
  "icmp_policy_from_str s = (if to_lowercase s \<in> {''passthrough'', ''pass''} then Passthrough else DropIcmp)"

definition should_process :: "icmp_policy \<Rightarrow> parsed_packet \<Rightarrow> bool" where
  "should_process pol p = (if pk_protocol p \<noteq> ProtoIcmp then True else pol = Passthrough)"

datatype icmp_type = EchoRequest | EchoReply | DestinationUnreachable | TimeExceeded | OtherIcmp byte

definition icmp_from_v4 :: "byte \<Rightarrow> icmp_type" where
  "icmp_from_v4 b = (if b = 0 then EchoReply else if b = 3 then DestinationUnreachable else if b = 8 then EchoRequest
     else if b = 11 then TimeExceeded else OtherIcmp b)"

definition icmp_from_v6 :: "byte \<Rightarrow> icmp_type" where
  "icmp_from_v6 b = (if b = 1 then DestinationUnreachable else if b = 3 then TimeExceeded else if b = 128 then EchoRequest
     else if b = 129 then EchoReply else OtherIcmp b)"

definition parse_icmp_type :: "parsed_packet \<Rightarrow> byte list \<Rightarrow> icmp_type parse" where
  "parse_icmp_type p d =
     (if pk_protocol p \<noteq> ProtoIcmp then fail
      else if length d \<le> pk_payload_offset p then fail
      else do {
        b \<leftarrow> byte_at d (pk_payload_offset p);
        found (if pk_version p = 4 then icmp_from_v4 b else if pk_version p = 6 then icmp_from_v6 b else OtherIcmp b)
      })"

subsection \<open>Echo requests\<close>

record icmp_echo =
  ie_target :: ip_addr
  ie_source :: ip_addr
  ie_id :: u16
  ie_sequence :: u16
  ie_payload :: "byte list"
  ie_ttl :: byte

definition is_echo_request :: "byte list \<Rightarrow> bool option" where
  "is_echo_request d =
     (if length d < 20 then Some False
      else do {
        b0 \<leftarrow> byte_at d 0;
        let version = drop_bit 4 b0 AND 0xF;
        if version = 4 then do {
          proto \<leftarrow> byte_at d 9;
          if proto \<noteq> 1 then Some False
          else let ihl = unat (b0 AND 0xF) * 4 in
            if length d < ihl + 8 then Some False
            else map_option (\<lambda>t. t = 8) (byte_at d ihl)
        }
        else if version = 6 then
          (if length d < 48 then Some False
           else do {
             next_header \<leftarrow> byte_at d 6;
             if next_header \<noteq> 58 then Some False else map_option (\<lambda>t. t = 128) (byte_at d 40)
           })
        else Some False
      })"

text \<open>The part of both parsers that reads the ICMP message at an offset.\<close>

definition echo_at :: "byte \<Rightarrow> byte list \<Rightarrow> nat \<Rightarrow> ip_addr \<Rightarrow> ip_addr \<Rightarrow> byte \<Rightarrow> icmp_echo parse" where
  "echo_at request d off source target ttl =
     do {
       icmp \<leftarrow> slice_at d off (length d);
       t \<leftarrow> byte_at icmp 0;
       if t \<noteq> request then fail
       else do {
         i \<leftarrow> be16_at icmp 4;
         sq \<leftarrow> be16_at icmp 6;
         payload \<leftarrow> slice_at icmp 8 (length icmp);
         found \<lparr>ie_target = target, ie_source = source, ie_id = i, ie_sequence = sq, ie_payload = payload, ie_ttl = ttl\<rparr>
       }
     }"

definition parse_ipv4_echo :: "byte list \<Rightarrow> icmp_echo parse" where
  "parse_ipv4_echo d =
     do {
       b0 \<leftarrow> byte_at d 0;
       let ihl = unat (b0 AND 0xF) * 4;
       if length d < ihl + 8 then fail
       else do {
         source \<leftarrow> be32_at d 12;
         target \<leftarrow> be32_at d 16;
         ttl \<leftarrow> byte_at d 8;
         echo_at 8 d ihl (V4 source) (V4 target) ttl
       }
     }"

definition parse_ipv6_echo :: "byte list \<Rightarrow> icmp_echo parse" where
  "parse_ipv6_echo d =
     (if length d < 48 then fail
      else do {
        source \<leftarrow> be128_at d 8;
        target \<leftarrow> be128_at d 24;
        ttl \<leftarrow> byte_at d 7;
        echo_at 128 d 40 (V6 source) (V6 target) ttl
      })"

definition parse_echo_request :: "byte list \<Rightarrow> icmp_echo parse" where
  "parse_echo_request d =
     (if length d < 20 then fail
      else do {
        b0 \<leftarrow> byte_at d 0;
        let version = drop_bit 4 b0 AND 0xF;
        if version = 4 then parse_ipv4_echo d
        else if version = 6 then parse_ipv6_echo d
        else fail
      })"

text \<open>Building a reply; a request whose source and target are of different families panics.\<close>

definition build_ipv4_reply :: "icmp_echo \<Rightarrow> byte list option" where
  "build_ipv4_reply req =
     (case (ie_target req, ie_source req) of
        (V4 src, V4 dst) \<Rightarrow>
          let total_len = 20 + (8 + length (ie_payload req)) in do {
            p1 \<leftarrow> puts [(0, [0x45]), (1, [0]), (2, to_be 2 (word_of_nat total_len :: u16)), (4, to_be 2 (0 :: u16)), (6, [0x40]), (7, [0]),
              (8, [64]), (9, [1]), (12, v4_octets src), (16, v4_octets dst), (20, [0]), (21, [0]),
              (24, to_be 2 (ie_id req)), (26, to_be 2 (ie_sequence req))] (replicate total_len 0);
            p2 \<leftarrow> put_rest 28 (ie_payload req) p1;
            icmp \<leftarrow> slice_at p2 20 (length p2);
            p3 \<leftarrow> put 22 (to_be 2 (checksum icmp)) p2;
            header \<leftarrow> slice_at p3 0 20;
            put 10 (to_be 2 (checksum header)) p3
          }
      | _ \<Rightarrow> None)"

definition build_ipv6_reply :: "icmp_echo \<Rightarrow> byte list option" where
  "build_ipv6_reply req =
     (case (ie_target req, ie_source req) of
        (V6 src, V6 dst) \<Rightarrow>
          let icmp_len = 8 + length (ie_payload req); total_len = 40 + icmp_len in do {
            p1 \<leftarrow> puts [(0, [0x60]), (4, to_be 2 (word_of_nat icmp_len :: u16)), (6, [58]), (7, [64]), (8, v6_octets src),
              (24, v6_octets dst), (40, [129]), (41, [0]), (44, to_be 2 (ie_id req)), (46, to_be 2 (ie_sequence req))]
              (replicate total_len 0);
            p2 \<leftarrow> put_rest 48 (ie_payload req) p1;
            icmp \<leftarrow> slice_at p2 40 (length p2);
            put 42 (to_be 2 (icmpv6_checksum src dst icmp)) p2
          }
      | _ \<Rightarrow> None)"

definition build_echo_reply :: "icmp_echo \<Rightarrow> byte list option" where
  "build_echo_reply req = (case ie_target req of V4 _ \<Rightarrow> build_ipv4_reply req | V6 _ \<Rightarrow> build_ipv6_reply req)"

subsection \<open>DNS messages\<close>

record dns_query =
  dq_id :: u16
  dq_name :: string
  dq_qtype :: u16
  dq_raw_question :: "byte list"

text \<open>The loop over the labels of the name, from position \<^term>\<open>pos\<close>.\<close>

function (sequential) read_labels :: "byte list \<Rightarrow> nat \<Rightarrow> string list \<Rightarrow> (string list \<times> nat) parse" where
  "read_labels d pos parts =
     (if pos \<ge> length d then fail
      else case byte_at d pos of
          None \<Rightarrow> None
        | Some b \<Rightarrow>
            if unat b = 0 then found (parts, pos + 1)
            else if b AND 0xC0 = 0xC0 then fail
            else if pos + 1 + unat b > length d then fail
            else (case slice_at d (pos + 1) (pos + 1 + unat b) of
                None \<Rightarrow> None
              | Some l \<Rightarrow>
                  (case from_utf8 l of
                     None \<Rightarrow> fail
                   | Some label \<Rightarrow> read_labels d (pos + 1 + unat b) (parts @ [label]))))"
  by pat_completeness auto
termination by (relation "measure (\<lambda>(d, pos, parts). length d - pos)") auto

declare read_labels.simps [simp del]

definition parse_dns_query :: "byte list \<Rightarrow> dns_query parse" where
  "parse_dns_query d =
     (if length d < 12 then fail
      else do {
        i \<leftarrow> be16_at d 0;
        flags \<leftarrow> be16_at d 2;
        if flags AND 0x8000 \<noteq> 0 then fail
        else do {
          qdcount \<leftarrow> be16_at d 4;
          if qdcount = 0 then fail
          else case read_labels d 12 [] of
              None \<Rightarrow> None
            | Some None \<Rightarrow> fail
            | Some (Some (parts, pos)) \<Rightarrow>
                if parts = [] then fail
                else if pos + 4 > length d then fail
                else do {
                  qtype \<leftarrow> be16_at d pos;
                  raw \<leftarrow> slice_at d 12 (pos + 4);
                  found \<lparr>dq_id = i, dq_name = join_with ''.'' parts, dq_qtype = qtype, dq_raw_question = raw\<rparr>
                }
        }
      })"

fun qtype_matches :: "u16 \<Rightarrow> ip_addr \<Rightarrow> bool" where
  "qtype_matches t (V4 _) = (t = 1)"
| "qtype_matches t (V6 _) = (t = 28)"

fun answer_record :: "ip_addr \<Rightarrow> byte list" where
  "answer_record (V4 a) = to_be 2 (0xC00C :: u16) @ to_be 2 (1 :: u16) @ to_be 2 (1 :: u16) @ to_be 4 (60 :: u32) @
     to_be 2 (4 :: u16) @ v4_octets a"
| "answer_record (V6 a) = to_be 2 (0xC00C :: u16) @ to_be 2 (28 :: u16) @ to_be 2 (1 :: u16) @ to_be 4 (60 :: u32) @
     to_be 2 (16 :: u16) @ v6_octets a"

definition build_dns_response :: "dns_query \<Rightarrow> ip_addr list \<Rightarrow> byte list" where
  "build_dns_response q addrs =
     (let matched = filter (qtype_matches (dq_qtype q)) addrs in
      to_be 2 (dq_id q) @ to_be 2 (0x8180 :: u16) @ to_be 2 (1 :: u16) @ to_be 2 (word_of_nat (length matched) :: u16) @
      to_be 2 (0 :: u16) @ to_be 2 (0 :: u16) @ dq_raw_question q @ concat (map answer_record matched))"

definition build_ipv4_udp_packet :: "u32 \<Rightarrow> u32 \<Rightarrow> u16 \<Rightarrow> u16 \<Rightarrow> byte list \<Rightarrow> byte list option" where
  "build_ipv4_udp_packet src dst sp dp payload =
     (let udp_len = 8 + length payload; total_len = 20 + udp_len in do {
        p1 \<leftarrow> puts [(0, [0x45]), (1, [0]), (2, to_be 2 (word_of_nat total_len :: u16)), (4, to_be 2 (0 :: u16)),
          (6, to_be 2 (0x4000 :: u16)), (8, [64]), (9, [17]), (12, v4_octets src), (16, v4_octets dst)] (replicate total_len 0);
        header \<leftarrow> slice_at p1 0 20;
        p2 \<leftarrow> puts [(10, to_be 2 (ipv4_checksum header)), (20, to_be 2 sp), (22, to_be 2 dp),
          (24, to_be 2 (word_of_nat udp_len :: u16))] p1;
        put_rest 28 payload p2
      })"

definition build_ipv6_udp_packet :: "u128 \<Rightarrow> u128 \<Rightarrow> u16 \<Rightarrow> u16 \<Rightarrow> byte list \<Rightarrow> byte list option" where
  "build_ipv6_udp_packet src dst sp dp payload =
     (let udp_len = 8 + length payload; total_len = 40 + udp_len in do {
        p1 \<leftarrow> puts [(0, [0x60]), (4, to_be 2 (word_of_nat udp_len :: u16)), (6, [17]), (7, [64]), (8, v6_octets src),
          (24, v6_octets dst), (40, to_be 2 sp), (42, to_be 2 dp), (44, to_be 2 (word_of_nat udp_len :: u16))]
          (replicate total_len 0);
        put_rest 48 payload p1
      })"

definition is_dns_query :: "parsed_packet \<Rightarrow> bool" where
  "is_dns_query p \<longleftrightarrow> pk_protocol p = ProtoUdp \<and> pk_dst_port p = 53"

definition handle_dns_hijack :: "parsed_packet \<Rightarrow> byte list \<Rightarrow> resolver \<Rightarrow> byte list parse" where
  "handle_dns_hijack p raw res =
     (let off = pk_payload_offset p + 8 in
      if length raw \<le> off then fail
      else do {
        payload \<leftarrow> slice_at raw off (length raw);
        case parse_dns_query payload of
          None \<Rightarrow> None
        | Some None \<Rightarrow> fail
        | Some (Some q) \<Rightarrow>
            let addrs = (case res (dq_name q) of Inr a \<Rightarrow> a | Inl _ \<Rightarrow> []); response = build_dns_response q addrs in
            (case (pk_src_ip p, pk_dst_ip p) of
               (V4 client, V4 server) \<Rightarrow>
                 map_option Some (build_ipv4_udp_packet server client (pk_dst_port p) (pk_src_port p) response)
             | (V6 client, V6 server) \<Rightarrow>
                 map_option Some (build_ipv6_udp_packet server client (pk_dst_port p) (pk_src_port p) response)
             | _ \<Rightarrow> fail)
      })"

subsection \<open>Packets of the stack\<close>

definition build_udp_reply_packet :: "socket_addr \<Rightarrow> socket_addr \<Rightarrow> byte list \<Rightarrow> (packet_error, byte list) result option" where
  "build_udp_reply_packet src dst payload =
     (case (sock_ip src, sock_ip dst) of
        (V4 src_ip, V4 dst_ip) \<Rightarrow>
          let total_len = 20 + 8 + length payload in
          if total_len > 65535 then Some (Inl (PacketTooLarge total_len))
          else do {
            p1 \<leftarrow> puts [(0, [0x45]), (1, [0]), (2, to_be 2 (word_of_nat total_len :: u16)), (4, to_be 2 (0 :: u16)),
              (6, to_be 2 (0 :: u16)), (8, [64]), (9, [17]), (12, v4_octets src_ip), (16, v4_octets dst_ip),
              (20, to_be 2 (sock_port src)), (22, to_be 2 (sock_port dst)),
              (24, to_be 2 (word_of_nat (8 + length payload) :: u16)), (26, to_be 2 (0 :: u16))] (replicate total_len 0);
            p2 \<leftarrow> put_rest 28 payload p1;
            header \<leftarrow> slice_at p2 0 20;
            p3 \<leftarrow> put 10 (to_be 2 (ipv4_header_checksum header)) p2;
            Some (Inr p3)
          }
      | _ \<Rightarrow> Some (Inl NotIpv4))"

definition build_tcp_packet_ipv4 ::
  "socket_addr \<Rightarrow> socket_addr \<Rightarrow> u32 \<Rightarrow> u32 \<Rightarrow> byte \<Rightarrow> byte list \<Rightarrow> (packet_error, byte list) result option" where
  "build_tcp_packet_ipv4 src dst sq ack flags payload =
     (case (sock_ip src, sock_ip dst) of
        (V4 src_ip, V4 dst_ip) \<Rightarrow>
          let total_len = 20 + 20 + length payload in
          if total_len > 65535 then Some (Inl (PacketTooLarge total_len))
          else do {
            p1 \<leftarrow> puts [(0, [0x45]), (1, [0]), (2, to_be 2 (word_of_nat total_len :: u16)), (4, to_be 2 (0 :: u16)),
              (6, to_be 2 (0 :: u16)), (8, [64]), (9, [6]), (12, v4_octets src_ip), (16, v4_octets dst_ip),
              (20, to_be 2 (sock_port src)), (22, to_be 2 (sock_port dst)), (24, to_be 4 sq), (28, to_be 4 ack),
              (32, [0x50]), (33, [flags]), (34, to_be 2 (65535 :: u16)), (36, to_be 2 (0 :: u16)), (38, to_be 2 (0 :: u16))]
              (replicate total_len 0);
            p2 \<leftarrow> put_rest 40 payload p1;
            header \<leftarrow> slice_at p2 0 20;
            p3 \<leftarrow> put 10 (to_be 2 (ipv4_header_checksum header)) p2;
            segment \<leftarrow> slice_at p3 20 (length p3);
            p4 \<leftarrow> put 36 (to_be 2 (tcp_checksum_ipv4 src_ip dst_ip segment (word_of_nat (20 + length payload)))) p3;
            Some (Inr p4)
          }
      | _ \<Rightarrow> Some (Inl NotIpv4))"

section \<open>Lemmas\<close>

subsection \<open>Buffers\<close>

lemma byte_at_less [simp]: "i < length d \<Longrightarrow> byte_at d i = Some (d ! i)"
  by (simp add: byte_at_def)

lemma byte_at_0 [simp]: "d \<noteq> [] \<Longrightarrow> byte_at d 0 = Some (d ! 0)"
  by (simp add: byte_at_def)

lemma byte_at_0_le: "n \<le> length d \<Longrightarrow> 0 < n \<Longrightarrow> byte_at d 0 = Some (d ! 0)"
  by (cases d) simp_all

lemma slice_at_ok [simp]: "a \<le> b \<Longrightarrow> b \<le> length d \<Longrightarrow> slice_at d a b = Some (take (b - a) (drop a d))"
  by (simp add: slice_at_def)

lemma be_at_ok [simp]:
  "i + 2 \<le> length d \<Longrightarrow> be16_at d i = Some (from_be (take 2 (drop i d)))"
  "i + 4 \<le> length d \<Longrightarrow> be32_at d i = Some (from_be (take 4 (drop i d)))"
  "i + 16 \<le> length d \<Longrightarrow> be128_at d i = Some (from_be (take 16 (drop i d)))"
  by (simp_all add: be16_at_def be32_at_def be128_at_def)

text \<open>A buffer as a list of chunks: writing at the start of a chunk replaces the chunk.\<close>

fun put_chunk :: "nat \<Rightarrow> byte list \<Rightarrow> byte list list \<Rightarrow> byte list list" where
  "put_chunk i bs [] = []"
| "put_chunk i bs (c # cs) = (if i = 0 then bs # cs else c # put_chunk (i - length c) bs cs)"

fun chunk_at :: "nat \<Rightarrow> nat \<Rightarrow> byte list list \<Rightarrow> bool" where
  "chunk_at i n [] = False"
| "chunk_at i n (c # cs) = (if i = 0 then n = length c else length c \<le> i \<and> chunk_at (i - length c) n cs)"

fun chunks_fit :: "(nat \<times> byte list) list \<Rightarrow> byte list list \<Rightarrow> bool" where
  "chunks_fit [] cs = True"
| "chunks_fit ((i, bs) # fs) cs = (chunk_at i (length bs) cs \<and> chunks_fit fs (put_chunk i bs cs))"

lemma put_chunk: "chunk_at i (length bs) cs \<Longrightarrow> put i bs (concat cs) = Some (concat (put_chunk i bs cs))"
proof (induction cs arbitrary: i)
  case (Cons c cs)
  show ?case
  proof (cases "i = 0")
    case False
    with Cons.prems have le: "length c \<le> i" and "chunk_at (i - length c) (length bs) cs" by simp_all
    from Cons.IH [OF this(2)] have "put (i - length c) bs (concat cs) = Some (concat (put_chunk (i - length c) bs cs))" .
    with le False show ?thesis by (auto simp: put_def split: if_splits)
  qed (use Cons.prems in \<open>simp add: put_def\<close>)
qed simp

lemma puts_chunks:
  "chunks_fit fs cs \<Longrightarrow> puts fs (concat cs) = Some (concat (fold (\<lambda>(i, bs). put_chunk i bs) fs cs))"
  by (induction fs cs rule: chunks_fit.induct) (simp_all add: put_chunk)

lemma put_rest_field: "length a = i \<Longrightarrow> length old = length bs \<Longrightarrow> put_rest i bs (a @ old) = Some (a @ bs)"
  by (simp add: put_rest_def)

subsection \<open>What the builders write\<close>

lemma be_consts: "to_be 2 (0 :: u16) = [0, 0]" "to_be 2 (0x4000 :: u16) = [0x40, 0]" "to_be 2 (65535 :: u16) = [255, 255]"
  by code_simp+

lemma build_ipv4_udp_packet_eq:
  fixes payload
  defines "tlen \<equiv> (word_of_nat (28 + length payload) :: u16)" and "ulen \<equiv> (word_of_nat (8 + length payload) :: u16)"
  shows "build_ipv4_udp_packet src dst sp dp payload =
    Some ([0x45, 0] @ to_be 2 tlen @ [0, 0, 0x40, 0, 64, 17] @
      to_be 2 (ipv4_checksum ([0x45, 0] @ to_be 2 tlen @ [0, 0, 0x40, 0, 64, 17, 0, 0] @ v4_octets src @ v4_octets dst)) @
      v4_octets src @ v4_octets dst @ to_be 2 sp @ to_be 2 dp @ to_be 2 ulen @ [0, 0] @ payload)"
proof -
  let ?z = "[[0], [0], [0, 0], [0, 0], [0, 0], [0], [0], [0, 0], replicate 4 0, replicate 4 0, [0, 0], [0, 0], [0, 0], [0, 0], replicate (length payload) (0 :: byte)]"
  let ?p = "[[0x45], [0], to_be 2 tlen, [0, 0], [0x40, 0], [64], [17], [0, 0], v4_octets src, v4_octets dst, [0, 0], [0, 0], [0, 0], [0, 0], replicate (length payload) (0 :: byte)]"
  let ?c = "ipv4_checksum ([0x45, 0] @ to_be 2 tlen @ [0, 0, 0x40, 0, 64, 17, 0, 0] @ v4_octets src @ v4_octets dst)"
  let ?q = "[[0x45], [0], to_be 2 tlen, [0, 0], [0x40, 0], [64], [17], to_be 2 ?c, v4_octets src, v4_octets dst, to_be 2 sp, to_be 2 dp, to_be 2 ulen, [0, 0], replicate (length payload) (0 :: byte)]"
  have z: "replicate (20 + (8 + length payload)) 0 = concat ?z"
    by (simp add: replicate_add numeral_eq_Suc)
  have len: "length (v4_octets a) = 4" for a by (simp add: v4_octets_def)
  have p: "puts [(0, [0x45]), (1, [0]), (2, to_be 2 tlen), (4, to_be 2 (0 :: u16)),
      (6, to_be 2 (0x4000 :: u16)), (8, [64]), (9, [17]), (12, v4_octets src), (16, v4_octets dst)] (concat ?z) = Some (concat ?p)"
    by (subst puts_chunks) (simp_all add: len be_consts)
  have h: "slice_at (concat ?p) 0 20 = Some ([0x45, 0] @ to_be 2 tlen @ [0, 0, 0x40, 0, 64, 17, 0, 0] @ v4_octets src @ v4_octets dst)"
    by (simp add: len)
  have q: "puts [(10, to_be 2 ?c), (20, to_be 2 sp), (22, to_be 2 dp), (24, to_be 2 ulen)] (concat ?p) = Some (concat ?q)"
    by (subst puts_chunks) (simp_all add: len)
  have r: "put_rest 28 payload (concat ?q) = Some (concat (butlast ?q) @ payload)"
    using put_rest_field [of "concat (butlast ?q)" 28 "replicate (length payload) 0" payload] by (simp add: len)
  have t: "word_of_nat (20 + (8 + length payload)) = tlen" by (simp add: tlen_def)
  show ?thesis
    unfolding build_ipv4_udp_packet_def Let_def z t ulen_def [symmetric] p bind.bind_lunit h q r by simp
qed

lemma build_ipv6_udp_packet_eq:
  fixes payload
  defines "ulen \<equiv> (word_of_nat (8 + length payload) :: u16)"
  shows "build_ipv6_udp_packet src dst sp dp payload =
    Some ([0x60, 0, 0, 0] @ to_be 2 ulen @ [17, 64] @ v6_octets src @ v6_octets dst @ to_be 2 sp @ to_be 2 dp @ to_be 2 ulen @ [0, 0] @ payload)"
proof -
  let ?z = "[[0], [0, 0, 0], [0, 0], [0], [0], replicate 16 0, replicate 16 0, [0, 0], [0, 0], [0, 0], [0, 0], replicate (length payload) (0 :: byte)]"
  let ?p = "[[0x60], [0, 0, 0], to_be 2 ulen, [17], [64], v6_octets src, v6_octets dst, to_be 2 sp, to_be 2 dp, to_be 2 ulen, [0, 0], replicate (length payload) (0 :: byte)]"
  have z: "replicate (40 + (8 + length payload)) 0 = concat ?z"
    by (simp add: replicate_add numeral_eq_Suc)
  have len: "length (v6_octets a) = 16" for a by (simp add: v6_octets_def)
  have p: "puts [(0, [0x60]), (4, to_be 2 ulen), (6, [17]), (7, [64]), (8, v6_octets src),
          (24, v6_octets dst), (40, to_be 2 sp), (42, to_be 2 dp), (44, to_be 2 ulen)] (concat ?z) = Some (concat ?p)"
    by (subst puts_chunks) (simp_all add: len)
  have r: "put_rest 48 payload (concat ?p) = Some (concat (butlast ?p) @ payload)"
    using put_rest_field [of "concat (butlast ?p)" 48 "replicate (length payload) 0" payload] by (simp add: len)
  show ?thesis
    unfolding build_ipv6_udp_packet_def Let_def z ulen_def [symmetric] p bind.bind_lunit r by simp
qed

lemma build_ipv4_reply_eq:
  fixes req
  defines "tlen \<equiv> (word_of_nat (28 + length (ie_payload req)) :: u16)"
    and "tail \<equiv> to_be 2 (ie_id req) @ to_be 2 (ie_sequence req) @ ie_payload req"
  assumes "ie_target req = V4 src" and "ie_source req = V4 dst"
  shows "build_ipv4_reply req =
    Some ([0x45, 0] @ to_be 2 tlen @ [0, 0, 0x40, 0, 64, 1] @
      to_be 2 (checksum ([0x45, 0] @ to_be 2 tlen @ [0, 0, 0x40, 0, 64, 1] @ [0, 0] @ v4_octets src @ v4_octets dst)) @
      v4_octets src @ v4_octets dst @ [0, 0] @ to_be 2 (checksum ([0, 0] @ [0, 0] @ tail)) @ tail)"
proof -
  let ?n = "length (ie_payload req)"
  let ?z = "[[0], [0], [0, 0], [0, 0], [0], [0], [0], [0], [0, 0], replicate 4 0, replicate 4 0, [0], [0], [0, 0], [0, 0], [0, 0], replicate ?n (0 :: byte)]"
  let ?h = "[[0x45], [0], to_be 2 tlen, [0, 0], [0x40], [0], [64], [1], [0, 0], v4_octets src, v4_octets dst, [0], [0], [0, 0], to_be 2 (ie_id req), to_be 2 (ie_sequence req)]"
  let ?ic = "checksum ([0, 0] @ [0, 0] @ tail)"
  let ?q = "[[0x45], [0], to_be 2 tlen, [0, 0], [0x40], [0], [64], [1], [0, 0], v4_octets src, v4_octets dst, [0], [0], to_be 2 ?ic, to_be 2 (ie_id req), to_be 2 (ie_sequence req), ie_payload req]"
  let ?hc = "checksum ([0x45, 0] @ to_be 2 tlen @ [0, 0, 0x40, 0, 64, 1] @ [0, 0] @ v4_octets src @ v4_octets dst)"
  let ?r = "[[0x45], [0], to_be 2 tlen, [0, 0], [0x40], [0], [64], [1], to_be 2 ?hc, v4_octets src, v4_octets dst, [0], [0], to_be 2 ?ic, to_be 2 (ie_id req), to_be 2 (ie_sequence req), ie_payload req]"
  have z: "replicate (20 + (8 + ?n)) 0 = concat ?z"
    by (simp add: replicate_add numeral_eq_Suc)
  have len: "length (v4_octets a) = 4" for a by (simp add: v4_octets_def)
  have t: "word_of_nat (20 + (8 + ?n)) = tlen" by (simp add: tlen_def)
  have p: "puts [(0, [0x45]), (1, [0]), (2, to_be 2 tlen), (4, to_be 2 (0 :: u16)), (6, [0x40]), (7, [0]),
              (8, [64]), (9, [1]), (12, v4_octets src), (16, v4_octets dst), (20, [0]), (21, [0]),
              (24, to_be 2 (ie_id req)), (26, to_be 2 (ie_sequence req))] (concat ?z) = Some (concat (?h @ [replicate ?n 0]))"
    by (subst puts_chunks) (simp_all add: len be_consts)
  have r: "put_rest 28 (ie_payload req) (concat (?h @ [replicate ?n 0])) = Some (concat (?h @ [ie_payload req]))"
    using put_rest_field [of "concat ?h" 28 "replicate ?n 0" "ie_payload req"] by (simp add: len)
  have s1: "slice_at (concat (?h @ [ie_payload req])) 20 (length (concat (?h @ [ie_payload req]))) = Some ([0, 0] @ [0, 0] @ tail)"
    by (simp add: len tail_def)
  have q: "put 22 (to_be 2 ?ic) (concat (?h @ [ie_payload req])) = Some (concat ?q)"
    by (subst put_chunk) (simp_all add: len)
  have s2: "slice_at (concat ?q) 0 20 = Some ([0x45, 0] @ to_be 2 tlen @ [0, 0, 0x40, 0, 64, 1] @ [0, 0] @ v4_octets src @ v4_octets dst)"
    by (simp add: len)
  have f: "put 10 (to_be 2 ?hc) (concat ?q) = Some (concat ?r)"
    by (subst put_chunk) (simp_all add: len)
  have "build_ipv4_reply req = Some (concat ?r)"
    unfolding build_ipv4_reply_def assms(3,4) prod.case ip_addr.case Let_def z t p bind.bind_lunit r s1 q s2 f ..
  then show ?thesis by (simp add: tail_def)
qed

lemma build_ipv6_reply_eq:
  fixes req
  defines "ilen \<equiv> (word_of_nat (8 + length (ie_payload req)) :: u16)"
    and "tail \<equiv> to_be 2 (ie_id req) @ to_be 2 (ie_sequence req) @ ie_payload req"
  assumes "ie_target req = V6 src" and "ie_source req = V6 dst"
  shows "build_ipv6_reply req =
    Some ([0x60, 0, 0, 0] @ to_be 2 ilen @ [58, 64] @ v6_octets src @ v6_octets dst @
      [129, 0] @ to_be 2 (icmpv6_checksum src dst ([129, 0] @ [0, 0] @ tail)) @ tail)"
proof -
  let ?n = "length (ie_payload req)"
  let ?z = "[[0], [0, 0, 0], [0, 0], [0], [0], replicate 16 0, replicate 16 0, [0], [0], [0, 0], [0, 0], [0, 0], replicate ?n (0 :: byte)]"
  let ?h = "[[0x60], [0, 0, 0], to_be 2 ilen, [58], [64], v6_octets src, v6_octets dst, [129], [0], [0, 0], to_be 2 (ie_id req), to_be 2 (ie_sequence req)]"
  let ?ic = "icmpv6_checksum src dst ([129, 0] @ [0, 0] @ tail)"
  let ?q = "[[0x60], [0, 0, 0], to_be 2 ilen, [58], [64], v6_octets src, v6_octets dst, [129], [0], to_be 2 ?ic, to_be 2 (ie_id req), to_be 2 (ie_sequence req), ie_payload req]"
  have z: "replicate (40 + (8 + ?n)) 0 = concat ?z"
    by (simp add: replicate_add numeral_eq_Suc)
  have len: "length (v6_octets a) = 16" for a by (simp add: v6_octets_def)
  have p: "puts [(0, [0x60]), (4, to_be 2 ilen), (6, [58]), (7, [64]), (8, v6_octets src), (24, v6_octets dst), (40, [129]), (41, [0]),
      (44, to_be 2 (ie_id req)), (46, to_be 2 (ie_sequence req))] (concat ?z) = Some (concat (?h @ [replicate ?n 0]))"
    by (subst puts_chunks) (simp_all add: len)
  have r: "put_rest 48 (ie_payload req) (concat (?h @ [replicate ?n 0])) = Some (concat (?h @ [ie_payload req]))"
    using put_rest_field [of "concat ?h" 48 "replicate ?n 0" "ie_payload req"] by (simp add: len)
  have s1: "slice_at (concat (?h @ [ie_payload req])) 40 (length (concat (?h @ [ie_payload req]))) = Some ([129, 0] @ [0, 0] @ tail)"
    by (simp add: len tail_def)
  have q: "put 42 (to_be 2 ?ic) (concat (?h @ [ie_payload req])) = Some (concat ?q)"
    by (subst put_chunk) (simp_all add: len)
  have "build_ipv6_reply req = Some (concat ?q)"
    unfolding build_ipv6_reply_def assms(3,4) prod.case ip_addr.case Let_def z ilen_def [symmetric] p bind.bind_lunit r s1 q ..
  then show ?thesis by (simp add: tail_def)
qed

lemma build_udp_reply_eq:
  fixes payload
  defines "tlen \<equiv> (word_of_nat (28 + length payload) :: u16)" and "ulen \<equiv> (word_of_nat (8 + length payload) :: u16)"
  assumes "sock_ip src = V4 s" and "sock_ip dst = V4 d" and "28 + length payload \<le> 65535"
  shows "build_udp_reply_packet src dst payload =
    Some (Inr ([0x45, 0] @ to_be 2 tlen @ [0, 0, 0, 0, 64, 17] @
      to_be 2 (ipv4_header_checksum (([0x45, 0] @ to_be 2 tlen @ [0, 0, 0, 0, 64, 17]) @ [0, 0] @ v4_octets s @ v4_octets d)) @
      v4_octets s @ v4_octets d @ to_be 2 (sock_port src) @ to_be 2 (sock_port dst) @ to_be 2 ulen @ [0, 0] @ payload))"
proof -
  let ?n = "length payload"
  let ?z = "[[0], [0], [0, 0], [0, 0], [0, 0], [0], [0], [0, 0], replicate 4 0, replicate 4 0, [0, 0], [0, 0], [0, 0], [0, 0], replicate ?n (0 :: byte)]"
  let ?h = "[[0x45], [0], to_be 2 tlen, [0, 0], [0, 0], [64], [17], [0, 0], v4_octets s, v4_octets d, to_be 2 (sock_port src), to_be 2 (sock_port dst), to_be 2 ulen, [0, 0]]"
  let ?c = "ipv4_header_checksum (([0x45, 0] @ to_be 2 tlen @ [0, 0, 0, 0, 64, 17]) @ [0, 0] @ v4_octets s @ v4_octets d)"
  let ?q = "[[0x45], [0], to_be 2 tlen, [0, 0], [0, 0], [64], [17], to_be 2 ?c, v4_octets s, v4_octets d, to_be 2 (sock_port src), to_be 2 (sock_port dst), to_be 2 ulen, [0, 0], payload]"
  have e: "20 + 8 + ?n = 28 + ?n" "\<not> 65535 < 28 + ?n" using assms(5) by simp_all
  have z: "replicate (28 + ?n) 0 = concat ?z"
    by (simp add: replicate_add numeral_eq_Suc)
  have len: "length (v4_octets a) = 4" for a by (simp add: v4_octets_def)
  have p: "puts [(0, [0x45]), (1, [0]), (2, to_be 2 tlen), (4, to_be 2 (0 :: u16)), (6, to_be 2 (0 :: u16)), (8, [64]), (9, [17]),
      (12, v4_octets s), (16, v4_octets d), (20, to_be 2 (sock_port src)), (22, to_be 2 (sock_port dst)), (24, to_be 2 ulen),
      (26, to_be 2 (0 :: u16))] (concat ?z) = Some (concat (?h @ [replicate ?n 0]))"
    by (subst puts_chunks) (simp_all add: len be_consts)
  have r: "put_rest 28 payload (concat (?h @ [replicate ?n 0])) = Some (concat (?h @ [payload]))"
    using put_rest_field [of "concat ?h" 28 "replicate ?n 0" payload] by (simp add: len)
  have s1: "slice_at (concat (?h @ [payload])) 0 20 = Some (([0x45, 0] @ to_be 2 tlen @ [0, 0, 0, 0, 64, 17]) @ [0, 0] @ v4_octets s @ v4_octets d)"
    by (simp add: len)
  have q: "put 10 (to_be 2 ?c) (concat (?h @ [payload])) = Some (concat ?q)"
    by (subst put_chunk) (simp_all add: len)
  have "build_udp_reply_packet src dst payload = Some (Inr (concat ?q))"
    unfolding build_udp_reply_packet_def assms(3,4) prod.case ip_addr.case Let_def e(1) z tlen_def [symmetric] ulen_def [symmetric]
      p bind.bind_lunit r s1 q by (simp only: e(2) if_False)
  then show ?thesis by simp
qed

lemma build_tcp_eq:
  fixes payload src dst sq ack flags
  defines "tlen \<equiv> (word_of_nat (40 + length payload) :: u16)" and "slen \<equiv> (word_of_nat (20 + length payload) :: u16)"
    and "head \<equiv> [0x45, 0] @ to_be 2 (word_of_nat (40 + length payload) :: u16) @ [0, 0, 0, 0, 64, 6]"
    and "seg1 \<equiv> to_be 2 (sock_port src) @ to_be 2 (sock_port dst) @ to_be 4 sq @ to_be 4 ack @ [0x50, flags, 255, 255]"
  assumes "sock_ip src = V4 s" and "sock_ip dst = V4 d" and "40 + length payload \<le> 65535"
  shows "build_tcp_packet_ipv4 src dst sq ack flags payload =
    Some (Inr (head @ to_be 2 (ipv4_header_checksum (head @ [0, 0] @ v4_octets s @ v4_octets d)) @ v4_octets s @ v4_octets d @
      seg1 @ to_be 2 (tcp_checksum_ipv4 s d (seg1 @ [0, 0] @ [0, 0] @ payload) slen) @ [0, 0] @ payload))"
proof -
  let ?n = "length payload"
  let ?z = "[[0], [0], [0, 0], [0, 0], [0, 0], [0], [0], [0, 0], replicate 4 0, replicate 4 0, [0, 0], [0, 0], replicate 4 0, replicate 4 0, [0], [0], [0, 0], [0, 0], [0, 0], replicate ?n (0 :: byte)]"
  let ?seg = "[to_be 2 (sock_port src), to_be 2 (sock_port dst), to_be 4 sq, to_be 4 ack, [0x50], [flags], [255, 255]]"
  let ?ip = "[[0x45], [0], to_be 2 tlen, [0, 0], [0, 0], [64], [6]]"
  let ?c = "ipv4_header_checksum (head @ [0, 0] @ v4_octets s @ v4_octets d)"
  let ?tc = "tcp_checksum_ipv4 s d (seg1 @ [0, 0] @ [0, 0] @ payload) slen"
  have e: "20 + 20 + ?n = 40 + ?n" "\<not> 65535 < 40 + ?n" using assms(7) by simp_all
  have z: "replicate (40 + ?n) 0 = concat ?z"
    by (simp add: replicate_add numeral_eq_Suc)
  have len: "length (v4_octets a) = 4" for a by (simp add: v4_octets_def)
  let ?p1 = "?ip @ [[0, 0], v4_octets s, v4_octets d] @ ?seg @ [[0, 0], [0, 0], replicate ?n 0]"
  let ?p2 = "?ip @ [[0, 0], v4_octets s, v4_octets d] @ ?seg @ [[0, 0], [0, 0], payload]"
  let ?p3 = "?ip @ [to_be 2 ?c, v4_octets s, v4_octets d] @ ?seg @ [[0, 0], [0, 0], payload]"
  let ?p4 = "?ip @ [to_be 2 ?c, v4_octets s, v4_octets d] @ ?seg @ [to_be 2 ?tc, [0, 0], payload]"
  have p: "puts [(0, [0x45]), (1, [0]), (2, to_be 2 tlen), (4, to_be 2 (0 :: u16)), (6, to_be 2 (0 :: u16)), (8, [64]), (9, [6]),
      (12, v4_octets s), (16, v4_octets d), (20, to_be 2 (sock_port src)), (22, to_be 2 (sock_port dst)), (24, to_be 4 sq), (28, to_be 4 ack),
      (32, [0x50]), (33, [flags]), (34, to_be 2 (65535 :: u16)), (36, to_be 2 (0 :: u16)), (38, to_be 2 (0 :: u16))] (concat ?z) = Some (concat ?p1)"
    by (subst puts_chunks) (simp_all add: len be_consts)
  have r: "put_rest 40 payload (concat ?p1) = Some (concat ?p2)"
    using put_rest_field [of "concat (butlast ?p1)" 40 "replicate ?n 0" payload] by (simp add: len)
  have s1: "slice_at (concat ?p2) 0 20 = Some (head @ [0, 0] @ v4_octets s @ v4_octets d)"
    by (simp add: len head_def tlen_def)
  have q: "put 10 (to_be 2 ?c) (concat ?p2) = Some (concat ?p3)"
    by (subst put_chunk) (simp_all add: len)
  have s2: "slice_at (concat ?p3) 20 (length (concat ?p3)) = Some (seg1 @ [0, 0] @ [0, 0] @ payload)"
    by (simp add: len seg1_def)
  have t: "put 36 (to_be 2 ?tc) (concat ?p3) = Some (concat ?p4)"
    by (subst put_chunk) (simp_all add: len)
  have "build_tcp_packet_ipv4 src dst sq ack flags payload = Some (Inr (concat ?p4))"
    unfolding build_tcp_packet_ipv4_def assms(5,6) prod.case ip_addr.case Let_def e(1) z tlen_def [symmetric] slen_def [symmetric]
      p bind.bind_lunit r s1 q s2 t by (simp only: e(2) if_False)
  then show ?thesis by (simp add: head_def seg1_def tlen_def)
qed

subsection \<open>Parsing what was built\<close>

definition transport_port :: "byte \<Rightarrow> nat \<Rightarrow> byte list \<Rightarrow> u16" where
  "transport_port proto i rest =
     (if (from_number proto = ProtoTcp \<or> from_number proto = ProtoUdp) \<and> 4 \<le> length rest then from_be (take 2 (drop i rest)) else 0)"

lemma ports_at_append:
  "length h = n \<Longrightarrow> ports_at (from_number proto) (h @ rest) n = Some (transport_port proto 0 rest, transport_port proto 2 rest)"
  by (auto simp: ports_at_def transport_port_def)

lemma parse_built_v4:
  assumes "length f = 4" and "length c = 2"
  shows "parse_ip_packet ([0x45, 0] @ to_be 2 tlen @ f @ [ttl, proto] @ c @ v4_octets src @ v4_octets dst @ rest) =
    Some (Inr \<lparr>pk_version = 4, pk_protocol = from_number proto, pk_src_ip = V4 src, pk_dst_ip = V4 dst,
      pk_src_port = transport_port proto 0 rest, pk_dst_port = transport_port proto 2 rest, pk_payload_offset = 20,
      pk_total_len = unat (tlen :: u16)\<rparr>)"
proof -
  define h where "h = [0x45, 0] @ to_be 2 tlen @ f @ [ttl, proto] @ c @ v4_octets src @ v4_octets dst"
  have len: "length (v4_octets a) = 4" for a by (simp add: v4_octets_def)
  have l: "length h = 20" using assms by (simp add: len h_def)
  have b: "drop_bit 4 (0x45 :: byte) = 4" "unat (0x45 AND 0x0F :: byte) = 5" by code_simp+
  have "take 2 (drop 2 h) = to_be 2 tlen" "take 4 (drop 12 h) = to_be 4 src" "take 4 (drop 16 h) = to_be 4 dst" "h ! 0 = 0x45" "h ! 9 = proto"
    using assms by (simp_all add: h_def v4_octets_def nth_append)
  then have "byte_at (h @ rest) 0 = Some 0x45" "byte_at (h @ rest) 9 = Some proto" "be16_at (h @ rest) 2 = Some tlen"
    "be32_at (h @ rest) 12 = Some src" "be32_at (h @ rest) 16 = Some dst"
    using l by (simp_all add: nth_append from_be_to_be)
  with l ports_at_append [OF l, of proto rest] have "parse_ip_packet (h @ rest) =
    Some (Inr \<lparr>pk_version = 4, pk_protocol = from_number proto, pk_src_ip = V4 src, pk_dst_ip = V4 dst,
      pk_src_port = transport_port proto 0 rest, pk_dst_port = transport_port proto 2 rest, pk_payload_offset = 20,
      pk_total_len = unat tlen\<rparr>)"
    by (auto simp: parse_ip_packet_def parse_ipv4_packet_def b Let_def)
  then show ?thesis by (simp add: h_def)
qed

lemma parse_built_v6:
  "parse_ip_packet ([0x60, 0, 0, 0] @ to_be 2 plen @ [proto, hops] @ v6_octets src @ v6_octets dst @ rest) =
    Some (Inr \<lparr>pk_version = 6, pk_protocol = from_number proto, pk_src_ip = V6 src, pk_dst_ip = V6 dst,
      pk_src_port = transport_port proto 0 rest, pk_dst_port = transport_port proto 2 rest, pk_payload_offset = 40,
      pk_total_len = 40 + unat (plen :: u16)\<rparr>)"
proof -
  define h where "h = [0x60, 0, 0, 0] @ to_be 2 plen @ [proto, hops] @ v6_octets src @ v6_octets dst"
  have l: "length h = 40" by (simp add: v6_octets_def h_def)
  have b: "drop_bit 4 (0x60 :: byte) = 6" by code_simp
  have "take 2 (drop 4 h) = to_be 2 plen" "take 16 (drop 8 h) = to_be 16 src" "take 16 (drop 24 h) = to_be 16 dst" "h ! 0 = 0x60" "h ! 6 = proto"
    by (simp_all add: h_def v6_octets_def nth_append)
  then have "byte_at (h @ rest) 0 = Some 0x60" "byte_at (h @ rest) 6 = Some proto" "be16_at (h @ rest) 4 = Some plen"
    "be128_at (h @ rest) 8 = Some src" "be128_at (h @ rest) 24 = Some dst"
    using l by (simp_all add: nth_append from_be_to_be)
  with l ports_at_append [OF l, of proto rest] have "parse_ip_packet (h @ rest) =
    Some (Inr \<lparr>pk_version = 6, pk_protocol = from_number proto, pk_src_ip = V6 src, pk_dst_ip = V6 dst,
      pk_src_port = transport_port proto 0 rest, pk_dst_port = transport_port proto 2 rest, pk_payload_offset = 40,
      pk_total_len = 40 + unat plen\<rparr>)"
    by (auto simp: parse_ip_packet_def parse_ipv6_packet_def b Let_def)
  then show ?thesis by (simp add: h_def)
qed

subsection \<open>No panics\<close>

lemma ports_at_total: "\<exists>x. ports_at proto d off = Some x"
  by (auto simp: ports_at_def)

lemma parse_ipv4_packet_total: "\<exists>r. parse_ipv4_packet d = Some r"
proof (cases "20 \<le> length d")
  case True
  obtain x y where "ports_at (from_number (d ! 9)) d (unat (d ! 0 AND 0x0F) * 4) = Some (x, y)"
    using ports_at_total by fastforce
  with True byte_at_0_le [OF True] show ?thesis by (simp add: parse_ipv4_packet_def Let_def)
qed (simp add: parse_ipv4_packet_def)

lemma parse_ipv6_packet_total: "\<exists>r. parse_ipv6_packet d = Some r"
proof -
  obtain x y where "ports_at (from_number (d ! 6)) d 40 = Some (x, y)"
    using ports_at_total by fastforce
  then show ?thesis by (cases "length d < 40") (simp_all add: parse_ipv6_packet_def Let_def)
qed

lemma parse_ip_packet_total: "\<exists>r. parse_ip_packet d = Some r"
  using parse_ipv4_packet_total [of d] parse_ipv6_packet_total [of d]
  by (cases d) (simp_all add: parse_ip_packet_def Let_def)

lemma session_from_packet_total: "\<exists>r. session_from_packet tag d = Some r"
proof -
  have "\<exists>r. session_from_ipv4 tag d = Some r"
    using byte_at_0_le [of 20 d] by (cases "20 \<le> length d") (simp_all add: session_from_ipv4_def Let_def)
  moreover have "\<exists>r. session_from_ipv6 tag d = Some r"
    by (cases "44 \<le> length d") (simp_all add: session_from_ipv6_def Let_def)
  ultimately show ?thesis by (cases d) (simp_all add: session_from_packet_def Let_def)
qed

lemma echo_at_total: "off + 8 \<le> length d \<Longrightarrow> \<exists>r. echo_at t d off a b ttl = Some r"
  by (simp add: echo_at_def)

lemma parse_echo_request_total: "\<exists>r. parse_echo_request d = Some r"
proof (cases "20 \<le> length d")
  case True
  note b0 = byte_at_0_le [OF True]
  have "\<exists>r. parse_ipv4_echo d = Some r"
    using True b0 echo_at_total [of "unat (d ! 0 AND 0xF) * 4" d] by (simp add: parse_ipv4_echo_def Let_def)
  moreover have "\<exists>r. parse_ipv6_echo d = Some r"
    using echo_at_total [of 40 d] by (simp add: parse_ipv6_echo_def)
  ultimately show ?thesis using True b0 by (simp add: parse_echo_request_def Let_def)
qed (simp add: parse_echo_request_def)

lemma is_echo_request_total: "\<exists>r. is_echo_request d = Some r"
proof (cases "20 \<le> length d")
  case True
  note b0 = byte_at_0_le [OF True]
  have ex: "Ex Not" by (rule exI [of _ False]) simp
  have "is_echo_request d \<noteq> None"
    using True b0 by (simp add: is_echo_request_def Let_def byte_at_def ex ex [simplified])
  then show ?thesis by simp
qed (metis is_echo_request_def not_le)

lemma parse_icmp_type_total: "\<exists>r. parse_icmp_type p d = Some r"
  by (simp add: parse_icmp_type_def)

lemma read_labels_total: "\<exists>r. read_labels d pos parts = Some r"
proof (induction d pos parts rule: read_labels.induct)
  case (1 d pos parts)
  show ?case
  proof (cases "pos < length d")
    case True
    then have b: "byte_at d pos = Some (d ! pos)" by simp
    show ?thesis
    proof (cases "pos + 1 + unat (d ! pos) \<le> length d")
      case len: True
      let ?l = "take (unat (d ! pos)) (drop (pos + 1) d)"
      from len have sl: "slice_at d (pos + 1) (pos + 1 + unat (d ! pos)) = Some ?l" by simp
      show ?thesis
      proof (cases "from_utf8 ?l")
        case None
        then show ?thesis using True len b sl by (subst read_labels.simps) simp
      next
        case (Some label)
        show ?thesis using 1 [OF _ b _ _ _ sl Some] True len b sl Some
          by (subst read_labels.simps) (auto simp: not_less)
      qed
    qed (use True b in \<open>subst read_labels.simps; auto\<close>)
  qed (subst read_labels.simps; simp)
qed

lemma read_labels_pos: "read_labels d pos parts = found (ps, e) \<Longrightarrow> pos < e \<and> e \<le> length d"
proof (induction d pos parts rule: read_labels.induct)
  case (1 d pos parts)
  then show ?case
    by (subst (asm) (2) read_labels.simps)
       (fastforce split: if_splits option.splits)
qed

lemma parse_dns_query_total: "\<exists>r. parse_dns_query d = Some r"
proof (cases "12 \<le> length d")
  case True
  obtain r where r: "read_labels d 12 [] = Some r" using read_labels_total by blast
  show ?thesis
  proof (cases r)
    case None
    with True r show ?thesis by (simp add: parse_dns_query_def)
  next
    case (Some x)
    obtain ps e where x: "x = (ps, e)" by fastforce
    have "12 < e" using read_labels_pos [of d 12 "[]" ps e] r Some x by simp
    with True r Some x show ?thesis by (simp add: parse_dns_query_def)
  qed
qed (simp add: parse_dns_query_def)

subsection \<open>Checksums of what is built\<close>

lemma word_sum_fits: "length d \<le> 65536 \<Longrightarrow> n \<le> 1000000 \<Longrightarrow> n + word_sum d < 2 ^ 32"
proof -
  assume "length d \<le> 65536" "n \<le> 1000000"
  moreover from this have "(length d + 1) div 2 \<le> 32768" by linarith
  ultimately have "n + 65535 * ((length d + 1) div 2) < 2 ^ 32" by simp
  with word_sum_bound [of d] show "n + word_sum d < 2 ^ 32" by linarith
qed

lemma header_verifies:
  assumes "length a = 10" and "length b = 8"
  shows "verifies (word_sum (a @ to_be 2 (ipv4_checksum (a @ [0, 0] @ b)) @ b))"
    and "verifies (word_sum (a @ to_be 2 (checksum (a @ [0, 0] @ b)) @ b))"
    and "verifies (word_sum (a @ to_be 2 (ipv4_header_checksum (a @ [0, 0] @ b)) @ b))"
proof -
  have fits: "unat (0 :: u32) + word_sum (a @ [0, 0] @ b) < 2 ^ 32"
    using word_sum_fits [of "a @ [0, 0] @ b" 0] assms by simp
  have "even (length a)" using assms by simp
  note v = checksum_verifies [OF fits this]
  from v show "verifies (word_sum (a @ to_be 2 (ipv4_checksum (a @ [0, 0] @ b)) @ b))"
    and "verifies (word_sum (a @ to_be 2 (checksum (a @ [0, 0] @ b)) @ b))"
    by (simp_all only: ipv4_checksum_def checksum_def unat_0 add_0)
  have n: "2 * (length b div 2) = length b" using assms(2) by simp
  have "sum_words_skip 10 0 0 (a @ [0, 0] @ b) = (sum_words (sum_words 0 a) (take (length b) b), drop (length b) b)"
    by (rule sum_words_skip_at [of a "[0, 0]" 10 0 0 b, unfolded n]) (use assms in simp_all)
  then have "sum_words_skip 10 0 0 (a @ [0, 0] @ b) = (sum_words (sum_words 0 a) b, [])"
    by (simp only: take_all drop_all order_refl)
  moreover have "sum_words 0 (a @ [0, 0] @ b) = sum_words (sum_words 0 a) b"
    using sum_words_append [of a 0 "[0, 0] @ b"] assms by (simp add: from_be_def)
  ultimately have "ipv4_header_checksum (a @ [0, 0] @ b) = finish_sum (sum_words 0 (a @ [0, 0] @ b))"
    by (simp only: ipv4_header_checksum_def fst_conv)
  with v show "verifies (word_sum (a @ to_be 2 (ipv4_header_checksum (a @ [0, 0] @ b)) @ b))"
    by (simp only: unat_0 add_0)
qed

lemma icmp_verifies:
  assumes "length d \<le> 65000"
  shows "verifies (word_sum ([t, c] @ to_be 2 (checksum ([t, c] @ [0, 0] @ d)) @ d))"
proof -
  have "unat (0 :: u32) + word_sum ([t, c] @ [0, 0] @ d) < 2 ^ 32"
    using word_sum_fits [of "[t, c] @ [0, 0] @ d" 0] assms by simp
  moreover have "even (length [t, c])" by simp
  ultimately show ?thesis unfolding checksum_def by (metis checksum_verifies unat_0 add_0)
qed

text \<open>The pseudo header of version 6, as a number.\<close>

definition pseudo_v6 :: "u128 \<Rightarrow> u128 \<Rightarrow> nat \<Rightarrow> nat" where
  "pseudo_v6 src dst n = word_sum (v6_octets src) + word_sum (v6_octets dst) + n + 58"

lemma pseudo_v6_bound: "n \<le> 65535 \<Longrightarrow> pseudo_v6 src dst n \<le> 1000000 + 200000"
  using word_sum_bound [of "v6_octets src"] word_sum_bound [of "v6_octets dst"]
  by (simp add: pseudo_v6_def v6_octets_def)

definition pseudo_v4 :: "u32 \<Rightarrow> u32 \<Rightarrow> nat \<Rightarrow> nat" where
  "pseudo_v4 src dst n = word_sum (v4_octets src) + word_sum (v4_octets dst) + 6 + n"

lemma icmpv6_verifies:
  assumes "length d \<le> 65000"
  shows "verifies (pseudo_v6 src dst (length d + 4) + word_sum ([129, 0] @ to_be 2 (icmpv6_checksum src dst ([129, 0] @ [0, 0] @ d)) @ d))"
proof -
  let ?m = "[129, 0] @ [0, 0] @ d" and ?n = "length d + 4"
  define s where "s = sum_words (sum_words 0 (to_be 16 src)) (to_be 16 dst) + word_of_nat (length ?m) + 58"
  have b: "word_sum (to_be 16 x) \<le> 65535 * 8" for x :: u128 using word_sum_bound [of "to_be 16 x"] by simp
  have u1: "unat (sum_words 0 (to_be 16 src)) = word_sum (to_be 16 src)"
    using unat_sum_words [of 0 "to_be 16 src"] b [of src] by simp
  have u2: "unat (sum_words (sum_words 0 (to_be 16 src)) (to_be 16 dst)) = word_sum (to_be 16 src) + word_sum (to_be 16 dst)"
    using unat_sum_words [of "sum_words 0 (to_be 16 src)" "to_be 16 dst"] b [of src] b [of dst] u1 by simp
  have lm: "unat (word_of_nat ?n :: u32) = ?n"
  proof (rule of_nat_inverse [OF refl])
    have "?n < 2 ^ 32" using assms by simp
    then show "?n < 2 ^ LENGTH(32)" by (simp only: len_num0 len_bit0 len_bit1 len_num1) simp
  qed
  have "word_sum (to_be 16 src) + word_sum (to_be 16 dst) + ?n + 58 < 2 ^ 32"
    using b [of src] b [of dst] assms by simp
  moreover have m: "length ?m = ?n" by simp
  ultimately have s: "unat s = pseudo_v6 src dst ?n"
    unfolding s_def pseudo_v6_def v6_octets_def m using u2 lm
    by (simp only: unat_word_ariths) (simp add: mod_simps del: of_nat_add)
  have fits: "unat s + word_sum ?m < 2 ^ 32"
  proof -
    have "unat s \<le> 1200000" using pseudo_v6_bound [of "length d + 4" src dst] assms s by simp
    moreover have "word_sum ?m \<le> 65535 * 32768"
      using word_sum_bound [of ?m] assms by (simp add: div_le_mono order.trans)
    ultimately show ?thesis by simp
  qed
  have "icmpv6_checksum src dst ?m = finish_sum (sum_words s ?m)"
  proof -
    have k: "length [129, 0 :: byte] = 2" by simp
    have "(case sum_words_skip 2 0 s ?m of (s', r) \<Rightarrow> (case r of x # _ \<Rightarrow> s' + push_bit 8 (ucast x) | [] \<Rightarrow> s')) = sum_words s ?m"
      by (rule skip_is_zero [of "[129, 0]" "[0, 0]" s d, unfolded k]) simp_all
    then show ?thesis
      unfolding icmpv6_checksum_def Let_def s_def [symmetric] by (simp only: case_prod_unfold)
  qed
  moreover have "even (length [129, 0 :: byte])" by simp
  ultimately show ?thesis using checksum_verifies [OF fits] s by (simp only:)
qed

lemma tcp_verifies:
  assumes "length a + length d \<le> 65000" and "even (length a)"
  shows "verifies (pseudo_v4 src dst (length a + 2 + length d) +
    word_sum (a @ to_be 2 (tcp_checksum_ipv4 src dst (a @ [0, 0] @ d) (word_of_nat (length a + 2 + length d))) @ d))"
proof -
  let ?m = "a @ [0, 0] @ d" and ?n = "length a + 2 + length d"
  define s where "s = sum_words (sum_words 0 (to_be 4 src)) (to_be 4 dst) + 6 + ucast (word_of_nat ?n :: u16)"
  have b: "word_sum (to_be 4 x) \<le> 65535 * 2" for x :: u32 using word_sum_bound [of "to_be 4 x"] by simp
  have u1: "unat (sum_words 0 (to_be 4 src)) = word_sum (to_be 4 src)"
    using unat_sum_words [of 0 "to_be 4 src"] b [of src] by simp
  have u2: "unat (sum_words (sum_words 0 (to_be 4 src)) (to_be 4 dst)) = word_sum (to_be 4 src) + word_sum (to_be 4 dst)"
    using unat_sum_words [of "sum_words 0 (to_be 4 src)" "to_be 4 dst"] b [of src] b [of dst] u1 by simp
  have "unat (word_of_nat ?n :: u16) = ?n"
  proof (rule of_nat_inverse [OF refl])
    have "?n < 2 ^ 16" using assms(1) by simp
    then show "?n < 2 ^ LENGTH(16)" by (simp only: len_num0 len_bit0 len_bit1 len_num1) simp
  qed
  then have lm: "unat (ucast (word_of_nat ?n :: u16) :: u32) = ?n"
    using assms(1) by (simp add: unsigned_ucast_eq take_bit_nat_eq_self del: of_nat_add)
  have "word_sum (to_be 4 src) + word_sum (to_be 4 dst) + 6 + ?n < 2 ^ 32"
    using b [of src] b [of dst] assms(1) by simp
  with u2 lm have s: "unat s = pseudo_v4 src dst ?n"
    unfolding s_def pseudo_v4_def v4_octets_def
    by (simp only: unat_word_ariths) (simp add: mod_simps del: of_nat_add)
  have "pseudo_v4 src dst ?n \<le> 1000000"
    using b [of src] b [of dst] assms(1) by (simp add: pseudo_v4_def v4_octets_def)
  then have fits: "unat s + word_sum ?m < 2 ^ 32"
    using word_sum_fits [of ?m "unat s"] s assms(1) by simp
  have "tcp_checksum_ipv4 src dst ?m (word_of_nat ?n) = finish_sum (sum_words s ?m)"
    unfolding tcp_checksum_ipv4_def s_def ..
  with checksum_verifies [OF fits assms(2)] s show ?thesis by (simp only:)
qed

subsection \<open>Requests\<close>

lemma parse_echo_shape:
  assumes "parse_echo_request d = found req"
  shows "(\<exists>a b. ie_target req = V4 a \<and> ie_source req = V4 b \<and> length (ie_payload req) + 8 \<le> length d) \<or>
    (\<exists>a b. ie_target req = V6 a \<and> ie_source req = V6 b \<and> length (ie_payload req) + 48 \<le> length d)"
proof -
  have at: "ie_target req = t \<and> ie_source req = s \<and> length (ie_payload req) + 8 + off \<le> length d"
    if "echo_at y d off s t ttl = found req" "off + 8 \<le> length d" for y off s t ttl
    using that by (auto simp: echo_at_def split: if_splits)
  from assms have "20 \<le> length d" by (auto simp: parse_echo_request_def split: if_splits)
  note b0 = byte_at_0_le [OF this]
  have "parse_ipv4_echo d = found req \<or> parse_ipv6_echo d = found req"
    using assms b0 by (auto simp: parse_echo_request_def Let_def split: if_splits)
  then show ?thesis
  proof
    assume "parse_ipv4_echo d = found req"
    with \<open>20 \<le> length d\<close> b0 show ?thesis
      by (auto simp: parse_ipv4_echo_def Let_def dest!: at split: if_splits)
  next
    assume "parse_ipv6_echo d = found req"
    then show ?thesis
      by (auto simp: parse_ipv6_echo_def dest!: at split: if_splits)
  qed
qed

text \<open>What a receiver of an echo reply checks: the header checksum of version 4, and the checksum of the message.\<close>

definition echo_verifies :: "parsed_packet \<Rightarrow> byte list \<Rightarrow> bool" where
  "echo_verifies p d =
     (case (pk_src_ip p, pk_dst_ip p) of
        (V4 _, V4 _) \<Rightarrow> verifies (word_sum (take 20 d)) \<and> verifies (word_sum (drop 20 d))
      | (V6 a, V6 b) \<Rightarrow> verifies (pseudo_v6 a b (length d - 40) + word_sum (drop 40 d))
      | _ \<Rightarrow> False)"

lemma unat_len16: "n < 65536 \<Longrightarrow> unat (word_of_nat n :: u16) = n"
  by (rule of_nat_inverse [OF refl]) simp

lemma echo_reply_v4:
  assumes "ie_target req = V4 src" and "ie_source req = V4 dst" and "length (ie_payload req) \<le> 64000"
  shows "\<exists>reply p c. build_echo_reply req = Some reply \<and> parse_ip_packet reply = Some (Inr p) \<and>
    pk_protocol p = ProtoIcmp \<and> pk_src_ip p = ie_target req \<and> pk_dst_ip p = ie_source req \<and> pk_total_len p = length reply \<and>
    drop (pk_payload_offset p) reply = [0, 0] @ to_be 2 (c :: u16) @ to_be 2 (ie_id req) @ to_be 2 (ie_sequence req) @ ie_payload req \<and>
    echo_verifies p reply \<and> pk_version p = 4"
proof -
  define tlen where "tlen = (word_of_nat (28 + length (ie_payload req)) :: u16)"
  define tail where "tail = to_be 2 (ie_id req) @ to_be 2 (ie_sequence req) @ ie_payload req"
  let ?a = "[0x45, 0] @ to_be 2 tlen @ [0, 0, 0x40, 0, 64, 1]" and ?b = "v4_octets src @ v4_octets dst"
  let ?hc = "checksum (?a @ [0, 0] @ ?b)" and ?ic = "checksum ([0, 0] @ [0, 0] @ tail)"
  let ?h = "?a @ to_be 2 ?hc @ ?b" and ?i = "[0, 0] @ to_be 2 ?ic @ tail"
  have len: "length (v4_octets x) = 4" for x by (simp add: v4_octets_def)
  have l: "length ?h = 20" by (simp add: len)
  have built: "build_echo_reply req = Some (?h @ ?i)"
    using build_ipv4_reply_eq [OF assms(1,2)] assms(1) by (simp add: build_echo_reply_def tlen_def tail_def)
  have parsed: "parse_ip_packet (?h @ ?i) = Some (Inr \<lparr>pk_version = 4, pk_protocol = ProtoIcmp, pk_src_ip = V4 src, pk_dst_ip = V4 dst,
      pk_src_port = 0, pk_dst_port = 0, pk_payload_offset = 20, pk_total_len = 28 + length (ie_payload req)\<rparr>)"
    using parse_built_v4 [of "[0, 0, 0x40, 0]" "to_be 2 ?hc" tlen 64 1 src dst ?i] assms(3) unat_len16 [of "28 + length (ie_payload req)"]
    by (simp add: from_number_def transport_port_def tlen_def)
  have v: "verifies (word_sum ?h)" by (rule header_verifies(2)) (simp_all add: len)
  have "verifies (word_sum ?i)" by (rule icmp_verifies) (use assms(3) in \<open>simp add: tail_def\<close>)
  moreover have "take 20 (?h @ ?i) = ?h" "drop 20 (?h @ ?i) = ?i" using l by (simp_all only: take_append drop_append) simp_all
  ultimately show ?thesis
    using built parsed v l assms(1,2)
    by (intro exI [of _ "?h @ ?i"] exI [of _ "\<lparr>pk_version = 4, pk_protocol = ProtoIcmp, pk_src_ip = V4 src, pk_dst_ip = V4 dst,
      pk_src_port = 0, pk_dst_port = 0, pk_payload_offset = 20, pk_total_len = 28 + length (ie_payload req)\<rparr>"] exI [of _ ?ic])
       (simp add: echo_verifies_def tail_def len)
qed

lemma echo_reply_v6:
  assumes "ie_target req = V6 src" and "ie_source req = V6 dst" and "length (ie_payload req) \<le> 64000"
  shows "\<exists>reply p c. build_echo_reply req = Some reply \<and> parse_ip_packet reply = Some (Inr p) \<and>
    pk_protocol p = ProtoIcmp \<and> pk_src_ip p = ie_target req \<and> pk_dst_ip p = ie_source req \<and> pk_total_len p = length reply \<and>
    drop (pk_payload_offset p) reply = [129, 0] @ to_be 2 (c :: u16) @ to_be 2 (ie_id req) @ to_be 2 (ie_sequence req) @ ie_payload req \<and>
    echo_verifies p reply \<and> pk_version p = 6"
proof -
  define ilen where "ilen = (word_of_nat (8 + length (ie_payload req)) :: u16)"
  define tail where "tail = to_be 2 (ie_id req) @ to_be 2 (ie_sequence req) @ ie_payload req"
  let ?h = "[0x60, 0, 0, 0] @ to_be 2 ilen @ [58, 64] @ v6_octets src @ v6_octets dst"
  let ?ic = "icmpv6_checksum src dst ([129, 0] @ [0, 0] @ tail)"
  let ?i = "[129, 0] @ to_be 2 ?ic @ tail"
  have len: "length (v6_octets x) = 16" for x by (simp add: v6_octets_def)
  have l: "length ?h = 40" by (simp add: len)
  have built: "build_echo_reply req = Some (?h @ ?i)"
    using build_ipv6_reply_eq [OF assms(1,2)] assms(1) by (simp add: build_echo_reply_def ilen_def tail_def)
  have parsed: "parse_ip_packet (?h @ ?i) = Some (Inr \<lparr>pk_version = 6, pk_protocol = ProtoIcmp, pk_src_ip = V6 src, pk_dst_ip = V6 dst,
      pk_src_port = 0, pk_dst_port = 0, pk_payload_offset = 40, pk_total_len = 48 + length (ie_payload req)\<rparr>)"
    using parse_built_v6 [of ilen 58 64 src dst ?i] assms(3) unat_len16 [of "8 + length (ie_payload req)"]
    by (simp add: from_number_def transport_port_def ilen_def)
  have "length tail + 4 = length ?i" by (simp add: tail_def)
  moreover have "verifies (pseudo_v6 src dst (length tail + 4) + word_sum ?i)"
    by (rule icmpv6_verifies) (use assms(3) in \<open>simp add: tail_def\<close>)
  ultimately have v: "verifies (pseudo_v6 src dst (length ?i) + word_sum ?i)" by (simp only:)
  let ?p = "\<lparr>pk_version = 6, pk_protocol = ProtoIcmp, pk_src_ip = V6 src, pk_dst_ip = V6 dst,
      pk_src_port = 0, pk_dst_port = 0, pk_payload_offset = 40, pk_total_len = 48 + length (ie_payload req)\<rparr>"
  have "drop 40 (?h @ ?i) = ?i" "length (?h @ ?i) - 40 = length ?i" using l by (simp_all only: drop_append length_append) simp_all
  then have "echo_verifies ?p (?h @ ?i)"
    unfolding echo_verifies_def by (simp only: parsed_packet.select_convs prod.case ip_addr.case v)
  then show ?thesis
    using built parsed l assms(1,2) by (intro exI [of _ "?h @ ?i"] exI [of _ ?p] exI [of _ ?ic]) (simp add: tail_def len)
qed

subsection \<open>Queries\<close>

text \<open>A query as a client writes it: one question, whatever comes after it.\<close>

definition label_bytes :: "string \<Rightarrow> byte list" where
  "label_bytes l = word_of_nat (length l) # as_bytes l"

definition label_ok :: "string \<Rightarrow> bool" where
  "label_ok l \<longleftrightarrow> 0 < length l \<and> length l < 64 \<and> valid_utf8 (as_bytes l)"

definition question_bytes :: "string list \<Rightarrow> u16 \<Rightarrow> byte list" where
  "question_bytes labels qtype = concat (map label_bytes labels) @ [0] @ to_be 2 qtype @ to_be 2 (1 :: u16)"

definition query_bytes :: "u16 \<Rightarrow> u16 \<Rightarrow> byte list \<Rightarrow> string list \<Rightarrow> u16 \<Rightarrow> byte list \<Rightarrow> byte list" where
  "query_bytes i flags counts labels qtype rest =
     to_be 2 i @ to_be 2 flags @ to_be 2 (1 :: u16) @ counts @ question_bytes labels qtype @ rest"

lemma label_length_bits:
  assumes "n < 64"
  shows "(word_of_nat n :: byte) AND 0xC0 \<noteq> 0xC0"
proof -
  have "unat (word_of_nat n :: byte) = n" using assms by (intro of_nat_inverse [OF refl]) simp
  then have "\<not> bit (unat (word_of_nat n :: byte)) 7" using assms by (simp add: bit_iff_odd)
  then have "\<not> bit (word_of_nat n :: byte) 7" by (simp add: bit_unsigned_iff)
  moreover have "bit (0xC0 :: byte) 7" by code_simp
  ultimately show ?thesis by (metis bit_and_iff)
qed

lemma read_labels_encoded:
  assumes "list_all label_ok labels" and "length pre = pos"
  shows "read_labels (pre @ concat (map label_bytes labels) @ [0] @ post) pos parts =
    found (parts @ labels, pos + length (concat (map label_bytes labels)) + 1)"
  using assms
proof (induction labels arbitrary: pre pos parts)
  case Nil
  then show ?case by (subst read_labels.simps) (simp add: byte_at_def nth_append)
next
  case (Cons l ls)
  let ?d = "pre @ concat (map label_bytes (l # ls)) @ [0] @ post" and ?n = "word_of_nat (length l) :: byte"
  from Cons.prems have l: "0 < length l" "length l < 64" "valid_utf8 (as_bytes l)" "list_all label_ok ls" by (simp_all add: label_ok_def [of l])
  have n: "unat ?n = length l" using l(2) by (intro of_nat_inverse [OF refl]) simp
  have d: "?d = (pre @ label_bytes l) @ concat (map label_bytes ls) @ [0] @ post" by simp
  have b: "byte_at ?d pos = Some ?n" using Cons.prems(2) by (simp add: byte_at_def label_bytes_def nth_append)
  have s: "slice_at ?d (pos + 1) (pos + 1 + unat ?n) = Some (as_bytes l)"
    using Cons.prems(2) n by (simp add: slice_at_def label_bytes_def)
  have "read_labels ?d (pos + 1 + unat ?n) (parts @ [l]) =
      found ((parts @ [l]) @ ls, pos + 1 + unat ?n + length (concat (map label_bytes ls)) + 1)"
    unfolding d by (rule Cons.IH) (use l Cons.prems(2) n in \<open>simp_all add: label_bytes_def\<close>)
  moreover have "\<not> length ?d \<le> pos" "\<not> pos + 1 + unat ?n > length ?d" using Cons.prems(2) n by (simp_all add: label_bytes_def)
  ultimately show ?case
    using b s n l label_length_bits [OF l(2)] from_utf8_as_bytes [OF l(3)]
    by (subst read_labels.simps) (simp add: label_bytes_def add.assoc)
qed

lemma parse_dns_query_encoded:
  assumes "list_all label_ok labels" and "labels \<noteq> []" and "flags AND 0x8000 = 0" and "length counts = 6"
  shows "parse_dns_query (query_bytes i flags counts labels qtype rest) =
    found \<lparr>dq_id = i, dq_name = join_with ''.'' labels, dq_qtype = qtype, dq_raw_question = question_bytes labels qtype\<rparr>"
proof -
  let ?q = "query_bytes i flags counts labels qtype rest"
  define hd where "hd = to_be 2 i @ to_be 2 flags @ to_be 2 (1 :: u16) @ counts"
  define ls where "ls = concat (map label_bytes labels)"
  have h: "length hd = 12" using assms(4) by (simp add: hd_def)
  have q: "?q = hd @ ls @ [0] @ (to_be 2 qtype @ to_be 2 (1 :: u16) @ rest)"
    by (simp add: query_bytes_def question_bytes_def hd_def ls_def)
  have "take 2 hd = to_be 2 i" "take 2 (drop 2 hd) = to_be 2 flags" "take 2 (drop 4 hd) = to_be 2 (1 :: u16)"
    by (simp_all add: hd_def)
  then have f: "be16_at ?q 0 = Some i" "be16_at ?q 2 = Some flags" "be16_at ?q 4 = Some 1"
    unfolding q using h by (simp_all add: from_be_to_be)
  have r: "read_labels ?q 12 [] = found (labels, 12 + length ls + 1)"
    using read_labels_encoded [OF assms(1) h, of "to_be 2 qtype @ to_be 2 (1 :: u16) @ rest" "[]"] by (simp add: q ls_def)
  have t: "be16_at ?q (13 + length ls) = Some qtype" "slice_at ?q 12 (17 + length ls) = Some (question_bytes labels qtype)"
    unfolding q using h by (simp_all add: from_be_to_be question_bytes_def ls_def [symmetric])
  have "\<not> length ?q < 12" "\<not> 17 + length ls > length ?q" unfolding q using h by simp_all
  with f r t assms(2,3) show ?thesis by (simp add: parse_dns_query_def)
qed

text \<open>How a client reads a response: identifier, flags, the question of known length and the answers.\<close>

fun read_answers :: "nat \<Rightarrow> byte list \<Rightarrow> ip_addr list" where
  "read_answers 0 d = []"
| "read_answers (Suc n) d =
     (let t = from_be (take 2 (drop 2 d)) :: u16; len = unat (from_be (take 2 (drop 10 d)) :: u16); rd = take len (drop 12 d)
      in (if t = 1 then V4 (from_be rd) else V6 (from_be rd)) # read_answers n (drop (12 + len) d))"

definition decode_response :: "nat \<Rightarrow> byte list \<Rightarrow> u16 \<times> u16 \<times> byte list \<times> ip_addr list" where
  "decode_response qlen d = (from_be (take 2 d), from_be (take 2 (drop 2 d)), take qlen (drop 12 d),
     read_answers (unat (from_be (take 2 (drop 6 d)) :: u16)) (drop (12 + qlen) d))"

lemma read_answer_records: "read_answers (length as) (concat (map answer_record as) @ r) = as"
proof (induction as)
  case (Cons a as)
  have lens: "unat (4 :: u16) = 4" "unat (16 :: u16) = 16" by simp_all
  from Cons.IH show ?case by (cases a) (simp_all add: v4_octets_def v6_octets_def from_be_to_be lens)
qed simp

lemma decode_built_response:
  assumes "length (filter (qtype_matches (dq_qtype q)) addrs) < 65536"
  shows "decode_response (length (dq_raw_question q)) (build_dns_response q addrs) =
    (dq_id q, 0x8180, dq_raw_question q, filter (qtype_matches (dq_qtype q)) addrs)"
  using unat_len16 [OF assms] read_answer_records [of "filter (qtype_matches (dq_qtype q)) addrs" "[]"]
  by (simp add: decode_response_def build_dns_response_def Let_def from_be_to_be)

lemma answer_record_length: "length (answer_record a) \<le> 28"
  by (cases a) (simp_all add: v4_octets_def v6_octets_def)

lemma response_length:
  "length (build_dns_response q addrs) \<le> 12 + length (dq_raw_question q) + 28 * length (filter (qtype_matches (dq_qtype q)) addrs)"
proof -
  have "length (concat (map answer_record as)) \<le> 28 * length as" for as
    by (induction as) (use answer_record_length add_mono in \<open>simp_all add: add_mono\<close>)
  then show ?thesis by (simp add: build_dns_response_def Let_def)
qed

text \<open>The families of the addresses of a parsed packet agree.\<close>

lemma parse_ip_packet_family:
  assumes "parse_ip_packet d = Some (Inr p)"
  shows "(\<exists>a b. pk_src_ip p = V4 a \<and> pk_dst_ip p = V4 b) \<or> (\<exists>a b. pk_src_ip p = V6 a \<and> pk_dst_ip p = V6 b)"
proof -
  have "parse_ipv4_packet d = Some (Inr p) \<or> parse_ipv6_packet d = Some (Inr p)"
    using assms by (cases "byte_at d 0") (auto simp: parse_ip_packet_def Let_def split: if_splits)
  then show ?thesis
  proof
    assume "parse_ipv4_packet d = Some (Inr p)"
    then show ?thesis by (auto simp: parse_ipv4_packet_def Let_def bind_eq_Some_conv split: if_splits)
  next
    assume "parse_ipv6_packet d = Some (Inr p)"
    then show ?thesis by (auto simp: parse_ipv6_packet_def Let_def bind_eq_Some_conv split: if_splits)
  qed
qed

text \<open>A UDP packet that is built carries its payload from the source to the destination.\<close>

definition carries :: "byte list \<Rightarrow> ip_addr \<Rightarrow> u16 \<Rightarrow> ip_addr \<Rightarrow> u16 \<Rightarrow> byte list \<Rightarrow> bool" where
  "carries d src sp dst dp payload \<longleftrightarrow>
     (\<exists>p. parse_ip_packet d = Some (Inr p) \<and> pk_protocol p = ProtoUdp \<and> pk_src_ip p = src \<and> pk_src_port p = sp \<and>
        pk_dst_ip p = dst \<and> pk_dst_port p = dp \<and> pk_total_len p = length d \<and> drop (pk_payload_offset p + 8) d = payload \<and>
        (\<forall>a. src = V4 a \<longrightarrow> verifies (word_sum (take 20 d))))"

lemma transport_ports_udp [simp]:
  "transport_port 17 0 (to_be 2 sp @ to_be 2 dp @ r) = sp" "transport_port 17 2 (to_be 2 sp @ to_be 2 dp @ r) = dp"
  by (simp_all add: transport_port_def from_number_def from_be_to_be)

lemma udp_packet_carries_v4:
  assumes "length payload \<le> 65000"
  shows "\<exists>d. build_ipv4_udp_packet src dst sp dp payload = Some d \<and> carries d (V4 src) sp (V4 dst) dp payload"
proof -
  let ?tl = "word_of_nat (28 + length payload) :: u16" and ?ul = "word_of_nat (8 + length payload) :: u16"
  let ?a = "[0x45, 0] @ to_be 2 ?tl @ [0, 0, 0x40, 0, 64, 17]" and ?b = "v4_octets src @ v4_octets dst"
  let ?c = "ipv4_checksum (?a @ [0, 0] @ ?b)"
  let ?h = "?a @ to_be 2 ?c @ ?b" and ?u = "to_be 2 sp @ to_be 2 dp @ to_be 2 ?ul @ [0, 0] @ payload"
  have len: "length (v4_octets x) = 4" for x by (simp add: v4_octets_def)
  have built: "build_ipv4_udp_packet src dst sp dp payload = Some (?h @ ?u)"
    using build_ipv4_udp_packet_eq by simp
  have parsed: "parse_ip_packet (?h @ ?u) = Some (Inr \<lparr>pk_version = 4, pk_protocol = ProtoUdp, pk_src_ip = V4 src, pk_dst_ip = V4 dst,
      pk_src_port = sp, pk_dst_port = dp, pk_payload_offset = 20, pk_total_len = 28 + length payload\<rparr>)"
    using parse_built_v4 [of "[0, 0, 0x40, 0]" "to_be 2 ?c" ?tl 64 17 src dst ?u] unat_len16 [of "28 + length payload"] assms
    by (simp add: from_number_def)
  have v: "verifies (word_sum ?h)" by (rule header_verifies(1)) (simp_all add: len)
  have l: "length ?h = 20" by (simp add: len)
  then have "take 20 (?h @ ?u) = ?h" by (simp only: take_append) simp
  with v have v': "verifies (word_sum (take 20 (?h @ ?u)))" by (simp only:)
  have "drop 28 (?h @ ?u) = payload" "length (?h @ ?u) = 28 + length payload" by (simp_all add: len)
  with parsed v' have "carries (?h @ ?u) (V4 src) sp (V4 dst) dp payload"
    unfolding carries_def by (intro exI, intro conjI) (assumption, simp_all only: parsed_packet.select_convs, simp_all)
  with built show ?thesis by blast
qed

lemma udp_packet_carries_v6:
  assumes "length payload \<le> 65000"
  shows "\<exists>d. build_ipv6_udp_packet src dst sp dp payload = Some d \<and> carries d (V6 src) sp (V6 dst) dp payload"
proof -
  let ?ul = "word_of_nat (8 + length payload) :: u16"
  let ?h = "[0x60, 0, 0, 0] @ to_be 2 ?ul @ [17, 64] @ v6_octets src @ v6_octets dst"
  let ?u = "to_be 2 sp @ to_be 2 dp @ to_be 2 ?ul @ [0, 0] @ payload"
  have len: "length (v6_octets x) = 16" for x by (simp add: v6_octets_def)
  have built: "build_ipv6_udp_packet src dst sp dp payload = Some (?h @ ?u)"
    using build_ipv6_udp_packet_eq by simp
  have parsed: "parse_ip_packet (?h @ ?u) = Some (Inr \<lparr>pk_version = 6, pk_protocol = ProtoUdp, pk_src_ip = V6 src, pk_dst_ip = V6 dst,
      pk_src_port = sp, pk_dst_port = dp, pk_payload_offset = 40, pk_total_len = 48 + length payload\<rparr>)"
    using parse_built_v6 [of ?ul 17 64 src dst ?u] unat_len16 [of "8 + length payload"] assms
    by (simp add: from_number_def)
  have "drop 48 (?h @ ?u) = payload" "length (?h @ ?u) = 48 + length payload" by (simp_all add: len)
  with parsed have "carries (?h @ ?u) (V6 src) sp (V6 dst) dp payload"
    unfolding carries_def by (intro exI, intro conjI) (assumption, simp_all only: parsed_packet.select_convs, simp_all)
  with built show ?thesis by blast
qed

lemma udp_reply_carries:
  assumes "sock_ip src = V4 s" and "sock_ip dst = V4 d" and "length payload \<le> 65507"
  shows "\<exists>pkt. build_udp_reply_packet src dst payload = Some (Inr pkt) \<and> carries pkt (V4 s) (sock_port src) (V4 d) (sock_port dst) payload"
proof -
  let ?tl = "word_of_nat (28 + length payload) :: u16" and ?ul = "word_of_nat (8 + length payload) :: u16"
  let ?a = "[0x45, 0] @ to_be 2 ?tl @ [0, 0, 0, 0, 64, 17]" and ?b = "v4_octets s @ v4_octets d"
  let ?c = "ipv4_header_checksum (?a @ [0, 0] @ ?b)"
  let ?h = "?a @ to_be 2 ?c @ ?b" and ?u = "to_be 2 (sock_port src) @ to_be 2 (sock_port dst) @ to_be 2 ?ul @ [0, 0] @ payload"
  have len: "length (v4_octets x) = 4" for x by (simp add: v4_octets_def)
  have built: "build_udp_reply_packet src dst payload = Some (Inr (?h @ ?u))"
    using build_udp_reply_eq [OF assms(1,2)] assms(3) by simp
  have parsed: "parse_ip_packet (?h @ ?u) = Some (Inr \<lparr>pk_version = 4, pk_protocol = ProtoUdp, pk_src_ip = V4 s, pk_dst_ip = V4 d,
      pk_src_port = sock_port src, pk_dst_port = sock_port dst, pk_payload_offset = 20, pk_total_len = 28 + length payload\<rparr>)"
    using parse_built_v4 [of "[0, 0, 0, 0]" "to_be 2 ?c" ?tl 64 17 s d ?u] unat_len16 [of "28 + length payload"] assms(3)
    by (simp add: from_number_def)
  have v: "verifies (word_sum ?h)" by (rule header_verifies(3)) (simp_all add: len)
  have l: "length ?h = 20" by (simp add: len)
  then have "take 20 (?h @ ?u) = ?h" by (simp only: take_append) simp
  with v have v': "verifies (word_sum (take 20 (?h @ ?u)))" by (simp only:)
  have "drop 28 (?h @ ?u) = payload" "length (?h @ ?u) = 28 + length payload" by (simp_all add: len)
  with parsed v' have "carries (?h @ ?u) (V4 s) (sock_port src) (V4 d) (sock_port dst) payload"
    unfolding carries_def by (intro exI, intro conjI) (assumption, simp_all only: parsed_packet.select_convs, simp_all)
  with built show ?thesis by blast
qed

text \<open>A TCP segment with its header: sequence numbers, flags and payload are where a receiver looks for them, and
  both checksums verify.\<close>

definition tcp_segment :: "byte list \<Rightarrow> socket_addr \<Rightarrow> socket_addr \<Rightarrow> u32 \<Rightarrow> u32 \<Rightarrow> byte \<Rightarrow> byte list \<Rightarrow> bool" where
  "tcp_segment d src dst sq ack flags payload \<longleftrightarrow>
     (\<exists>p a b. parse_ip_packet d = Some (Inr p) \<and> pk_protocol p = ProtoTcp \<and> sock_ip src = V4 a \<and> sock_ip dst = V4 b \<and>
        pk_src_ip p = V4 a \<and> pk_src_port p = sock_port src \<and> pk_dst_ip p = V4 b \<and> pk_dst_port p = sock_port dst \<and>
        pk_total_len p = length d \<and> pk_payload_offset p = 20 \<and> be32_at d 24 = Some sq \<and> be32_at d 28 = Some ack \<and>
        byte_at d 32 = Some 0x50 \<and> byte_at d 33 = Some flags \<and> drop 40 d = payload \<and>
        verifies (word_sum (take 20 d)) \<and> verifies (pseudo_v4 a b (length d - 20) + word_sum (drop 20 d)))"

lemma build_tcp_segment:
  assumes "sock_ip src = V4 s" and "sock_ip dst = V4 d" and "length payload \<le> 64000"
  shows "\<exists>pkt. build_tcp_packet_ipv4 src dst sq ack flags payload = Some (Inr pkt) \<and> tcp_segment pkt src dst sq ack flags payload"
proof -
  let ?tl = "word_of_nat (40 + length payload) :: u16" and ?sl = "word_of_nat (20 + length payload) :: u16"
  let ?a = "[0x45, 0] @ to_be 2 ?tl @ [0, 0, 0, 0, 64, 6]" and ?b = "v4_octets s @ v4_octets d"
  let ?c = "ipv4_header_checksum (?a @ [0, 0] @ ?b)"
  let ?g = "to_be 2 (sock_port src) @ to_be 2 (sock_port dst) @ to_be 4 sq @ to_be 4 ack @ [0x50, flags, 255, 255]"
  let ?r = "[0, 0] @ payload"
  let ?tc = "tcp_checksum_ipv4 s d (?g @ [0, 0] @ ?r) ?sl"
  let ?h = "?a @ to_be 2 ?c @ ?b" and ?u = "?g @ to_be 2 ?tc @ ?r"
  have len: "length (v4_octets x) = 4" for x by (simp add: v4_octets_def)
  have built: "build_tcp_packet_ipv4 src dst sq ack flags payload = Some (Inr (?h @ ?u))"
    using build_tcp_eq [OF assms(1,2)] assms(3) by simp
  have parsed: "parse_ip_packet (?h @ ?u) = Some (Inr \<lparr>pk_version = 4, pk_protocol = ProtoTcp, pk_src_ip = V4 s, pk_dst_ip = V4 d,
      pk_src_port = sock_port src, pk_dst_port = sock_port dst, pk_payload_offset = 20, pk_total_len = 40 + length payload\<rparr>)"
    using parse_built_v4 [of "[0, 0, 0, 0]" "to_be 2 ?c" ?tl 64 6 s d ?u] unat_len16 [of "40 + length payload"] assms(3)
    by (simp add: from_number_def transport_port_def from_be_to_be)
  have v: "verifies (word_sum ?h)" by (rule header_verifies(3)) (simp_all add: len)
  have g: "length ?g + 2 + length ?r = 20 + length payload" by simp
  have vt: "verifies (pseudo_v4 s d (20 + length payload) + word_sum ?u)"
    by (rule tcp_verifies [of ?g ?r s d, unfolded g]) (use assms(3) in simp_all)
  have l: "length ?h = 20" by (simp add: len)
  then have td: "take 20 (?h @ ?u) = ?h" "drop 20 (?h @ ?u) = ?u" by (simp_all only: take_append drop_append) simp_all
  have n: "length (?h @ ?u) - 20 = 20 + length payload" by (simp add: len)
  have f: "be32_at (?h @ ?u) 24 = Some sq" "be32_at (?h @ ?u) 28 = Some ack" "byte_at (?h @ ?u) 32 = Some 0x50"
    "byte_at (?h @ ?u) 33 = Some flags" "drop 40 (?h @ ?u) = payload" "length (?h @ ?u) = 40 + length payload"
    by (simp_all add: len from_be_to_be nth_append)
  define pkt where "pkt = ?h @ ?u"
  have v': "verifies (word_sum (take 20 pkt))" unfolding pkt_def td(1) by (rule v)
  have vt': "verifies (pseudo_v4 s d (length pkt - 20) + word_sum (drop 20 pkt))" unfolding pkt_def n td(2) by (rule vt)
  have f': "be32_at pkt 24 = Some sq" "be32_at pkt 28 = Some ack" "byte_at pkt 32 = Some 0x50"
    "byte_at pkt 33 = Some flags" "drop 40 pkt = payload" "length pkt = 40 + length payload"
    unfolding pkt_def by (rule f)+
  have parsed': "parse_ip_packet pkt = Some (Inr \<lparr>pk_version = 4, pk_protocol = ProtoTcp, pk_src_ip = V4 s, pk_dst_ip = V4 d,
      pk_src_port = sock_port src, pk_dst_port = sock_port dst, pk_payload_offset = 20, pk_total_len = 40 + length payload\<rparr>)"
    unfolding pkt_def by (rule parsed)
  have "tcp_segment pkt src dst sq ack flags payload"
    unfolding tcp_segment_def using parsed' f' v' vt' assms(1,2) by simp
  with built show ?thesis unfolding pkt_def by blast
qed

subsection \<open>The two parsers\<close>

definition ihl_of :: "byte list \<Rightarrow> nat" where
  "ihl_of d = unat (d ! 0 AND 0x0F) * 4"

lemma parse_ipv4_iff:
  "parse_ipv4_packet d = Some (Inr p) \<longleftrightarrow>
     20 \<le> length d \<and> 20 \<le> ihl_of d \<and> ihl_of d \<le> length d \<and>
     (\<exists>sp dp. ports_at (from_number (d ! 9)) d (ihl_of d) = Some (sp, dp) \<and>
        p = \<lparr>pk_version = 4, pk_protocol = from_number (d ! 9), pk_src_ip = V4 (from_be (take 4 (drop 12 d))),
          pk_dst_ip = V4 (from_be (take 4 (drop 16 d))), pk_src_port = sp, pk_dst_port = dp, pk_payload_offset = ihl_of d,
          pk_total_len = unat (from_be (take 2 (drop 2 d)) :: u16)\<rparr>)"
proof (cases "20 \<le> length d")
  case True
  obtain sp dp where "ports_at (from_number (d ! 9)) d (unat (d ! 0 AND 15) * 4) = Some (sp, dp)"
    using ports_at_total by fastforce
  with True byte_at_0_le [OF True] show ?thesis by (auto simp: parse_ipv4_packet_def Let_def ihl_of_def)
qed (simp add: parse_ipv4_packet_def)

lemma parse_ipv6_iff:
  "parse_ipv6_packet d = Some (Inr p) \<longleftrightarrow>
     40 \<le> length d \<and>
     (\<exists>sp dp. ports_at (from_number (d ! 6)) d 40 = Some (sp, dp) \<and>
        p = \<lparr>pk_version = 6, pk_protocol = from_number (d ! 6), pk_src_ip = V6 (from_be (take 16 (drop 8 d))),
          pk_dst_ip = V6 (from_be (take 16 (drop 24 d))), pk_src_port = sp, pk_dst_port = dp, pk_payload_offset = 40,
          pk_total_len = 40 + unat (from_be (take 2 (drop 4 d)) :: u16)\<rparr>)"
proof (cases "40 \<le> length d")
  case True
  obtain sp dp where "ports_at (from_number (d ! 6)) d 40 = Some (sp, dp)"
    using ports_at_total by fastforce
  with True show ?thesis by (auto simp: parse_ipv6_packet_def Let_def)
qed (simp add: parse_ipv6_packet_def)

text \<open>The ports, where a session is made of them.\<close>

lemma session_ports:
  assumes "off + 4 \<le> length d" and "tun_network n = Inr t"
  shows "ports_at (from_number n) d off = Some (from_be (take 2 (drop off d)), from_be (take 2 (drop (off + 2) d)))"
  using assms by (auto simp: ports_at_def tun_network_def from_number_def add.assoc split: if_splits)

fun network_of :: "ip_protocol \<Rightarrow> network option" where
  "network_of ProtoTcp = Some Tcp"
| "network_of ProtoUdp = Some Udp"
| "network_of _ = None"

lemma network_of_number: "network_of (from_number n) = (case tun_network n of Inr t \<Rightarrow> Some t | Inl _ \<Rightarrow> None)"
  by (simp add: tun_network_def from_number_def)

lemma session_from_ipv4_iff:
  "session_from_ipv4 tag d = Some (Inr s) \<longleftrightarrow>
     20 \<le> length d \<and> 20 \<le> ihl_of d \<and> ihl_of d + 4 \<le> length d \<and>
     (\<exists>n. tun_network (d ! 9) = Inr n \<and> s = tun_session tag (V4 (from_be (take 4 (drop 12 d)))) (from_be (take 2 (drop (ihl_of d) d)))
        (V4 (from_be (take 4 (drop 16 d)))) (from_be (take 2 (drop (ihl_of d + 2) d))) n)"
proof (cases "20 \<le> length d")
  case True
  with byte_at_0_le [OF True] show ?thesis
    by (auto simp: session_from_ipv4_def Let_def ihl_of_def add.assoc split: sum.splits)
qed (simp add: session_from_ipv4_def)

lemma session_from_ipv6_iff:
  "session_from_ipv6 tag d = Some (Inr s) \<longleftrightarrow>
     44 \<le> length d \<and>
     (\<exists>n. tun_network (d ! 6) = Inr n \<and> s = tun_session tag (V6 (from_be (take 16 (drop 8 d)))) (from_be (take 2 (drop 40 d)))
        (V6 (from_be (take 16 (drop 24 d)))) (from_be (take 2 (drop 42 d))) n)"
proof (cases "44 \<le> length d")
  case True
  then show ?thesis by (auto simp: session_from_ipv6_def split: sum.splits)
qed (simp add: session_from_ipv6_def)

lemma session_v4_agrees:
  "session_from_ipv4 tag d = Some (Inr s) \<longleftrightarrow>
     (\<exists>p. parse_ipv4_packet d = Some (Inr p) \<and> pk_payload_offset p + 4 \<le> length d \<and>
        (\<exists>n. network_of (pk_protocol p) = Some n \<and>
           s = tun_session tag (pk_src_ip p) (pk_src_port p) (pk_dst_ip p) (pk_dst_port p) n))"
proof (cases "tun_network (d ! 9)")
  case (Inr t)
  show ?thesis
  proof (cases "ihl_of d + 4 \<le> length d")
    case True
    from session_ports [OF this Inr] True Inr show ?thesis
      unfolding session_from_ipv4_iff parse_ipv4_iff by (auto simp: network_of_number)
  qed (auto simp: session_from_ipv4_iff parse_ipv4_iff)
qed (auto simp: session_from_ipv4_iff parse_ipv4_iff network_of_number)

lemma session_v6_agrees:
  "session_from_ipv6 tag d = Some (Inr s) \<longleftrightarrow>
     (\<exists>p. parse_ipv6_packet d = Some (Inr p) \<and> pk_payload_offset p + 4 \<le> length d \<and>
        (\<exists>n. network_of (pk_protocol p) = Some n \<and>
           s = tun_session tag (pk_src_ip p) (pk_src_port p) (pk_dst_ip p) (pk_dst_port p) n))"
proof (cases "tun_network (d ! 6)")
  case (Inr t)
  show ?thesis
  proof (cases "40 + 4 \<le> length d")
    case True
    from session_ports [OF this Inr] True Inr show ?thesis
      unfolding session_from_ipv6_iff parse_ipv6_iff by (auto simp: network_of_number)
  qed (auto simp: session_from_ipv6_iff parse_ipv6_iff)
qed (auto simp: session_from_ipv6_iff parse_ipv6_iff network_of_number)

subsection \<open>Sample packets\<close>

definition sample_ping :: "byte list" where
  "sample_ping = [0x45, 0, 0, 30, 0, 1, 0, 0, 64, 1, 0, 0, 10, 0, 0, 1, 8, 8, 8, 8, 8, 0, 0, 0, 0, 7, 0, 1, 1, 2]"

definition sample_dns :: "byte list" where
  "sample_dns = [0x45, 0, 0, 0, 0, 1, 0, 0, 64, 17, 0, 0, 10, 0, 0, 1, 8, 8, 8, 8] @ [0x13, 0x88, 0, 53, 0, 0, 0, 0] @
     query_bytes 7 0x0100 [0, 0, 0, 0, 0, 0] [''a'', ''io''] 1 []"

section \<open>Properties\<close>

text \<open>C34. No packet read from the device makes the parsers panic: whatever the bytes, the IP parser, the session
  parser, the echo parsers and the interception of DNS queries return, also for every answer of the resolver.\<close>

theorem packets_never_panic:
  "parse_ip_packet d \<noteq> None \<and> session_from_packet tag d \<noteq> None \<and> is_echo_request d \<noteq> None \<and> parse_echo_request d \<noteq> None \<and>
   parse_icmp_type p d \<noteq> None \<and> parse_dns_query d \<noteq> None \<and> handle_dns_hijack p d res \<noteq> None"
proof -
  have "handle_dns_hijack p d res \<noteq> None"
  proof (cases "length d \<le> pk_payload_offset p + 8")
    case False
    obtain r where "parse_dns_query (drop (pk_payload_offset p + 8) d) = Some r" using parse_dns_query_total by blast
    with False show ?thesis
      using build_ipv4_udp_packet_eq build_ipv6_udp_packet_eq
      by (cases r) (simp_all add: handle_dns_hijack_def Let_def split: ip_addr.split)
  qed (simp add: handle_dns_hijack_def)
  then show ?thesis
    using parse_ip_packet_total [of d] session_from_packet_total [of tag d] is_echo_request_total [of d]
      parse_echo_request_total [of d] parse_icmp_type_total [of p d] parse_dns_query_total [of d] by auto
qed

text \<open>The two parsers of IP packets agree: a session is built from a packet exactly if the packet parses as TCP or
  UDP and is long enough to hold the ports, and its source, target and network are those of the parsed packet.\<close>

theorem tun_session_agrees:
  "session_from_packet tag d = Some (Inr s) \<longleftrightarrow>
     (\<exists>p. parse_ip_packet d = Some (Inr p) \<and> pk_payload_offset p + 4 \<le> length d \<and>
        (\<exists>n. network_of (pk_protocol p) = Some n \<and>
           s = tun_session tag (pk_src_ip p) (pk_src_port p) (pk_dst_ip p) (pk_dst_port p) n))"
  using session_v4_agrees [of tag d s] session_v6_agrees [of tag d s]
  by (cases d) (simp_all add: session_from_packet_def parse_ip_packet_def Let_def)

text \<open>A ping is answered correctly: for every packet that parses as an echo request, the reply is built, it is an
  ICMP packet from the pinged address to the pinging one whose length field is its length, it carries the
  identifier, the sequence number and the payload of the request, and its checksums verify.\<close>

theorem echo_reply_correct:
  assumes "parse_echo_request d = found req" and "length d \<le> 64000"
  shows "\<exists>reply p t c. build_echo_reply req = Some reply \<and> parse_ip_packet reply = Some (Inr p) \<and>
    pk_protocol p = ProtoIcmp \<and> pk_src_ip p = ie_target req \<and> pk_dst_ip p = ie_source req \<and> pk_total_len p = length reply \<and>
    parse_icmp_type p reply = found EchoReply \<and>
    drop (pk_payload_offset p) reply = [t, 0] @ to_be 2 (c :: u16) @ to_be 2 (ie_id req) @ to_be 2 (ie_sequence req) @ ie_payload req \<and>
    echo_verifies p reply"
proof -
  have kind: "parse_icmp_type p reply = found EchoReply"
    if "pk_protocol p = ProtoIcmp" "drop (pk_payload_offset p) reply = [t, 0] @ r" "pk_version p = 4 \<and> t = 0 \<or> pk_version p = 6 \<and> t = 129"
    for p reply t r
  proof -
    from that(2) have "pk_payload_offset p < length reply" by (metis append_Cons drop_all linorder_not_less list.distinct(1))
    moreover have "reply ! pk_payload_offset p = t" using that(2) by (simp add: nth_via_drop)
    ultimately show ?thesis using that(1,3) by (auto simp: parse_icmp_type_def icmp_from_v4_def icmp_from_v6_def)
  qed
  from parse_echo_shape [OF assms(1)] show ?thesis
  proof (elim disjE exE conjE)
    fix a b assume "ie_target req = V4 a" "ie_source req = V4 b" "length (ie_payload req) + 8 \<le> length d"
    with echo_reply_v4 [of req a b] assms(2) kind show ?thesis by fastforce
  next
    fix a b assume "ie_target req = V6 a" "ie_source req = V6 b" "length (ie_payload req) + 48 \<le> length d"
    with echo_reply_v6 [of req a b] assms(2) kind show ?thesis by fastforce
  qed
qed

theorem echo_reply_correct_witness:
  "\<exists>req reply p. parse_echo_request sample_ping = found req \<and> build_echo_reply req = Some reply \<and> parse_ip_packet reply = Some (Inr p) \<and>
     pk_src_ip p = V4 0x08080808 \<and> pk_dst_ip p = V4 0x0A000001 \<and> echo_verifies p reply"
proof -
  have "case parse_echo_request sample_ping of Some (Some req) \<Rightarrow> ie_target req = V4 0x08080808 \<and> ie_source req = V4 0x0A000001 | _ \<Rightarrow> False"
    by code_simp
  then obtain req where req: "parse_echo_request sample_ping = found req" "ie_target req = V4 0x08080808" "ie_source req = V4 0x0A000001"
    by (auto split: option.splits)
  have "length sample_ping \<le> 64000" by (simp add: sample_ping_def)
  from echo_reply_correct [OF req(1) this] req show ?thesis by auto
qed

text \<open>C35. An intercepted DNS query is answered to the client that asked: for a UDP packet that carries a query for a
  name, the packet written back goes from the asked server to the client with the ports swapped, its length field is
  its length and its header checksum verifies, and a client that decodes it finds its identifier, its question and
  exactly the addresses of the asked type the resolver returned for the name.\<close>

theorem dns_hijack_answers_client:
  assumes "parse_ip_packet raw = Some (Inr p)" and "drop (pk_payload_offset p + 8) raw = query_bytes i flags counts labels qtype rest"
    and "list_all label_ok labels" and "labels \<noteq> []" and "flags AND 0x8000 = 0" and "length counts = 6"
    and "res (join_with ''.'' labels) = Inr addrs"
    and "length (question_bytes labels qtype) + 28 * length (filter (qtype_matches qtype) addrs) \<le> 60000"
  shows "\<exists>reply payload. handle_dns_hijack p raw res = found reply \<and>
    carries reply (pk_dst_ip p) (pk_dst_port p) (pk_src_ip p) (pk_src_port p) payload \<and>
    decode_response (length (question_bytes labels qtype)) payload =
      (i, 0x8180, question_bytes labels qtype, filter (qtype_matches qtype) addrs)"
proof -
  let ?q = "\<lparr>dq_id = i, dq_name = join_with ''.'' labels, dq_qtype = qtype, dq_raw_question = question_bytes labels qtype\<rparr>"
  let ?r = "build_dns_response ?q addrs"
  have q: "parse_dns_query (drop (pk_payload_offset p + 8) raw) = found ?q"
    unfolding assms(2) by (rule parse_dns_query_encoded [OF assms(3-6)])
  have long: "\<not> length raw \<le> pk_payload_offset p + 8"
  proof
    assume "length raw \<le> pk_payload_offset p + 8"
    then have "drop (pk_payload_offset p + 8) raw = []" by simp
    with assms(2) show False by (simp add: query_bytes_def question_bytes_def)
  qed
  have len: "length ?r \<le> 65000" using response_length [of ?q addrs] assms(8) by simp
  have dec: "decode_response (length (question_bytes labels qtype)) ?r = (i, 0x8180, question_bytes labels qtype, filter (qtype_matches qtype) addrs)"
    using decode_built_response [of ?q addrs] assms(8) by simp
  from parse_ip_packet_family [OF assms(1)] show ?thesis
  proof (elim disjE exE conjE)
    fix a b assume ab: "pk_src_ip p = V4 a" "pk_dst_ip p = V4 b"
    with udp_packet_carries_v4 [OF len] q long assms(7) dec show ?thesis by (fastforce simp: handle_dns_hijack_def Let_def)
  next
    fix a b assume ab: "pk_src_ip p = V6 a" "pk_dst_ip p = V6 b"
    with udp_packet_carries_v6 [OF len] q long assms(7) dec show ?thesis by (fastforce simp: handle_dns_hijack_def Let_def)
  qed
qed

theorem dns_hijack_answers_client_witness:
  "\<exists>p reply payload. parse_ip_packet sample_dns = Some (Inr p) \<and> handle_dns_hijack p sample_dns (\<lambda>_. Inr [V4 5, V6 6, V4 7]) = found reply \<and>
     carries reply (V4 0x08080808) 53 (V4 0x0A000001) 5000 payload \<and>
     decode_response (length (question_bytes [''a'', ''io''] 1)) payload = (7, 0x8180, question_bytes [''a'', ''io''] 1, [V4 5, V4 7])"
proof -
  let ?res = "\<lambda>_. Inr [V4 5, V6 6, V4 7] :: dns_result"
  have "case parse_ip_packet sample_dns of Some (Inr p) \<Rightarrow> pk_src_ip p = V4 0x0A000001 \<and> pk_dst_ip p = V4 0x08080808 \<and>
      pk_src_port p = 5000 \<and> pk_dst_port p = 53 \<and>
      drop (pk_payload_offset p + 8) sample_dns = query_bytes 7 0x0100 [0, 0, 0, 0, 0, 0] [''a'', ''io''] 1 [] | _ \<Rightarrow> False"
    by code_simp
  then obtain p where p: "parse_ip_packet sample_dns = Some (Inr p)" "pk_src_ip p = V4 0x0A000001" "pk_dst_ip p = V4 0x08080808"
      "pk_src_port p = 5000" "pk_dst_port p = 53"
      "drop (pk_payload_offset p + 8) sample_dns = query_bytes 7 0x0100 [0, 0, 0, 0, 0, 0] [''a'', ''io''] 1 []"
    by (auto split: option.splits sum.splits)
  have l: "list_all label_ok [''a'', ''io'']" "(0x0100 :: u16) AND 0x8000 = 0" by code_simp+
  have b: "length (question_bytes [''a'', ''io''] 1) + 28 * length (filter (qtype_matches 1) [V4 5, V6 6, V4 7]) \<le> 60000"
    by (simp add: question_bytes_def label_bytes_def)
  from dns_hijack_answers_client [OF p(1,6) l(1) _ l(2), of ?res "[V4 5, V6 6, V4 7]"] b p show ?thesis by auto
qed

end
