(* ===== verification/Fragments.thy ===== *)
theory Fragments
  imports Packets
begin

text \<open>
  The tables of \<^verbatim>\<open>src/src/proxy/inbound/tun_device.rs\<close> that follow packets: reassembly of IP fragments, the table of UDP
  sessions, and the buffers of TCP flows.  Time is an argument, in milliseconds.  Reassembly is exact for the fragments of one
  packet, in every order and with every repetition; for fragments that contradict each other it can panic.
\<close>

section \<open>Definitions\<close>

subsection \<open>Fragments\<close>

record fragment_key =
  fk_src_ip :: ip_addr
  fk_dst_ip :: ip_addr
  fk_identification :: u16

record fragment_entry =
  fe_offset :: u16
  fe_data :: "byte list"
  fe_more :: bool

record fragment_group =
  fg_fragments :: "fragment_entry list"
  fg_created_at :: nat
  fg_total_len :: "nat option"
  fg_protocol :: byte

record fragment_reassembler =
  fr_groups :: "(fragment_key, fragment_group) hashmap"
  fr_max_groups :: nat
  fr_timeout_secs :: nat

definition fragment_new :: "nat \<Rightarrow> nat \<Rightarrow> fragment_reassembler" where
  "fragment_new m t = \<lparr>fr_groups = [], fr_max_groups = m, fr_timeout_secs = t\<rparr>"

definition frag_start :: "fragment_entry \<Rightarrow> nat" where
  "frag_start f = unat (fe_offset f) * 8"

text \<open>The loop that looks for gaps.\<close>

fun coverage :: "nat \<Rightarrow> fragment_entry list \<Rightarrow> nat option" where
  "coverage covered [] = Some covered"
| "coverage covered (f # fs) =
     (if frag_start f > covered then None
      else coverage (let e = frag_start f + length (fe_data f) in if e > covered then e else covered) fs)"

text \<open>The loop that copies; \<^const>\<open>None\<close> is a panic.\<close>

fun copy_fragments :: "nat \<Rightarrow> fragment_entry list \<Rightarrow> byte list \<Rightarrow> byte list option" where
  "copy_fragments tot [] res = Some res"
| "copy_fragments tot (f # fs) res =
     (let start = frag_start f; e = min (start + length (fe_data f)) tot in
      if start \<le> e \<and> e \<le> length res then
        copy_fragments tot fs (take start res @ take (e - start) (fe_data f) @ drop e res)
      else None)"

definition try_reassemble :: "fragment_group \<Rightarrow> byte list parse" where
  "try_reassemble g =
     (case fg_total_len g of
        None \<Rightarrow> fail
      | Some tot \<Rightarrow>
          let sorted_frags = sort_key fe_offset (fg_fragments g) in
          (case coverage 0 sorted_frags of
             None \<Rightarrow> fail
           | Some covered \<Rightarrow>
               if covered < tot then fail
               else map_option Some (copy_fragments tot sorted_frags (replicate tot 0))))"

definition evict_expired_groups :: "nat \<Rightarrow> fragment_reassembler \<Rightarrow> nat \<times> fragment_reassembler" where
  "evict_expired_groups now r =
     (let m = hm_retain (\<lambda>_ g. now - fg_created_at g < 1000 * fr_timeout_secs r) (fr_groups r)
      in (length (fr_groups r) - length m, r\<lparr>fr_groups := m\<rparr>))"

definition add_fragment ::
  "nat \<Rightarrow> fragment_key \<Rightarrow> u16 \<Rightarrow> byte list \<Rightarrow> bool \<Rightarrow> byte \<Rightarrow> fragment_reassembler \<Rightarrow> byte list parse \<times> fragment_reassembler" where
  "add_fragment now k offset d mf proto r =
     (let r1 = (if length (fr_groups r) \<ge> fr_max_groups r \<and> hm_get (fr_groups r) k = None then snd (evict_expired_groups now r) else r);
          g = (case hm_get (fr_groups r1) k of
                 Some g \<Rightarrow> g
               | None \<Rightarrow> \<lparr>fg_fragments = [], fg_created_at = now, fg_total_len = None, fg_protocol = proto\<rparr>);
          g1 = g\<lparr>fg_fragments := fg_fragments g @ [\<lparr>fe_offset = offset, fe_data = d, fe_more = mf\<rparr>],
                 fg_total_len := (if mf then fg_total_len g else Some (unat offset * 8 + length d))\<rparr>
      in (try_reassemble g1, r1\<lparr>fr_groups := hm_insert k g1 (fr_groups r1)\<rparr>))"

definition remove_group :: "fragment_key \<Rightarrow> fragment_reassembler \<Rightarrow> bool \<times> fragment_reassembler" where
  "remove_group k r = (hm_get (fr_groups r) k \<noteq> None, r\<lparr>fr_groups := hm_remove k (fr_groups r)\<rparr>)"

definition parse_ipv4_fragment_info :: "byte list \<Rightarrow> (fragment_key \<times> u16 \<times> bool \<times> byte) parse" where
  "parse_ipv4_fragment_info d =
     (if length d < 20 then fail
      else do {
        b0 \<leftarrow> byte_at d 0;
        if drop_bit 4 b0 \<noteq> 4 then fail
        else do {
          i \<leftarrow> be16_at d 4;
          flags_offset \<leftarrow> be16_at d 6;
          proto \<leftarrow> byte_at d 9;
          src \<leftarrow> be32_at d 12;
          dst \<leftarrow> be32_at d 16;
          let mf = (flags_offset AND 0x2000 \<noteq> 0);
          let off = flags_offset AND 0x1FFF;
          if \<not> mf \<and> off = 0 then fail
          else found (\<lparr>fk_src_ip = V4 src, fk_dst_ip = V4 dst, fk_identification = i\<rparr>, off, mf, proto)
        }
      })"

subsection \<open>UDP sessions\<close>

record flow_key =
  tf_src_ip :: ip_addr
  tf_dst_ip :: ip_addr
  tf_src_port :: u16
  tf_dst_port :: u16

definition flow_reverse :: "flow_key \<Rightarrow> flow_key" where
  "flow_reverse k = \<lparr>tf_src_ip = tf_dst_ip k, tf_dst_ip = tf_src_ip k, tf_src_port = tf_dst_port k, tf_dst_port = tf_src_port k\<rparr>"

record udp_session =
  us_created_at :: nat
  us_last_active :: nat
  us_packets_sent :: u64
  us_packets_recv :: u64
  us_bytes_sent :: u64
  us_bytes_recv :: u64

record udp_sessions =
  um_sessions :: "(flow_key, udp_session) hashmap"
  um_max_sessions :: nat
  um_idle_timeout_secs :: nat

definition udp_sessions_new :: "nat \<Rightarrow> nat \<Rightarrow> udp_sessions" where
  "udp_sessions_new m t = \<lparr>um_sessions = [], um_max_sessions = m, um_idle_timeout_secs = t\<rparr>"

definition udp_evict_idle :: "nat \<Rightarrow> udp_sessions \<Rightarrow> nat \<times> udp_sessions" where
  "udp_evict_idle now m =
     (let s = hm_retain (\<lambda>_ st. now - us_last_active st < 1000 * um_idle_timeout_secs m) (um_sessions m)
      in (length (um_sessions m) - length s, m\<lparr>um_sessions := s\<rparr>))"

definition packet_flow :: "parsed_packet \<Rightarrow> flow_key" where
  "packet_flow p = \<lparr>tf_src_ip = pk_src_ip p, tf_dst_ip = pk_dst_ip p, tf_src_port = pk_src_port p, tf_dst_port = pk_dst_port p\<rparr>"

definition udp_track_packet :: "nat \<Rightarrow> parsed_packet \<Rightarrow> nat \<Rightarrow> udp_sessions \<Rightarrow> bool \<times> udp_sessions" where
  "udp_track_packet now p n m =
     (if pk_protocol p \<noteq> ProtoUdp then (False, m)
      else case hm_get (um_sessions m) (packet_flow p) of
          Some st \<Rightarrow>
            (False, m\<lparr>um_sessions := hm_insert (packet_flow p) (st\<lparr>us_last_active := now, us_packets_sent := us_packets_sent st + 1,
               us_bytes_sent := us_bytes_sent st + word_of_nat n\<rparr>) (um_sessions m)\<rparr>)
        | None \<Rightarrow>
            let m1 = (if length (um_sessions m) \<ge> um_max_sessions m then snd (udp_evict_idle now m) else m) in
            (True, m1\<lparr>um_sessions := hm_insert (packet_flow p) \<lparr>us_created_at = now, us_last_active = now, us_packets_sent = 1,
               us_packets_recv = 0, us_bytes_sent = word_of_nat n, us_bytes_recv = 0\<rparr> (um_sessions m1)\<rparr>))"

definition udp_track_reply :: "nat \<Rightarrow> flow_key \<Rightarrow> nat \<Rightarrow> udp_sessions \<Rightarrow> bool \<times> udp_sessions" where
  "udp_track_reply now k n m =
     (case hm_get (um_sessions m) k of
        Some st \<Rightarrow>
          (True, m\<lparr>um_sessions := hm_insert k (st\<lparr>us_last_active := now, us_packets_recv := us_packets_recv st + 1,
             us_bytes_recv := us_bytes_recv st + word_of_nat n\<rparr>) (um_sessions m)\<rparr>)
      | None \<Rightarrow> (False, m))"

definition udp_remove_session :: "flow_key \<Rightarrow> udp_sessions \<Rightarrow> bool \<times> udp_sessions" where
  "udp_remove_session k m = (hm_get (um_sessions m) k \<noteq> None, m\<lparr>um_sessions := hm_remove k (um_sessions m)\<rparr>)"

subsection \<open>TCP flows\<close>

datatype tcp_state = SynSent | SynReceived | Established | FinWait1 | FinWait2 | CloseWait | Closing | LastAck | TimeWait | TcpClosed

record tcp_flow =
  fl_state :: tcp_state
  fl_seq :: u32
  fl_ack :: u32
  fl_data_buf :: "byte list"

type_synonym tcp_reassembler = "(flow_key, tcp_flow) hashmap"

definition track_syn :: "flow_key \<Rightarrow> u32 \<Rightarrow> tcp_reassembler \<Rightarrow> tcp_reassembler" where
  "track_syn k sq m = hm_insert k \<lparr>fl_state = SynSent, fl_seq = sq, fl_ack = 0, fl_data_buf = []\<rparr> m"

definition track_synack :: "flow_key \<Rightarrow> u32 \<Rightarrow> u32 \<Rightarrow> tcp_reassembler \<Rightarrow> tcp_reassembler" where
  "track_synack k sq ack m = hm_insert k \<lparr>fl_state = Established, fl_seq = sq, fl_ack = ack, fl_data_buf = []\<rparr> m"

definition push_data :: "flow_key \<Rightarrow> byte list \<Rightarrow> tcp_reassembler \<Rightarrow> bool \<times> tcp_reassembler" where
  "push_data k d m =
     (case hm_get m k of
        Some f \<Rightarrow> (True, hm_insert k (f\<lparr>fl_data_buf := fl_data_buf f @ d\<rparr>) m)
      | None \<Rightarrow> (False, m))"

definition take_data :: "flow_key \<Rightarrow> tcp_reassembler \<Rightarrow> byte list option \<times> tcp_reassembler" where
  "take_data k m =
     (case hm_get m k of
        Some f \<Rightarrow> (if fl_data_buf f = [] then (None, m) else (Some (fl_data_buf f), hm_insert k (f\<lparr>fl_data_buf := []\<rparr>) m))
      | None \<Rightarrow> (None, m))"

definition flow_close :: "flow_key \<Rightarrow> tcp_reassembler \<Rightarrow> bool \<times> tcp_reassembler" where
  "flow_close k m = (hm_get m k \<noteq> None, hm_remove k m)"

definition flow_state :: "flow_key \<Rightarrow> tcp_reassembler \<Rightarrow> tcp_state option" where
  "flow_state k m = map_option fl_state (hm_get m k)"

section \<open>Lemmas\<close>

subsection \<open>Genuine fragments\<close>

text \<open>A fragment of a payload: a slice of it at its offset, marked as the last one exactly if it reaches the end.\<close>

definition genuine :: "byte list \<Rightarrow> fragment_entry \<Rightarrow> bool" where
  "genuine P f \<longleftrightarrow> frag_start f + length (fe_data f) \<le> length P \<and>
     fe_data f = take (length (fe_data f)) (drop (frag_start f) P) \<and>
     (fe_more f \<longleftrightarrow> frag_start f + length (fe_data f) < length P)"

definition covers :: "fragment_entry list \<Rightarrow> nat \<Rightarrow> bool" where
  "covers fs i \<longleftrightarrow> (\<exists>f \<in> set fs. frag_start f \<le> i \<and> i < frag_start f + length (fe_data f))"

lemma sort_offset_sorted: "sorted_wrt (\<lambda>f g. frag_start f \<le> frag_start g) (sort_key fe_offset fs)"
proof -
  have "sorted_wrt (\<lambda>f g. fe_offset f \<le> fe_offset g) (sort_key fe_offset fs)"
    using sorted_sort_key [of fe_offset fs] by (simp add: sorted_map)
  then show ?thesis
    by (rule sorted_wrt_mono_rel [rotated]) (simp add: frag_start_def word_le_nat_alt)
qed

lemma covers_Cons: "covers (f # fs) i \<longleftrightarrow> (frag_start f \<le> i \<and> i < frag_start f + length (fe_data f)) \<or> covers fs i"
  by (auto simp: covers_def)

lemma covers_sort: "covers (sort_key fe_offset fs) i = covers fs i"
  by (simp add: covers_def)

lemma coverage_sound: "coverage c fs = Some c' \<Longrightarrow> c \<le> c' \<and> (\<forall>i. c \<le> i \<and> i < c' \<longrightarrow> covers fs i)"
proof (induction fs arbitrary: c)
  case (Cons f fs)
  let ?e = "frag_start f + length (fe_data f)"
  let ?c = "if ?e > c then ?e else c"
  from Cons.prems have s: "frag_start f \<le> c" "coverage ?c fs = Some c'" by (auto simp: Let_def split: if_splits)
  from Cons.IH [OF s(2)] s(1) show ?case
    by (auto simp: covers_Cons split: if_splits) (metis linorder_not_less order.trans)
qed (simp add: covers_def)

lemma coverage_complete:
  assumes "sorted_wrt (\<lambda>f g. frag_start f \<le> frag_start g) fs" and "\<forall>f \<in> set fs. frag_start f \<le> n"
    and "\<forall>i. c \<le> i \<and> i < n \<longrightarrow> covers fs i"
  shows "\<exists>c'. coverage c fs = Some c' \<and> n \<le> c'"
  using assms
proof (induction fs arbitrary: c)
  case Nil
  then have "n \<le> c" by (metis covers_def empty_iff list.set(1) linorder_not_less order_refl)
  then show ?case by simp
next
  case (Cons f fs)
  let ?e = "frag_start f + length (fe_data f)"
  let ?c = "if ?e > c then ?e else c"
  have "\<not> frag_start f > c"
  proof
    assume gt: "frag_start f > c"
    with Cons.prems(2) have "c < n" by simp
    with Cons.prems(3) have "covers (f # fs) c" by simp
    with gt Cons.prems(1) show False by (auto simp: covers_def)
  qed
  moreover have "\<forall>i. ?c \<le> i \<and> i < n \<longrightarrow> covers fs i"
  proof (intro allI impI, elim conjE)
    fix i assume "?c \<le> i" "i < n"
    then have "c \<le> i" "?e \<le> i" by (auto split: if_splits)
    with Cons.prems(3) \<open>i < n\<close> show "covers fs i" by (auto simp: covers_Cons)
  qed
  with Cons.IH [of ?c] Cons.prems(1,2) have "\<exists>c'. coverage ?c fs = Some c' \<and> n \<le> c'" by simp
  ultimately show ?case by (simp add: Let_def)
qed

lemma copy_genuine:
  assumes "\<forall>f \<in> set fs. genuine P f" and "length res = length P"
  shows "\<exists>res'. copy_fragments (length P) fs res = Some res' \<and> length res' = length P \<and>
    (\<forall>i < length P. res' ! i = (if covers fs i then P ! i else res ! i))"
  using assms
proof (induction fs arbitrary: res)
  case (Cons f fs)
  let ?s = "frag_start f" and ?n = "length (fe_data f)"
  let ?res = "take ?s res @ fe_data f @ drop (?s + ?n) res"
  from Cons.prems have g: "?s + ?n \<le> length P" "fe_data f = take ?n (drop ?s P)" by (auto simp: genuine_def)
  have len: "length ?res = length P" using g(1) Cons.prems(2) by simp
  have step: "copy_fragments (length P) (f # fs) res = copy_fragments (length P) fs ?res"
    using g(1) Cons.prems(2) by (simp add: Let_def min_absorb1)
  have nth: "?res ! i = (if ?s \<le> i \<and> i < ?s + ?n then P ! i else res ! i)" if "i < length P" for i
  proof -
    have "fe_data f ! (i - ?s) = P ! i" if "?s \<le> i" "i < ?s + ?n"
    proof -
      have "fe_data f ! (i - ?s) = take ?n (drop ?s P) ! (i - ?s)" by (rule arg_cong [OF g(2)])
      also have "\<dots> = P ! i" using that g(1) by (simp add: nth_take)
      finally show ?thesis .
    qed
    then show ?thesis using that g(1) Cons.prems(2) by (auto simp: nth_append)
  qed
  from Cons.IH [OF _ len] Cons.prems(1) obtain res' where "copy_fragments (length P) fs ?res = Some res'" "length res' = length P"
    "\<forall>i < length P. res' ! i = (if covers fs i then P ! i else ?res ! i)" by auto
  with step nth show ?case by (auto simp: covers_Cons)
qed (simp add: covers_def)

text \<open>Reassembly of fragments of a payload: the payload once every byte is there, and nothing before that.\<close>

lemma try_reassemble_genuine:
  assumes "\<forall>f \<in> set (fg_fragments g). genuine P f" and "fg_total_len g = Some (length P)"
  shows "try_reassemble g = (if \<forall>i < length P. covers (fg_fragments g) i then found P else fail)"
proof -
  let ?fs = "sort_key fe_offset (fg_fragments g)"
  have gen: "\<forall>f \<in> set ?fs. genuine P f" and starts: "\<forall>f \<in> set ?fs. frag_start f \<le> length P"
    using assms(1) by (auto simp: genuine_def)
  show ?thesis
  proof (cases "\<forall>i < length P. covers (fg_fragments g) i")
    case True
    then obtain c where c: "coverage 0 ?fs = Some c" "length P \<le> c"
      using coverage_complete [OF sort_offset_sorted starts, of 0] by (auto simp: covers_sort)
    from copy_genuine [OF gen, of "replicate (length P) 0"] obtain res where "copy_fragments (length P) ?fs (replicate (length P) 0) = Some res"
      "length res = length P" "\<forall>i < length P. res ! i = (if covers ?fs i then P ! i else replicate (length P) 0 ! i)" by auto
    moreover from this True have "res = P" by (intro nth_equalityI) (auto simp: covers_sort)
    ultimately show ?thesis using True c assms(2) by (simp add: try_reassemble_def Let_def)
  next
    case False
    have "c < length P" if "coverage 0 ?fs = Some c" for c
      using coverage_sound [OF that] False by (auto simp: covers_sort) (metis linorder_not_less order.strict_trans2)
    with False assms(2) show ?thesis by (auto simp: try_reassemble_def Let_def split: option.split)
  qed
qed

lemma covered_has_last:
  assumes "\<forall>f \<in> set fs. genuine P f" and "fs \<noteq> []" and "\<forall>i < length P. covers fs i"
  shows "\<exists>f \<in> set fs. \<not> fe_more f"
proof (cases "P = []")
  case True
  with assms(1,2) show ?thesis by (cases fs) (auto simp: genuine_def)
next
  case False
  then have "covers fs (length P - 1)" using assms(3) by simp
  then obtain f where "f \<in> set fs" "length P - 1 < frag_start f + length (fe_data f)" by (auto simp: covers_def)
  with assms(1) False show ?thesis by (auto simp: genuine_def)
qed

text \<open>A run of fragments for one key, from a table without the key; \<^term>\<open>now\<close> may differ for each.\<close>

definition add_all ::
  "fragment_key \<Rightarrow> (nat \<times> byte \<times> fragment_entry) list \<Rightarrow> byte list parse \<times> fragment_reassembler \<Rightarrow> byte list parse \<times> fragment_reassembler" where
  "add_all k xs s = fold (\<lambda>(now, proto, f) (_, r). add_fragment now k (fe_offset f) (fe_data f) (fe_more f) proto r) xs s"

definition group_for :: "byte list \<Rightarrow> fragment_entry list \<Rightarrow> fragment_group \<Rightarrow> bool" where
  "group_for P fs g \<longleftrightarrow> fg_fragments g = fs \<and> fg_total_len g = (if \<exists>f \<in> set fs. \<not> fe_more f then Some (length P) else None)"

lemma add_fragment_group:
  assumes "genuine P f" and "case hm_get (fr_groups r) k of Some g \<Rightarrow> group_for P fs g | None \<Rightarrow> fs = []"
  shows "\<exists>g r'. add_fragment now k (fe_offset f) (fe_data f) (fe_more f) proto r = (try_reassemble g, r') \<and>
    hm_get (fr_groups r') k = Some g \<and> group_for P (fs @ [f]) g"
proof -
  let ?r = "if length (fr_groups r) \<ge> fr_max_groups r \<and> hm_get (fr_groups r) k = None then snd (evict_expired_groups now r) else r"
  let ?old = "case hm_get (fr_groups ?r) k of Some g \<Rightarrow> g | None \<Rightarrow> \<lparr>fg_fragments = [], fg_created_at = now, fg_total_len = None, fg_protocol = proto\<rparr>"
  let ?g = "?old\<lparr>fg_fragments := fg_fragments ?old @ [f], fg_total_len := (if fe_more f then fg_total_len ?old else Some (frag_start f + length (fe_data f)))\<rparr>"
  have absent: "hm_get (hm_retain Q m) k = None" if "hm_get m k = None" for Q and m :: "(fragment_key, fragment_group) hashmap"
    using that by (auto simp: hm_get_eq_None hm_retain_def)
  have "group_for P fs ?old"
  proof (cases "hm_get (fr_groups r) k")
    case None
    then have "hm_get (fr_groups ?r) k = None" using absent by (simp add: evict_expired_groups_def Let_def)
    then have "?old = \<lparr>fg_fragments = [], fg_created_at = now, fg_total_len = None, fg_protocol = proto\<rparr>" by (simp only: option.case)
    moreover have "fs = []" using None assms(2) by simp
    ultimately show ?thesis by (simp only: group_for_def) simp
  qed (use assms(2) in simp)
  then have "group_for P (fs @ [f]) ?g"
    using assms(1) by (auto simp: group_for_def genuine_def)
  moreover have "add_fragment now k (fe_offset f) (fe_data f) (fe_more f) proto r = (try_reassemble ?g, ?r\<lparr>fr_groups := hm_insert k ?g (fr_groups ?r)\<rparr>)"
  proof -
    have f: "\<lparr>fe_offset = fe_offset f, fe_data = fe_data f, fe_more = fe_more f\<rparr> = f" by simp
    show ?thesis unfolding add_fragment_def Let_def f frag_start_def ..
  qed
  ultimately show ?thesis by (metis (no_types, lifting) fragment_reassembler.select_convs(1) fragment_reassembler.surjective fragment_reassembler.update_convs(1) hm_get_insert)
qed

lemma add_all_group:
  assumes "\<forall>(now, proto, f) \<in> set xs. genuine P f" and "case hm_get (fr_groups (snd s)) k of Some g \<Rightarrow> group_for P fs g | None \<Rightarrow> fs = []"
    and "xs \<noteq> []"
  shows "\<exists>g. fst (add_all k xs s) = try_reassemble g \<and> group_for P (fs @ map (snd \<circ> snd) xs) g"
  using assms
proof (induction xs arbitrary: s fs)
  case (Cons x xs)
  obtain now proto f where x: "x = (now, proto, f)" using prod_cases3 by blast
  from add_fragment_group [of P f fs "snd s" k now proto] Cons.prems(1,2) x obtain g r' where
    a: "add_fragment now k (fe_offset f) (fe_data f) (fe_more f) proto (snd s) = (try_reassemble g, r')"
      "hm_get (fr_groups r') k = Some g" "group_for P (fs @ [f]) g" by auto
  have step: "add_all k (x # xs) s = add_all k xs (try_reassemble g, r')"
    using a(1) x by (simp add: add_all_def case_prod_unfold)
  show ?case
  proof (cases "xs = []")
    case True
    with step a x show ?thesis by (auto simp: add_all_def)
  next
    case False
    have "\<exists>g'. fst (add_all k xs (try_reassemble g, r')) = try_reassemble g' \<and> group_for P ((fs @ [f]) @ map (snd \<circ> snd) xs) g'"
      by (rule Cons.IH) (use Cons.prems(1) a False in simp_all)
    with step x show ?thesis by (simp add: comp_def)
  qed
qed simp

section \<open>Properties\<close>

text \<open>C33. Reassembly is exact: when the fragments of a payload arrive for a key, in any order, at any times and with any
  repetitions and overlaps, what is returned for the last of them is the payload if every byte of it has arrived,
  and nothing otherwise; the code does not panic.\<close>

theorem fragments_reassemble_exact:
  assumes "xs \<noteq> []" and "\<forall>(now, proto, f) \<in> set xs. genuine P f" and "hm_get (fr_groups r) k = None"
  shows "fst (add_all k xs (fail, r)) =
    (if \<forall>i < length P. covers (map (snd \<circ> snd) xs) i then found P else fail)"
proof -
  let ?fs = "map (snd \<circ> snd) xs"
  from add_all_group [OF assms(2) _ assms(1), of "[]" "(fail, r)" k] assms(3) obtain g where
    g: "fst (add_all k xs (fail, r)) = try_reassemble g" "group_for P ?fs g" by auto
  have gen: "\<forall>f \<in> set ?fs. genuine P f" using assms(2) by auto
  show ?thesis
  proof (cases "\<exists>f \<in> set ?fs. \<not> fe_more f")
    case True
    with g try_reassemble_genuine [of g P] gen show ?thesis by (simp add: group_for_def)
  next
    case False
    with covered_has_last [OF gen] assms(1) have "\<not> (\<forall>i < length P. covers ?fs i)" by auto
    with False g show ?thesis by (auto simp: group_for_def try_reassemble_def)
  qed
qed

theorem fragments_reassemble_exact_witness:
  "fst (add_all \<lparr>fk_src_ip = V4 1, fk_dst_ip = V4 2, fk_identification = 3\<rparr>
      [(0, 17, \<lparr>fe_offset = 1, fe_data = [9, 10], fe_more = False\<rparr>), (5, 17, \<lparr>fe_offset = 0, fe_data = [1, 2, 3, 4, 5, 6, 7, 8], fe_more = True\<rparr>)]
      (fail, fragment_new 10 30)) = found [1, 2, 3, 4, 5, 6, 7, 8, 9, 10]"
proof -
  let ?xs = "[(0 :: nat, 17 :: byte, \<lparr>fe_offset = 1, fe_data = [9, 10], fe_more = False\<rparr>), (5, 17, \<lparr>fe_offset = 0, fe_data = [1, 2, 3, 4, 5, 6, 7, 8], fe_more = True\<rparr>)]"
  let ?P = "[1, 2, 3, 4, 5, 6, 7, 8, 9, 10] :: byte list"
  have "\<forall>(now, proto, f) \<in> set ?xs. genuine ?P f" by code_simp
  moreover have "\<forall>i < length ?P. covers (map (snd \<circ> snd) ?xs) i" by code_simp
  ultimately show ?thesis
    using fragments_reassemble_exact [of ?xs ?P "fragment_new 10 30" "\<lparr>fk_src_ip = V4 1, fk_dst_ip = V4 2, fk_identification = 3\<rparr>"]
    by (simp add: fragment_new_def)
qed

text \<open>Contradicting fragments panic: a last fragment that ends before data that has already arrived makes the
  copying loop take a slice whose start is after its end.\<close>

theorem contradicting_fragments_panic:
  "fst (add_all k
      [(0, 17, \<lparr>fe_offset = 0, fe_data = replicate 16 1, fe_more = True\<rparr>), (0, 17, \<lparr>fe_offset = 2, fe_data = replicate 8 1, fe_more = True\<rparr>),
       (0, 17, \<lparr>fe_offset = 0, fe_data = replicate 8 1, fe_more = False\<rparr>)] (fail, fragment_new 10 30)) = None"
proof -
  let ?f = "\<lparr>fe_offset = 0, fe_data = replicate 16 1, fe_more = True\<rparr>" and ?g = "\<lparr>fe_offset = 2, fe_data = replicate 8 1, fe_more = True\<rparr>"
    and ?h = "\<lparr>fe_offset = 0, fe_data = replicate 8 1, fe_more = False\<rparr>"
  have "try_reassemble \<lparr>fg_fragments = [?f, ?g, ?h], fg_created_at = 0, fg_total_len = Some 8, fg_protocol = 17\<rparr> = None" by code_simp
  then show ?thesis by (simp add: add_all_def add_fragment_def fragment_new_def Let_def)
qed

text \<open>The maximum number of UDP sessions is no bound: a packet of a new flow is recorded also when the table is full
  and none of its sessions has expired.\<close>

theorem udp_sessions_exceed_maximum:
  assumes "hm_wf (um_sessions m)" and "pk_protocol p = ProtoUdp" and "hm_get (um_sessions m) (packet_flow p) = None"
    and "\<forall>(k, st) \<in> set (um_sessions m). now - us_last_active st < 1000 * um_idle_timeout_secs m"
  shows "length (um_sessions (snd (udp_track_packet now p n m))) = length (um_sessions m) + 1"
proof -
  have "hm_retain (\<lambda>_ st. now - us_last_active st < 1000 * um_idle_timeout_secs m) (um_sessions m) = um_sessions m"
    unfolding hm_retain_def using assms(4) by (intro filter_True) auto
  then show ?thesis
    using assms(2,3) by (simp add: udp_track_packet_def udp_evict_idle_def Let_def hm_length_insert)
qed

theorem udp_sessions_exceed_maximum_witness:
  "let p = \<lparr>pk_version = 4, pk_protocol = ProtoUdp, pk_src_ip = V4 1, pk_dst_ip = V4 2, pk_src_port = 3, pk_dst_port = 4, pk_payload_offset = 20, pk_total_len = 28\<rparr> in
   length (um_sessions (snd (udp_track_packet 0 p 0 (udp_sessions_new 0 30)))) = 1"
  using udp_sessions_exceed_maximum [of "udp_sessions_new 0 30" "\<lparr>pk_version = 4, pk_protocol = ProtoUdp, pk_src_ip = V4 1, pk_dst_ip = V4 2, pk_src_port = 3,
      pk_dst_port = 4, pk_payload_offset = 20, pk_total_len = 28\<rparr>" 0 0]
  by (simp add: udp_sessions_new_def Let_def)

end
