(* ===== verification/TunStack.thy ===== *)
theory TunStack
  imports Packets OutboundManager
begin

text \<open>
  The user space TCP and UDP stack over a TUN device, \<^verbatim>\<open>src/src/proxy/inbound/tun_stack.rs\<close>, and the loop that feeds it.
  The state of a connection is shared between the table and the task that writes to the device, so states are kept
  under an identity, the table maps a pair of addresses to an identity, and the tasks that run are listed.  The
  steps are: a packet from the device, a chunk from the stream of a connection, and the end of a dispatch.  What the
  stack writes to the device and what it hands to the stream of each connection are logs of the state; the channel
  to a stream is taken to be open, sending to it waits while it is full.
\<close>

section \<open>Definitions\<close>

subsection \<open>The stream of a connection\<close>

text \<open>The reading side of \<^verbatim>\<open>TunTcpStream\<close>: \<^term>\<open>q\<close> is the channel, an empty chunk or the closed channel is the end of file.\<close>

record tun_stream =
  tn_queue :: "byte list list"
  tn_closed :: bool
  tn_read_buf :: "byte list"
  tn_read_pos :: nat
  tn_read_closed :: bool

datatype tun_read = TunData "byte list" | TunEof | TunPending

definition tun_poll_read :: "nat \<Rightarrow> tun_stream \<Rightarrow> tun_read \<times> tun_stream" where
  "tun_poll_read n s =
     (if tn_read_pos s < length (tn_read_buf s) then
        let remaining = drop (tn_read_pos s) (tn_read_buf s); to_copy = min (length remaining) n; pos = tn_read_pos s + to_copy in
        (TunData (take to_copy remaining),
         if pos \<ge> length (tn_read_buf s) then s\<lparr>tn_read_buf := [], tn_read_pos := 0\<rparr> else s\<lparr>tn_read_pos := pos\<rparr>)
      else if tn_read_closed s then (TunEof, s)
      else (case tn_queue s of
          d # q \<Rightarrow>
            if d = [] then (TunEof, s\<lparr>tn_queue := q, tn_read_closed := True\<rparr>)
            else let to_copy = min (length d) n in
              (TunData (take to_copy d),
               if to_copy < length d then s\<lparr>tn_queue := q, tn_read_buf := d, tn_read_pos := to_copy\<rparr> else s\<lparr>tn_queue := q\<rparr>)
        | [] \<Rightarrow> if tn_closed s then (TunEof, s\<lparr>tn_read_closed := True\<rparr>) else (TunPending, s)))"

subsection \<open>The state\<close>

record stack_config =
  sc_max_tcp :: nat
  sc_icmp_policy :: icmp_policy
  sc_dns_hijack :: bool
  sc_inbound_tag :: string
  sc_sniff :: bool
  sc_allow_loopback :: bool

definition stack_config_default :: stack_config where
  "stack_config_default = \<lparr>sc_max_tcp = 4096, sc_icmp_policy = DropIcmp, sc_dns_hijack = True, sc_inbound_tag = ''tun-in'',
     sc_sniff = True, sc_allow_loopback = False\<rparr>"

record conn_key =
  ck_src :: socket_addr
  ck_dst :: socket_addr

record tcp_conn =
  tc_key :: conn_key
  tc_client_seq_next :: u32
  tc_server_seq_next :: u32
  tc_to_stream :: "byte list list"

record tun_stack =
  ts_config :: stack_config
  ts_next :: nat
  ts_conns :: "(conn_key, nat) hashmap"
  ts_states :: "nat \<Rightarrow> tcp_conn"
  ts_running :: "nat list"
  ts_writers :: "nat list"
  ts_active_tcp :: u64
  ts_written :: "byte list list"
  ts_dispatched :: "session list"

definition stack_new :: "stack_config \<Rightarrow> tun_stack" where
  "stack_new c = \<lparr>ts_config = c, ts_next = 0, ts_conns = [], ts_states = (\<lambda>_. \<lparr>tc_key = \<lparr>ck_src = SockV4 0 0, ck_dst = SockV4 0 0\<rparr>,
     tc_client_seq_next = 0, tc_server_seq_next = 0, tc_to_stream = []\<rparr>), ts_running = [], ts_writers = [], ts_active_tcp = 0, ts_written = [],
     ts_dispatched = []\<rparr>"

text \<open>\<^verbatim>\<open>if let Ok(pkt) = ... \{ write_packet(\&pkt) \}\<close>; the outer \<^const>\<open>None\<close> is a panic of the builder.\<close>

definition write_built :: "(packet_error, byte list) result option \<Rightarrow> tun_stack \<Rightarrow> tun_stack option" where
  "write_built r s =
     (case r of
        None \<Rightarrow> None
      | Some (Inl _) \<Rightarrow> Some s
      | Some (Inr pkt) \<Rightarrow> Some (s\<lparr>ts_written := ts_written s @ [pkt]\<rparr>))"

subsection \<open>TCP packets\<close>

record tcp_header =
  th_syn :: bool
  th_ack :: bool
  th_fin :: bool
  th_rst :: bool
  th_seq :: u32
  th_payload :: "byte list"

definition tcp_header_at :: "byte list \<Rightarrow> nat \<Rightarrow> tcp_header option" where
  "tcp_header_at raw off =
     do {
       flags \<leftarrow> byte_at raw (off + 13);
       sq \<leftarrow> be32_at raw (off + 4);
       b \<leftarrow> byte_at raw (off + 12);
       let payload_start = off + unat (drop_bit 4 b) * 4;
       payload \<leftarrow> (if length raw > payload_start then slice_at raw payload_start (length raw) else Some []);
       Some \<lparr>th_syn = (flags AND 0x02 \<noteq> 0), th_ack = (flags AND 0x10 \<noteq> 0), th_fin = (flags AND 0x01 \<noteq> 0), th_rst = (flags AND 0x04 \<noteq> 0),
         th_seq = sq, th_payload = payload\<rparr>
     }"

definition send_to_stream :: "nat \<Rightarrow> byte list \<Rightarrow> tun_stack \<Rightarrow> tun_stack" where
  "send_to_stream i d s = s\<lparr>ts_states := (ts_states s)(i := (ts_states s i)\<lparr>tc_to_stream := tc_to_stream (ts_states s i) @ [d]\<rparr>)\<rparr>"

text \<open>A packet for a connection of the table.\<close>

definition existing_packet :: "conn_key \<Rightarrow> nat \<Rightarrow> tcp_header \<Rightarrow> tun_stack \<Rightarrow> tun_stack option" where
  "existing_packet k i h s =
     (if th_rst h \<or> th_fin h then
        let s1 = send_to_stream i [] s in
        Some (s1\<lparr>ts_conns := hm_remove k (ts_conns s1), ts_active_tcp := ts_active_tcp s1 - 1\<rparr>)
      else if th_ack h \<and> th_payload h = [] then Some s
      else if th_payload h \<noteq> [] then
        let new_seq = th_seq h + word_of_nat (length (th_payload h));
            st = ts_states s i;
            st1 = (if new_seq > tc_client_seq_next st then st\<lparr>tc_client_seq_next := new_seq\<rparr> else st);
            s1 = send_to_stream i (th_payload h) (s\<lparr>ts_states := (ts_states s)(i := st1)\<rparr>)
        in write_built (build_tcp_packet_ipv4 (ck_dst k) (ck_src k) (tc_server_seq_next st1) (tc_client_seq_next st1) 0x10 []) s1
      else Some s)"

text \<open>A packet that opens a connection.\<close>

definition new_packet :: "conn_key \<Rightarrow> tcp_header \<Rightarrow> tun_stack \<Rightarrow> tun_stack option" where
  "new_packet k h s =
     (if \<not> th_syn h then Some s
      else if unat (ts_active_tcp s) \<ge> sc_max_tcp (ts_config s) then Some s
      else
        let i = ts_next s; cseq = th_seq h + 1 in
        (case write_built (build_tcp_packet_ipv4 (ck_dst k) (ck_src k) 1 cseq 0x12 []) s of
           None \<Rightarrow> None
         | Some s1 \<Rightarrow>
             Some (s1\<lparr>ts_next := i + 1,
               ts_states := (ts_states s1)(i := \<lparr>tc_key = k, tc_client_seq_next = cseq, tc_server_seq_next = 1 + 1, tc_to_stream = []\<rparr>),
               ts_conns := hm_insert k i (ts_conns s1), ts_active_tcp := ts_active_tcp s1 + 1, ts_running := i # ts_running s1, ts_writers := i # ts_writers s1,
               ts_dispatched := ts_dispatched s1 @ [\<lparr>s_target = Ip (ck_dst k), s_source = Some (ck_src k),
                 s_inbound_tag = sc_inbound_tag (ts_config s), s_network = Tcp, s_sniff = sc_sniff (ts_config s), s_detected_protocol = None\<rparr>]\<rparr>)))"

definition packet_key :: "parsed_packet \<Rightarrow> conn_key" where
  "packet_key p = \<lparr>ck_src = sock_new (pk_src_ip p) (pk_src_port p), ck_dst = sock_new (pk_dst_ip p) (pk_dst_port p)\<rparr>"

definition handle_tcp_packet :: "parsed_packet \<Rightarrow> byte list \<Rightarrow> tun_stack \<Rightarrow> tun_stack option" where
  "handle_tcp_packet p raw s =
     (let k = packet_key p; off = pk_payload_offset p in
      if length raw < off + 14 then Some s
      else do {
        h \<leftarrow> tcp_header_at raw off;
        (case hm_get (ts_conns s) k of
           Some i \<Rightarrow> existing_packet k i h s
         | None \<Rightarrow> new_packet k h s)
      })"

text \<open>The task that writes what the stream of a connection sends; \<^term>\<open>ok\<close> is the outcome of writing to the device.  A
  chunk that cannot be put into a packet is dropped; the empty chunk ends the task.\<close>

definition from_stream :: "nat \<Rightarrow> byte list \<Rightarrow> bool \<Rightarrow> tun_stack \<Rightarrow> tun_stack option" where
  "from_stream i d ok s =
     (let st = ts_states s i in
      if d = [] then Some (s\<lparr>ts_writers := remove1 i (ts_writers s)\<rparr>)
      else case build_tcp_packet_ipv4 (ck_dst (tc_key st)) (ck_src (tc_key st)) (tc_server_seq_next st) (tc_client_seq_next st) 0x18 d of
        None \<Rightarrow> None
      | Some (Inl _) \<Rightarrow> Some s
      | Some (Inr pkt) \<Rightarrow>
          if ok then
            Some (s\<lparr>ts_written := ts_written s @ [pkt],
              ts_states := (ts_states s)(i := st\<lparr>tc_server_seq_next := tc_server_seq_next st + word_of_nat (length d)\<rparr>)\<rparr>)
          else Some s)"

text \<open>The end of a dispatch.\<close>

definition dispatch_done :: "nat \<Rightarrow> tun_stack \<Rightarrow> tun_stack" where
  "dispatch_done i s =
     s\<lparr>ts_conns := hm_remove (tc_key (ts_states s i)) (ts_conns s), ts_active_tcp := ts_active_tcp s - 1,
       ts_running := remove1 i (ts_running s)\<rparr>"

subsection \<open>UDP packets\<close>

record udp_side =
  ud_match :: match_env
  ud_router :: router
  ud_store :: prov_store
  ud_outbounds :: outbound_manager
  ud_exchange :: "string \<Rightarrow> session \<Rightarrow> byte list \<Rightarrow> (address \<times> byte list) option"

text \<open>A datagram is sent through an outbound and one reply is waited for; \<^verbatim>\<open>ud_exchange\<close> is that exchange, with a
  failure or a timeout as \<^const>\<open>None\<close>.\<close>

definition handle_udp_packet :: "udp_side \<Rightarrow> parsed_packet \<Rightarrow> byte list \<Rightarrow> tun_stack \<Rightarrow> tun_stack option" where
  "handle_udp_packet u p raw s =
     (let src = sock_new (pk_src_ip p) (pk_src_port p); dst = sock_new (pk_dst_ip p) (pk_dst_port p); off = pk_payload_offset p in
      if length raw < off + 8 then Some s
      else do {
        payload \<leftarrow> slice_at raw (off + 8) (length raw);
        if payload = [] then Some s
        else
          let ses = \<lparr>s_target = Ip dst, s_source = Some src, s_inbound_tag = sc_inbound_tag (ts_config s), s_network = Udp,
                s_sniff = False, s_detected_protocol = None\<rparr> in
          (case fst (route_with_rule (ud_match u) (ud_router u) ses (ud_store u)) of
             None \<Rightarrow> None
           | Some (tag, _) \<Rightarrow>
               (case manager_get tag (ud_outbounds u) of
                  None \<Rightarrow> Some s
                | Some h \<Rightarrow>
                    (case ud_exchange u tag ses payload of
                       None \<Rightarrow> Some s
                     | Some (a, reply) \<Rightarrow>
                         write_built (build_udp_reply_packet (case a of Ip x \<Rightarrow> x | Domain _ _ \<Rightarrow> dst) src reply) s)))
      })"

subsection \<open>The loop\<close>

fun is_loopback :: "ip_addr \<Rightarrow> bool" where
  "is_loopback (V4 a) = (drop_bit 24 a = 127)"
| "is_loopback (V6 a) = (a = 1)"

definition stack_packet :: "udp_side \<Rightarrow> resolver \<Rightarrow> byte list \<Rightarrow> tun_stack \<Rightarrow> tun_stack option" where
  "stack_packet u res raw s =
     (if raw = [] then Some s
      else case parse_ip_packet raw of
          None \<Rightarrow> None
        | Some (Inl _) \<Rightarrow> Some s
        | Some (Inr p) \<Rightarrow>
            if pk_protocol p = ProtoIcmp \<and> \<not> should_process (sc_icmp_policy (ts_config s)) p then Some s
            else if \<not> sc_allow_loopback (ts_config s) \<and> (is_loopback (pk_dst_ip p) \<or> is_loopback (pk_src_ip p)) then Some s
            else if sc_dns_hijack (ts_config s) \<and> is_dns_query p then
              (case handle_dns_hijack p raw res of
                 None \<Rightarrow> None
               | Some None \<Rightarrow> Some s
               | Some (Some reply) \<Rightarrow> Some (s\<lparr>ts_written := ts_written s @ [reply]\<rparr>))
            else (case pk_protocol p of
                ProtoTcp \<Rightarrow> handle_tcp_packet p raw s
              | ProtoUdp \<Rightarrow> handle_udp_packet u p raw s
              | _ \<Rightarrow> Some s))"

datatype stack_op =
    DevicePacket udp_side resolver "byte list"
  | StreamChunk nat "byte list" bool
  | DispatchDone nat

text \<open>A step; a panic ends the task and leaves the state, a dispatch ends once, and a writer stops at the end of its stream.\<close>

fun stack_do :: "stack_op \<Rightarrow> tun_stack \<Rightarrow> tun_stack" where
  "stack_do (DevicePacket u res raw) s = (case stack_packet u res raw s of Some s' \<Rightarrow> s' | None \<Rightarrow> s)"
| "stack_do (StreamChunk i d ok) s =
     (if i \<in> set (ts_writers s) then (case from_stream i d ok s of Some s' \<Rightarrow> s' | None \<Rightarrow> s) else s)"
| "stack_do (DispatchDone i) s = (if i \<in> set (ts_running s) then dispatch_done i s else s)"

section \<open>Lemmas\<close>

subsection \<open>No panics\<close>

lemma build_tcp_total: "\<exists>r. build_tcp_packet_ipv4 src dst sq ack flags d = Some r"
proof (cases "\<exists>a b. sock_ip src = V4 a \<and> sock_ip dst = V4 b \<and> 40 + length d \<le> 65535")
  case True
  then show ?thesis using build_tcp_eq by blast
qed (auto simp: build_tcp_packet_ipv4_def split: ip_addr.split)

lemma build_udp_reply_total: "\<exists>r. build_udp_reply_packet src dst d = Some r"
proof (cases "\<exists>a b. sock_ip src = V4 a \<and> sock_ip dst = V4 b \<and> 28 + length d \<le> 65535")
  case True
  then show ?thesis using build_udp_reply_eq by blast
qed (auto simp: build_udp_reply_packet_def split: ip_addr.split)

lemma same_written: "\<exists>w. (s :: tun_stack) = s\<lparr>ts_written := w\<rparr>"
  by (rule exI [of _ "ts_written s"]) simp

lemma write_built_frame: "write_built r s = Some s' \<Longrightarrow> \<exists>w. s' = s\<lparr>ts_written := w\<rparr>"
  using same_written [of s] by (auto simp: write_built_def split: option.splits sum.splits)

lemma write_built_total: "r \<noteq> None \<Longrightarrow> \<exists>s'. write_built r s = Some s'"
  by (auto simp: write_built_def split: sum.split)

lemma tcp_header_total: "off + 14 \<le> length raw \<Longrightarrow> \<exists>h. tcp_header_at raw off = Some h"
  by (simp add: tcp_header_at_def Let_def)

lemma existing_packet_total: "\<exists>s'. existing_packet k i h s = Some s'"
  using build_tcp_total write_built_total by (fastforce simp: existing_packet_def Let_def)

lemma new_packet_total: "\<exists>s'. new_packet k h s = Some s'"
proof -
  obtain r where "build_tcp_packet_ipv4 (ck_dst k) (ck_src k) 1 (th_seq h + 1) 0x12 [] = Some r" using build_tcp_total by blast
  moreover obtain s' where "write_built (Some r) s = Some s'" using write_built_total by blast
  ultimately show ?thesis by (simp add: new_packet_def Let_def)
qed

lemma handle_tcp_total: "\<exists>s'. handle_tcp_packet p raw s = Some s'"
proof (cases "pk_payload_offset p + 14 \<le> length raw")
  case True
  then obtain h where "tcp_header_at raw (pk_payload_offset p) = Some h" using tcp_header_total by blast
  with True show ?thesis
    using existing_packet_total new_packet_total by (simp add: handle_tcp_packet_def Let_def split: option.split)
qed (simp add: handle_tcp_packet_def)

lemma handle_udp_total:
  assumes "\<And>ses. fst (route_with_rule (ud_match u) (ud_router u) ses (ud_store u)) \<noteq> None"
  shows "\<exists>s'. handle_udp_packet u p raw s = Some s'"
proof (cases "pk_payload_offset p + 8 \<le> length raw")
  case True
  have w: "\<exists>s'. write_built (build_udp_reply_packet a b c) s = Some s'" for a b c
    using build_udp_reply_total [of a b c] write_built_total by fastforce
  show ?thesis
    using True assms w by (auto simp: handle_udp_packet_def Let_def split: option.split prod.split) (metis option.distinct(1) fst_conv)+
qed (simp add: handle_udp_packet_def)

subsection \<open>One packet\<close>

lemma handle_udp_frame: "handle_udp_packet u p raw s = Some s' \<Longrightarrow> \<exists>w. s' = s\<lparr>ts_written := w\<rparr>"
  using same_written [of s]
  by (auto simp: handle_udp_packet_def Let_def bind_eq_Some_conv dest: write_built_frame split: if_splits option.splits prod.splits)

lemma stack_packet_cases:
  assumes "stack_packet u res raw s = Some s'"
  obtains (quiet) w where "s' = s\<lparr>ts_written := w\<rparr>"
  | (tcp) p where "parse_ip_packet raw = Some (Inr p)" "pk_protocol p = ProtoTcp"
      "sc_allow_loopback (ts_config s) \<or> \<not> (is_loopback (pk_dst_ip p) \<or> is_loopback (pk_src_ip p))" "handle_tcp_packet p raw s = Some s'"
proof (cases "raw = [] \<or> (\<exists>e. parse_ip_packet raw = Some (Inl e))")
  case True
  with assms have "s' = s" by (auto simp: stack_packet_def split: if_split_asm)
  with same_written [of s] quiet show thesis by metis
next
  case False
  with assms obtain p where p: "parse_ip_packet raw = Some (Inr p)"
    by (auto simp: stack_packet_def split: option.splits sum.splits)
  let ?dropped = "pk_protocol p = ProtoIcmp \<and> \<not> should_process (sc_icmp_policy (ts_config s)) p"
  let ?loop = "\<not> sc_allow_loopback (ts_config s) \<and> (is_loopback (pk_dst_ip p) \<or> is_loopback (pk_src_ip p))"
  let ?dns = "sc_dns_hijack (ts_config s) \<and> is_dns_query p"
  consider (skip) "?dropped \<or> ?loop" | (dns) "\<not> ?dropped" "\<not> ?loop" ?dns | (go) "\<not> ?dropped" "\<not> ?loop" "\<not> ?dns" by blast
  then show thesis
  proof cases
    case skip
    with assms p False have "s' = s" by (auto simp: stack_packet_def split: if_split_asm)
    with same_written [of s] quiet show thesis by metis
  next
    case dns
    with assms p False have "s' = s \<or> (\<exists>w. s' = s\<lparr>ts_written := w\<rparr>)"
      by (auto simp: stack_packet_def split: option.splits)
    with same_written [of s] quiet show thesis by metis
  next
    case go
    with assms p False have step: "(case pk_protocol p of ProtoTcp \<Rightarrow> handle_tcp_packet p raw s
        | ProtoUdp \<Rightarrow> handle_udp_packet u p raw s | _ \<Rightarrow> Some s) = Some s'"
      by (simp add: stack_packet_def if_not_P)
    show thesis
    proof (cases "pk_protocol p")
      case ProtoTcp
      with step go p tcp show thesis by auto
    next
      case ProtoUdp
      with step handle_udp_frame [of u p raw s s'] quiet show thesis by auto
    qed (use step same_written [of s] quiet in auto)
  qed
qed

text \<open>A TCP packet that is not filtered, with its key and its header.\<close>

definition arrives :: "stack_config \<Rightarrow> byte list \<Rightarrow> conn_key \<Rightarrow> tcp_header \<Rightarrow> bool" where
  "arrives c raw k h \<longleftrightarrow>
     (case parse_ip_packet raw of
        Some (Inr p) \<Rightarrow>
          pk_protocol p = ProtoTcp \<and> (sc_allow_loopback c \<or> \<not> (is_loopback (pk_dst_ip p) \<or> is_loopback (pk_src_ip p))) \<and>
          packet_key p = k \<and> pk_payload_offset p + 14 \<le> length raw \<and> tcp_header_at raw (pk_payload_offset p) = Some h
      | _ \<Rightarrow> False)"

definition tcp_step :: "conn_key \<Rightarrow> tcp_header \<Rightarrow> tun_stack \<Rightarrow> tun_stack option" where
  "tcp_step k h s = (case hm_get (ts_conns s) k of Some i \<Rightarrow> existing_packet k i h s | None \<Rightarrow> new_packet k h s)"

lemma stack_packet_arrives:
  assumes "arrives (ts_config s) raw k h"
  shows "stack_packet u res raw s = tcp_step k h s"
proof -
  from assms obtain p where p: "parse_ip_packet raw = Some (Inr p)" "pk_protocol p = ProtoTcp"
    "sc_allow_loopback (ts_config s) \<or> \<not> (is_loopback (pk_dst_ip p) \<or> is_loopback (pk_src_ip p))"
    "packet_key p = k" "pk_payload_offset p + 14 \<le> length raw" "tcp_header_at raw (pk_payload_offset p) = Some h"
    by (auto simp: arrives_def split: option.splits sum.splits)
  then have "raw \<noteq> []" by auto
  with p show ?thesis
    by (auto simp: stack_packet_def is_dns_query_def handle_tcp_packet_def tcp_step_def Let_def)
qed

lemma stack_packet_tcp:
  assumes "stack_packet u res raw s = Some s'"
  obtains (quiet) w where "s' = s\<lparr>ts_written := w\<rparr>" | (step) k h where "arrives (ts_config s) raw k h" "tcp_step k h s = Some s'"
  using assms
proof (cases rule: stack_packet_cases)
  case (tcp p)
  show thesis
  proof (cases "length raw < pk_payload_offset p + 14")
    case True
    with tcp(4) have "s' = s" by (simp add: handle_tcp_packet_def)
    with same_written [of s] quiet show thesis by blast
  next
    case False
    then obtain h where h: "tcp_header_at raw (pk_payload_offset p) = Some h" using tcp_header_total [of "pk_payload_offset p" raw] by auto
    with False tcp have "arrives (ts_config s) raw (packet_key p) h" by (auto simp: arrives_def)
    moreover have "tcp_step (packet_key p) h s = Some s'"
      using tcp(4) False h by (simp add: handle_tcp_packet_def tcp_step_def Let_def)
    ultimately show thesis by (rule step)
  qed
qed (use quiet in blast)

subsection \<open>A closed connection\<close>

text \<open>The state the counter is left in when a connection is closed by its client and its dispatch then ends.\<close>

definition wedged :: "stack_config \<Rightarrow> session list \<Rightarrow> tun_stack \<Rightarrow> bool" where
  "wedged c ds s \<longleftrightarrow> ts_config s = c \<and> ts_conns s = [] \<and> ts_running s = [] \<and> ts_active_tcp s = - 1 \<and> ts_dispatched s = ds"

lemma from_stream_frame:
  "from_stream i d ok s = Some s' \<Longrightarrow> ts_config s' = ts_config s \<and> ts_conns s' = ts_conns s \<and> ts_running s' = ts_running s \<and>
     ts_active_tcp s' = ts_active_tcp s \<and> ts_dispatched s' = ts_dispatched s"
  by (auto simp: from_stream_def Let_def split: if_splits option.splits sum.splits)

lemma wedged_tcp_step:
  assumes "wedged c ds s" and "sc_max_tcp c < 2 ^ 64"
  shows "tcp_step k h s = Some s"
proof -
  have "unat (- 1 :: u64) = 2 ^ 64 - 1" by (simp add: unsigned_minus_1_eq_mask mask_eq_exp_minus_1)
  then have "unat (ts_active_tcp s) \<ge> sc_max_tcp (ts_config s)"
    using assms by (simp add: wedged_def)
  with assms(1) show ?thesis by (simp add: tcp_step_def new_packet_def wedged_def)
qed

lemma wedged_step:
  assumes "wedged c ds s \<and> sc_max_tcp c < 2 ^ 64"
  shows "wedged c ds (stack_do x s) \<and> sc_max_tcp c < 2 ^ 64"
proof (cases x)
  case (DevicePacket u res raw)
  show ?thesis
  proof (cases "stack_packet u res raw s")
    case (Some s')
    then have "wedged c ds s'"
    proof (cases rule: stack_packet_tcp)
      case (quiet w)
      with assms show ?thesis by (simp add: wedged_def)
    next
      case (step k h)
      with assms wedged_tcp_step show ?thesis by fastforce
    qed
    with assms DevicePacket Some show ?thesis by simp
  qed (use assms DevicePacket in simp)
next
  case (StreamChunk i d ok)
  with assms show ?thesis
    using from_stream_frame [of i d ok s] by (auto simp: wedged_def split: option.split)
next
  case (DispatchDone i)
  with assms show ?thesis by (simp add: wedged_def)
qed

interpretation stuck_stack: preserved stack_do "\<lambda>s. wedged c ds s \<and> sc_max_tcp c < 2 ^ 64"
  by unfold_locales (rule wedged_step)

subsection \<open>Opening and closing\<close>

lemma open_step:
  assumes "hm_get (ts_conns s) k = None" and "th_syn h" and "unat (ts_active_tcp s) < sc_max_tcp (ts_config s)"
  obtains w where "tcp_step k h s = Some (s\<lparr>ts_next := ts_next s + 1,
      ts_states := (ts_states s)(ts_next s := \<lparr>tc_key = k, tc_client_seq_next = th_seq h + 1, tc_server_seq_next = 2, tc_to_stream = []\<rparr>),
      ts_conns := hm_insert k (ts_next s) (ts_conns s), ts_active_tcp := ts_active_tcp s + 1, ts_running := ts_next s # ts_running s,
      ts_writers := ts_next s # ts_writers s, ts_written := w,
      ts_dispatched := ts_dispatched s @ [\<lparr>s_target = Ip (ck_dst k), s_source = Some (ck_src k),
        s_inbound_tag = sc_inbound_tag (ts_config s), s_network = Tcp, s_sniff = sc_sniff (ts_config s), s_detected_protocol = None\<rparr>]\<rparr>)"
    "write_built (build_tcp_packet_ipv4 (ck_dst k) (ck_src k) 1 (th_seq h + 1) 0x12 []) s = Some (s\<lparr>ts_written := w\<rparr>)"
proof -
  obtain r where r: "build_tcp_packet_ipv4 (ck_dst k) (ck_src k) 1 (th_seq h + 1) 0x12 [] = Some r" using build_tcp_total by blast
  obtain s' where s': "write_built (Some r) s = Some s'" using write_built_total by blast
  then obtain w where "s' = s\<lparr>ts_written := w\<rparr>" using write_built_frame by blast
  with s' have w: "write_built (Some r) s = Some (s\<lparr>ts_written := w\<rparr>)" by simp
  show thesis
    by (rule that [of w]) (use assms in \<open>simp_all add: r w tcp_step_def new_packet_def Let_def\<close>)
qed

lemma wedge_by_close:
  assumes c: "0 < sc_max_tcp c" and syn: "arrives c a k h" "th_syn h" and fin: "arrives c b k h'" "th_fin h' \<or> th_rst h'"
  defines "first \<equiv> \<lparr>s_target = Ip (ck_dst k), s_source = Some (ck_src k), s_inbound_tag = sc_inbound_tag c, s_network = Tcp,
      s_sniff = sc_sniff c, s_detected_protocol = None\<rparr>"
  shows "wedged c [first] (fold stack_do [DevicePacket u res a, DevicePacket u res b, DispatchDone 0] (stack_new c))"
proof -
  have cfg: "ts_config (stack_new c) = c" by (simp add: stack_new_def)
  obtain w where "tcp_step k h (stack_new c) = Some ((stack_new c)\<lparr>ts_next := 1,
      ts_states := (ts_states (stack_new c))(0 := \<lparr>tc_key = k, tc_client_seq_next = th_seq h + 1, tc_server_seq_next = 2, tc_to_stream = []\<rparr>),
      ts_conns := hm_insert k 0 [], ts_active_tcp := 1, ts_running := [0], ts_writers := [0], ts_written := w, ts_dispatched := [first]\<rparr>)"
    (is "_ = Some ?s")
    using open_step [of "stack_new c" k h] c syn(2) by (auto simp: stack_new_def first_def)
  then have one: "stack_do (DevicePacket u res a) (stack_new c) = ?s"
    using stack_packet_arrives [of "stack_new c" a k h u res] syn(1) cfg by simp
  have "ts_config ?s = c" "hm_get (ts_conns ?s) k = Some 0" by (simp_all add: stack_new_def)
  with fin have two: "stack_do (DevicePacket u res b) ?s = (let t = send_to_stream 0 [] ?s in t\<lparr>ts_conns := hm_remove k (ts_conns t), ts_active_tcp := ts_active_tcp t - 1\<rparr>)"
    using stack_packet_arrives [of ?s b k h' u res] by (auto simp: tcp_step_def existing_packet_def Let_def)
  show ?thesis
    unfolding fold.simps comp_apply id_apply one two
    by (simp add: wedged_def send_to_stream_def dispatch_done_def Let_def stack_new_def hm_remove_def hm_insert_def)
qed

subsection \<open>The data of a connection\<close>

text \<open>The sequence numbers at which chunks start, and data segments that follow each other.\<close>

fun seq_starts :: "u32 \<Rightarrow> byte list list \<Rightarrow> u32 list" where
  "seq_starts n [] = []"
| "seq_starts n (d # ds) = n # seq_starts (n + word_of_nat (length d)) ds"

definition data_header :: "u32 \<Rightarrow> byte list \<Rightarrow> tcp_header" where
  "data_header n d = \<lparr>th_syn = False, th_ack = True, th_fin = False, th_rst = False, th_seq = n, th_payload = d\<rparr>"

definition in_order :: "stack_config \<Rightarrow> conn_key \<Rightarrow> u32 \<Rightarrow> byte list list \<Rightarrow> byte list list \<Rightarrow> bool" where
  "in_order c k n raws ds \<longleftrightarrow>
     list_all2 (\<lambda>raw (m, d). d \<noteq> [] \<and> arrives c raw k (data_header m d)) raws (zip (seq_starts n ds) ds)"

definition v4_key :: "conn_key \<Rightarrow> bool" where
  "v4_key k \<longleftrightarrow> (\<exists>a b. sock_ip (ck_src k) = V4 a \<and> sock_ip (ck_dst k) = V4 b)"

lemma length_seq_starts [simp]: "length (seq_starts n ds) = length ds"
  by (induction ds arbitrary: n) simp_all

lemma in_order_simps [simp]:
  "in_order c k n raws [] \<longleftrightarrow> raws = []"
  "in_order c k n [] (d # ds) \<longleftrightarrow> False"
  "in_order c k n (raw # raws) (d # ds) \<longleftrightarrow>
     d \<noteq> [] \<and> arrives c raw k (data_header n d) \<and> in_order c k (n + word_of_nat (length d)) raws ds"
  by (auto simp: in_order_def)

lemma built_segment:
  assumes "v4_key k" and "length d \<le> 64000"
  obtains pkt where "build_tcp_packet_ipv4 (ck_dst k) (ck_src k) sq ack flags d = Some (Inr pkt)"
    "tcp_segment pkt (ck_dst k) (ck_src k) sq ack flags d"
  using assms build_tcp_segment by (metis v4_key_def)

lemma seq_forward:
  fixes n :: u32
  assumes "unat n + m < 2 ^ 32" and "0 < m"
  shows "n + word_of_nat m > n" and "unat (n + word_of_nat m) = unat n + m"
proof -
  show u: "unat (n + word_of_nat m) = unat n + m" using assms by (simp add: unat_word_ariths unat_of_nat)
  with assms(2) show "n + word_of_nat m > n" by (simp add: word_less_nat_alt)
qed

lemma data_step:
  assumes "hm_get (ts_conns s) k = Some i" and "tc_client_seq_next (ts_states s i) = n" and "d \<noteq> []"
    and "unat n + length d < 2 ^ 32" and "v4_key k"
  obtains ack where "tcp_step k (data_header n d) s = Some (s\<lparr>ts_states := (ts_states s)(i := (ts_states s i)\<lparr>tc_client_seq_next := n + word_of_nat (length d),
        tc_to_stream := tc_to_stream (ts_states s i) @ [d]\<rparr>), ts_written := ts_written s @ [ack]\<rparr>)"
    "tcp_segment ack (ck_dst k) (ck_src k) (tc_server_seq_next (ts_states s i)) (n + word_of_nat (length d)) 0x10 []"
proof -
  obtain ack where a: "build_tcp_packet_ipv4 (ck_dst k) (ck_src k) (tc_server_seq_next (ts_states s i)) (n + word_of_nat (length d)) 0x10 [] = Some (Inr ack)"
    and seg: "tcp_segment ack (ck_dst k) (ck_src k) (tc_server_seq_next (ts_states s i)) (n + word_of_nat (length d)) 0x10 []"
    by (rule built_segment [OF assms(5), of "[]"]) auto
  have "n + word_of_nat (length d) > n" using seq_forward(1) [of n "length d"] assms(3,4) by simp
  then show thesis
    using assms(1-3) a by (intro that [OF _ seg])
      (simp add: tcp_step_def existing_packet_def data_header_def write_built_def send_to_stream_def Let_def)
qed

lemma client_data:
  assumes "hm_get (ts_conns s) k = Some i" and "tc_client_seq_next (ts_states s i) = n" and "v4_key k"
    and "in_order (ts_config s) k n raws ds" and "unat n + length (concat ds) < 2 ^ 32"
  shows "\<exists>acks. fold stack_do (map (DevicePacket u res) raws) s =
      s\<lparr>ts_states := (ts_states s)(i := (ts_states s i)\<lparr>tc_client_seq_next := n + word_of_nat (length (concat ds)),
          tc_to_stream := tc_to_stream (ts_states s i) @ ds\<rparr>), ts_written := ts_written s @ acks\<rparr> \<and>
    list_all2 (\<lambda>p (m, d). tcp_segment p (ck_dst k) (ck_src k) (tc_server_seq_next (ts_states s i)) (m + word_of_nat (length d)) 0x10 [])
      acks (zip (seq_starts n ds) ds)"
  using assms
proof (induction ds arbitrary: n raws s)
  case Nil
  then show ?case by (intro exI [of _ "[]"]) (auto simp: fun_upd_idem)
next
  case (Cons d ds)
  then obtain raw raws' where r: "raws = raw # raws'" "d \<noteq> []" "arrives (ts_config s) raw k (data_header n d)"
    "in_order (ts_config s) k (n + word_of_nat (length d)) raws' ds"
    by (cases raws) auto
  have le: "unat n + length d < 2 ^ 32" using Cons.prems(5) by simp
  let ?n = "n + word_of_nat (length d)"
  obtain ack where one: "tcp_step k (data_header n d) s = Some (s\<lparr>ts_states := (ts_states s)(i := (ts_states s i)\<lparr>tc_client_seq_next := ?n,
        tc_to_stream := tc_to_stream (ts_states s i) @ [d]\<rparr>), ts_written := ts_written s @ [ack]\<rparr>)" (is "_ = Some ?s")
    and seg: "tcp_segment ack (ck_dst k) (ck_src k) (tc_server_seq_next (ts_states s i)) ?n 0x10 []"
    using data_step [OF Cons.prems(1,2) r(2) le Cons.prems(3)] by blast
  have "stack_do (DevicePacket u res raw) s = ?s" using stack_packet_arrives [OF r(3)] one by simp
  moreover have "unat ?n + length (concat ds) < 2 ^ 32"
    using seq_forward(2) [OF le] r(2) Cons.prems(5) by simp
  moreover from this have "hm_get (ts_conns ?s) k = Some i" "tc_client_seq_next (ts_states ?s i) = ?n"
    "in_order (ts_config ?s) k ?n raws' ds" "unat ?n + length (concat ds) < 2 ^ 32"
    using Cons.prems(1) r(4) by simp_all
  note ih = Cons.IH [OF this(1,2) Cons.prems(3) this(3,4)]
  obtain acks where "fold stack_do (map (DevicePacket u res) raws') ?s =
      ?s\<lparr>ts_states := (ts_states ?s)(i := (ts_states ?s i)\<lparr>tc_client_seq_next := ?n + word_of_nat (length (concat ds)),
          tc_to_stream := tc_to_stream (ts_states ?s i) @ ds\<rparr>), ts_written := ts_written ?s @ acks\<rparr>"
    "list_all2 (\<lambda>p (m, d). tcp_segment p (ck_dst k) (ck_src k) (tc_server_seq_next (ts_states ?s i)) (m + word_of_nat (length d)) 0x10 [])
      acks (zip (seq_starts ?n ds) ds)"
    using ih by blast
  ultimately show ?case
    using r(1) seg by (intro exI [of _ "ack # acks"]) (simp add: fun_upd_def add.assoc del: stack_do.simps cong: if_cong)
qed

lemma server_data:
  assumes "i \<in> set (ts_writers s)" and "tc_key (ts_states s i) = k" and "v4_key k" and "tc_server_seq_next (ts_states s i) = n"
    and "list_all (\<lambda>d. d \<noteq> [] \<and> length d \<le> 64000) ds"
  shows "\<exists>pkts. fold stack_do (map (\<lambda>d. StreamChunk i d True) ds) s =
      s\<lparr>ts_states := (ts_states s)(i := (ts_states s i)\<lparr>tc_server_seq_next := n + word_of_nat (length (concat ds))\<rparr>),
        ts_written := ts_written s @ pkts\<rparr> \<and>
    list_all2 (\<lambda>p (m, d). tcp_segment p (ck_dst k) (ck_src k) m (tc_client_seq_next (ts_states s i)) 0x18 d) pkts (zip (seq_starts n ds) ds)"
  using assms
proof (induction ds arbitrary: n s)
  case Nil
  then show ?case by (intro exI [of _ "[]"]) (auto simp: fun_upd_idem)
next
  case (Cons d ds)
  obtain pkt where p: "build_tcp_packet_ipv4 (ck_dst k) (ck_src k) n (tc_client_seq_next (ts_states s i)) 0x18 d = Some (Inr pkt)"
    and seg: "tcp_segment pkt (ck_dst k) (ck_src k) n (tc_client_seq_next (ts_states s i)) 0x18 d"
    by (rule built_segment [of k d]) (use Cons.prems in auto)
  let ?s = "s\<lparr>ts_written := ts_written s @ [pkt], ts_states := (ts_states s)(i := (ts_states s i)\<lparr>tc_server_seq_next := n + word_of_nat (length d)\<rparr>)\<rparr>"
  have "stack_do (StreamChunk i d True) s = ?s" using p Cons.prems by (simp add: from_stream_def Let_def)
  moreover have "i \<in> set (ts_writers ?s)" "tc_key (ts_states ?s i) = k" "tc_server_seq_next (ts_states ?s i) = n + word_of_nat (length d)"
    "list_all (\<lambda>d. d \<noteq> [] \<and> length d \<le> 64000) ds"
    using Cons.prems by simp_all
  note ih = Cons.IH [OF this(1,2) Cons.prems(3) this(3,4)]
  obtain pkts where "fold stack_do (map (\<lambda>d. StreamChunk i d True) ds) ?s =
      ?s\<lparr>ts_states := (ts_states ?s)(i := (ts_states ?s i)\<lparr>tc_server_seq_next := n + word_of_nat (length d) + word_of_nat (length (concat ds))\<rparr>),
        ts_written := ts_written ?s @ pkts\<rparr>"
    "list_all2 (\<lambda>p (m, d). tcp_segment p (ck_dst k) (ck_src k) m (tc_client_seq_next (ts_states ?s i)) 0x18 d) pkts
      (zip (seq_starts (n + word_of_nat (length d)) ds) ds)"
    using ih by blast
  ultimately show ?case
    using seg by (intro exI [of _ "pkt # pkts"]) (simp add: fun_upd_def add.assoc del: stack_do.simps cong: if_cong)
qed

section \<open>Properties\<close>







end
