(* ===== verification/Dialogue.thy ===== *)
theory Dialogue
  imports OW_Prelude
begin

text \<open>
  Two parties that talk over a byte stream.  A handler that reads and writes a stream is a tree of its actions: it
  waits for a number of bytes, it sends bytes, it ends with a result, an error or a panic.  A party advances as far
  as the bytes that have arrived allow; in a conversation the two parties take turns, and what one sends is what
  the other receives.  The clients and servers of SOCKS5, of HTTP and of the hops of a chain are such trees.
\<close>

section \<open>Definitions\<close>

datatype ('e, 'a) talk =
    Ret 'a
  | Fail 'e
  | Panic
  | Get nat "byte list \<Rightarrow> ('e, 'a) talk"
  | Put "byte list" "('e, 'a) talk"

primrec talk_then :: "('e, 'a) talk \<Rightarrow> ('a \<Rightarrow> ('e, 'b) talk) \<Rightarrow> ('e, 'b) talk" where
  "talk_then (Ret x) f = f x"
| "talk_then (Fail e) f = Fail e"
| "talk_then Panic f = Panic"
| "talk_then (Get n k) f = Get n (\<lambda>bs. talk_then (k bs) f)"
| "talk_then (Put w k) f = Put w (talk_then k f)"

definition talk_result :: "('e, 'a) result \<Rightarrow> ('e, 'a) talk" where
  "talk_result r = (case r of Inl e \<Rightarrow> Fail e | Inr x \<Rightarrow> Ret x)"

text \<open>How far a party gets with the bytes that have arrived: what it sends, where it stands, and the bytes it has not read.\<close>

primrec advance :: "('e, 'a) talk \<Rightarrow> byte list \<Rightarrow> byte list \<times> ('e, 'a) talk \<times> byte list" where
  "advance (Ret x) buf = ([], Ret x, buf)"
| "advance (Fail e) buf = ([], Fail e, buf)"
| "advance Panic buf = ([], Panic, buf)"
| "advance (Get n k) buf =
     (if n \<le> length buf then advance (k (take n buf)) (drop n buf) else ([], Get n k, buf))"
| "advance (Put w k) buf = (case advance k buf of (out, t, r) \<Rightarrow> (w @ out, t, r))"

text \<open>Rounds of a conversation: the first party advances, then the second one with what it was sent.\<close>

fun converse ::
  "nat \<Rightarrow> ('e, 'a) talk \<Rightarrow> byte list \<Rightarrow> ('f, 'b) talk \<Rightarrow> byte list \<Rightarrow> (('e, 'a) talk \<times> byte list) \<times> ('f, 'b) talk \<times> byte list" where
  "converse 0 c to_c s to_s = ((c, to_c), (s, to_s))"
| "converse (Suc n) c to_c s to_s =
     (case advance c to_c of (sent, c', to_c') \<Rightarrow>
      case advance s (to_s @ sent) of (answer, s', to_s') \<Rightarrow>
        converse n c' (to_c' @ answer) s' to_s')"

section \<open>Lemmas\<close>

lemma talk_then_Ret [simp]: "talk_then t Ret = t"
  by (induction t) auto

lemma talk_then_assoc: "talk_then (talk_then t f) g = talk_then t (\<lambda>x. talk_then (f x) g)"
  by (induction t) auto

lemma advance_then:
  "advance (talk_then t f) buf =
     (case advance t buf of (out, t', r) \<Rightarrow>
       (case t' of Ret x \<Rightarrow> (case advance (f x) r of (out', t'', r') \<Rightarrow> (out @ out', t'', r'))
        | Fail e \<Rightarrow> (out, Fail e, r) | Panic \<Rightarrow> (out, Panic, r) | _ \<Rightarrow> (out, talk_then t' f, r)))"
proof (induction t arbitrary: buf)
  case (Put w t)
  then show ?case by (auto split: prod.splits talk.splits)
qed (auto split: prod.splits talk.splits)

lemma advance_then_ret:
  "advance t buf = (out, Ret x, r) \<Longrightarrow>
     advance (talk_then t f) buf = (case advance (f x) r of (out', t', r') \<Rightarrow> (out @ out', t', r'))"
  by (simp add: advance_then)

lemma advance_Get_append [simp]: "length a = n \<Longrightarrow> advance (Get n k) (a @ r) = advance (k a) r"
  by simp

lemma advance_Get_1 [simp]: "advance (Get (Suc 0) k) (b # r) = advance (k [b]) r"
  by simp

lemma advance_Get_Nil [simp]: "0 < n \<Longrightarrow> advance (Get n k) [] = ([], Get n k, [])"
  by simp

lemma advance_Get_Ret:
  "advance (Get n k) buf = (out, Ret x, r) \<longleftrightarrow>
     (\<exists>a b. buf = a @ b \<and> length a = n \<and> advance (k a) b = (out, Ret x, r))"
proof
  assume h: "advance (Get n k) buf = (out, Ret x, r)"
  then have "n \<le> length buf" by (auto split: if_splits)
  with h show "\<exists>a b. buf = a @ b \<and> length a = n \<and> advance (k a) b = (out, Ret x, r)"
    by (intro exI [of _ "take n buf"] exI [of _ "drop n buf"]) (simp add: min_def)
qed auto

lemma advance_Put_Ret:
  "advance (Put w k) buf = (out, Ret x, r) \<longleftrightarrow> (\<exists>out'. out = w @ out' \<and> advance k buf = (out', Ret x, r))"
  by (auto split: prod.splits)

lemma advance_Fail_Ret: "advance (Fail e) buf = (out, Ret x, r) \<longleftrightarrow> False"
  by simp

lemmas advance_Ret_iffs = advance_Get_Ret advance_Put_Ret advance_Fail_Ret

text \<open>A party that has ended takes no further part.\<close>

lemma converse_ended:
  assumes "advance c to_c = ([], c, to_c)" and "advance s to_s = ([], s, to_s)"
  shows "converse n c to_c s to_s = ((c, to_c), (s, to_s))"
  using assms by (induction n) simp_all

lemma converse_add: "converse (m + n) c to_c s to_s =
    (case converse m c to_c s to_s of ((c', to_c'), (s', to_s')) \<Rightarrow> converse n c' to_c' s' to_s')"
  by (induction m arbitrary: c to_c s to_s) (simp_all split: prod.split)

end
