(* ===== verification/Socks.thy ===== *)
theory Socks
  imports Dialogue Protocols Frames IpText
begin

text \<open>
  SOCKS5, both sides: the inbound \<^verbatim>\<open>src/src/proxy/inbound/socks5.rs\<close> and the outbound
  \<^verbatim>\<open>src/src/proxy/outbound/socks5.rs\<close>, each a party of a conversation, and the UDP relay with its datagram headers.
  The sockets that are bound and the resolver of the operating system are arguments.
\<close>

section \<open>Definitions\<close>

datatype socks_error =
    BadSocksVersion byte
  | NoAcceptableMethod
  | BadAuthVersion byte
  | WrongCredentials string
  | BadTarget addr_error
  | BadAtyp byte
  | BadCommand byte
  | BindFailed
  | AllMethodsRejected
  | UnknownMethod byte
  | AuthStatus byte
  | RequestFailed byte
  | LookupFailed string
  | PacketTooShort
  | ClientUnknown
  | MissingSetting string

subsection \<open>The inbound\<close>

record socks5_inbound =
  si_tag :: string
  si_users :: "(string \<times> string) list"

record socks5_relay =
  sr_client :: "socket_addr option"
  sr_source :: socket_addr

definition read_address :: "(socks_error, address) talk" where
  "read_address =
     Get 1 (\<lambda>t. let atyp = hd t in
       if atyp = 1 then Get 4 (\<lambda>a. Get 2 (\<lambda>p. talk_result (map_sum BadTarget id (from_socks5 1 a (from_be p)))))
       else if atyp = 3 then
         Get 1 (\<lambda>n. Get (unat (hd n)) (\<lambda>d. Get 2 (\<lambda>p. talk_result (map_sum BadTarget id (from_socks5 3 d (from_be p))))))
       else if atyp = 4 then Get 16 (\<lambda>a. Get 2 (\<lambda>p. talk_result (map_sum BadTarget id (from_socks5 4 a (from_be p)))))
       else Fail (BadAtyp atyp))"

fun bound_reply :: "socket_addr \<Rightarrow> byte list" where
  "bound_reply (SockV4 a p) = [5, 0, 0] @ [1] @ v4_octets a @ to_be 2 p"
| "bound_reply (SockV6 a p _ _) = [5, 0, 0] @ [4] @ v6_octets a @ to_be 2 p"

text \<open>The request; \<^term>\<open>bound\<close> is the local address of the UDP socket, or \<^const>\<open>None\<close> where binding fails.\<close>

definition socks5_request :: "socks5_inbound \<Rightarrow> socket_addr \<Rightarrow> socket_addr option \<Rightarrow> (socks_error, session \<times> socks5_relay option) talk" where
  "socks5_request i source bound =
     Get 1 (\<lambda>ver. if hd ver \<noteq> 5 then Fail (BadSocksVersion (hd ver)) else
     Get 1 (\<lambda>cmd. Get 1 (\<lambda>rsv.
       talk_then read_address (\<lambda>target.
         if hd cmd = 1 then
           Put [5, 0, 0, 1, 0, 0, 0, 0, 0, 0] (Ret (inbound_session (si_tag i) source target Tcp, None))
         else if hd cmd = 3 then
           (case bound of
              None \<Rightarrow> Fail BindFailed
            | Some a \<Rightarrow>
                Put (bound_reply a)
                  (Ret (inbound_session (si_tag i) source (Ip (SockV4 0 0)) Udp, Some \<lparr>sr_client = None, sr_source = source\<rparr>)))
         else Put [5, 7, 0, 1, 0, 0, 0, 0, 0, 0] (Fail (BadCommand (hd cmd)))))))"

definition socks5_auth :: "socks5_inbound \<Rightarrow> (socks_error, unit) talk" where
  "socks5_auth i =
     Get 1 (\<lambda>ver. if hd ver \<noteq> 1 then Fail (BadAuthVersion (hd ver)) else
     Get 1 (\<lambda>ulen. Get (unat (hd ulen)) (\<lambda>u.
       Get 1 (\<lambda>plen. Get (unat (hd plen)) (\<lambda>p.
         if (from_utf8_lossy u, from_utf8_lossy p) \<in> set (si_users i) then Put [1, 0] (Ret ())
         else Put [1, 1] (Fail (WrongCredentials (from_utf8_lossy u))))))))"

definition socks5_handle :: "socks5_inbound \<Rightarrow> socket_addr \<Rightarrow> socket_addr option \<Rightarrow> (socks_error, session \<times> socks5_relay option) talk" where
  "socks5_handle i source bound =
     Get 1 (\<lambda>ver. if hd ver \<noteq> 5 then Fail (BadSocksVersion (hd ver)) else
     Get 1 (\<lambda>n. Get (unat (hd n)) (\<lambda>methods.
       if si_users i \<noteq> [] then
         if 2 \<notin> set methods then Put [5, 0xFF] (Fail NoAcceptableMethod)
         else Put [5, 2] (talk_then (socks5_auth i) (\<lambda>_. socks5_request i source bound))
       else Put [5, 0] (socks5_request i source bound))))"

subsection \<open>The outbound\<close>

record socks5_outbound =
  so_tag :: string
  so_server_addr :: string
  so_server_port :: u16
  so_username :: "string option"
  so_password :: "string option"

definition socks5_outbound_new ::
  "string \<Rightarrow> string option \<Rightarrow> u16 option \<Rightarrow> string option \<Rightarrow> string option \<Rightarrow> string option \<Rightarrow> (socks_error, socks5_outbound) result" where
  "socks5_outbound_new tag address p username uuid password =
     (case address of
        None \<Rightarrow> Inl (MissingSetting ''address'')
      | Some a \<Rightarrow>
          (case p of
             None \<Rightarrow> Inl (MissingSetting ''port'')
           | Some q \<Rightarrow> Inr \<lparr>so_tag = tag, so_server_addr = a, so_server_port = q,
               so_username = (case username of Some u \<Rightarrow> Some u | None \<Rightarrow> uuid), so_password = password\<rparr>))"

text \<open>The credentials of the client are unwrapped when the server chooses method 2, also when there are none.\<close>

definition socks5_handshake :: "socks5_outbound \<Rightarrow> (socks_error, unit) talk" where
  "socks5_handshake ob =
     Put (if so_username ob \<noteq> None \<and> so_password ob \<noteq> None then [5, 2, 0, 2] else [5, 1, 0])
       (Get 2 (\<lambda>resp.
          if resp ! 0 \<noteq> 5 then Fail (BadSocksVersion (resp ! 0))
          else if resp ! 1 = 0 then Ret ()
          else if resp ! 1 = 2 then
            (case (so_username ob, so_password ob) of
               (Some u, Some p) \<Rightarrow>
                 Put ([1, word_of_nat (length u)] @ as_bytes u @ [word_of_nat (length p)] @ as_bytes p)
                   (Get 2 (\<lambda>r. if r ! 1 \<noteq> 0 then Fail (AuthStatus (r ! 1)) else Ret ()))
             | _ \<Rightarrow> Panic)
          else if resp ! 1 = 0xFF then Fail AllMethodsRejected
          else Fail (UnknownMethod (resp ! 1))))"

definition read_bind_addr :: "(socks_error, address) talk" where
  "read_bind_addr =
     Get 1 (\<lambda>t. let atyp = hd t in
       if atyp = 1 then Get 4 (\<lambda>a. Get 2 (\<lambda>p. Ret (Ip (sock_new (V4 (from_be a)) (from_be p)))))
       else if atyp = 3 then Get 1 (\<lambda>n. Get (unat (hd n)) (\<lambda>d. Get 2 (\<lambda>p. Ret (Domain (from_utf8_lossy d) (from_be p)))))
       else if atyp = 4 then Get 16 (\<lambda>a. Get 2 (\<lambda>p. Ret (Ip (sock_new (V6 (from_be a)) (from_be p)))))
       else Fail (BadAtyp atyp))"

definition socks5_send_request :: "byte \<Rightarrow> address \<Rightarrow> (socks_error, address) talk" where
  "socks5_send_request cmd target =
     Put (encode_socks5 target [5, cmd, 0])
       (Get 3 (\<lambda>resp.
          if resp ! 0 \<noteq> 5 then Fail (BadSocksVersion (resp ! 0))
          else if resp ! 1 \<noteq> 0 then Fail (RequestFailed (resp ! 1))
          else read_bind_addr))"

definition socks5_connect :: "socks5_outbound \<Rightarrow> address \<Rightarrow> (socks_error, unit) talk" where
  "socks5_connect ob target =
     talk_then (socks5_handshake ob) (\<lambda>_. talk_then (socks5_send_request 1 target) (\<lambda>_. Ret ()))"

text \<open>The address of the relay: an unspecified address stands for the server itself.\<close>

fun is_unspecified :: "ip_addr \<Rightarrow> bool" where
  "is_unspecified (V4 a) = (a = 0)"
| "is_unspecified (V6 a) = (a = 0)"

definition relay_address ::
  "(string \<Rightarrow> (string, socket_addr list) result) \<Rightarrow> socks5_outbound \<Rightarrow> address \<Rightarrow> (socks_error, socket_addr) result" where
  "relay_address lookup ob bind =
     (case bind of
        Ip a \<Rightarrow>
          if is_unspecified (sock_ip a) then
            Inr (sock_new (case parse_ip (so_server_addr ob) of Some ip \<Rightarrow> ip | None \<Rightarrow> V4 0x7F000001) (sock_port a))
          else Inr a
      | Domain d p \<Rightarrow>
          (case lookup (d @ '':'' @ show_nat (unat p)) of
             Inl e \<Rightarrow> Inl (LookupFailed e)
           | Inr [] \<Rightarrow> Inl (LookupFailed d)
           | Inr (a # _) \<Rightarrow> Inr a))"

definition socks5_connect_udp ::
  "(string \<Rightarrow> (string, socket_addr list) result) \<Rightarrow> socks5_outbound \<Rightarrow> (socks_error, socket_addr) talk" where
  "socks5_connect_udp lookup ob =
     talk_then (socks5_handshake ob) (\<lambda>_.
       talk_then (socks5_send_request 3 (Ip (SockV4 0 0))) (\<lambda>bind. talk_result (relay_address lookup ob bind)))"

subsection \<open>Datagrams\<close>

text \<open>The relay of the inbound receives datagrams, given in the order of arrival; the result is \<^const>\<open>None\<close> while it
  waits for another one.\<close>

fun relay_recv ::
  "socks5_relay \<Rightarrow> (socket_addr \<times> byte list) list \<Rightarrow>
     ((socks_error, address \<times> byte list) result \<times> (socket_addr \<times> byte list) list) option \<times> socks5_relay" where
  "relay_recv r [] = (None, r)"
| "relay_recv r ((from, d) # ds) =
     (if sock_ip from \<noteq> sock_ip (sr_source r) then relay_recv r ds
      else
        let r1 = (if sr_client r = None then r\<lparr>sr_client := Some from\<rparr> else r) in
        if length d < 4 then (Some (Inl PacketTooShort, ds), r1)
        else if d ! 2 \<noteq> 0 then relay_recv r1 ds
        else (case parse_socks5_udp_addr (drop 3 d) of
            Inl e \<Rightarrow> (Some (Inl (BadTarget e), ds), r1)
          | Inr (a, n) \<Rightarrow> (Some (Inr (a, drop (3 + n) d), ds), r1)))"

definition relay_send :: "socks5_relay \<Rightarrow> address \<times> byte list \<Rightarrow> (socks_error, socket_addr \<times> byte list) result" where
  "relay_send r pkt =
     (case sr_client r of
        None \<Rightarrow> Inl ClientUnknown
      | Some c \<Rightarrow> Inr (c, encode_socks5 (fst pkt) [0, 0, 0] @ snd pkt))"

text \<open>The transport of the outbound, which skips what it cannot read.\<close>

definition out_send :: "address \<times> byte list \<Rightarrow> byte list" where
  "out_send pkt = encode_socks5 (fst pkt) [0, 0, 0] @ snd pkt"

fun out_recv :: "byte list list \<Rightarrow> ((address \<times> byte list) \<times> byte list list) option" where
  "out_recv [] = None"
| "out_recv (d # ds) =
     (if length d < 4 then out_recv ds
      else if d ! 2 \<noteq> 0 then out_recv ds
      else (case parse_socks5_udp_addr (drop 3 d) of
          Inl _ \<Rightarrow> out_recv ds
        | Inr (a, n) \<Rightarrow> if 3 + n > length d then out_recv ds else Some ((a, drop (3 + n) d), ds)))"

section \<open>Lemmas\<close>

subsection \<open>Addresses\<close>

lemma advance_read_address [codec_simps]:
  assumes "socks5_encodable a"
  shows "advance read_address (encode_socks5 a [] @ r) = ([], Ret a, r)"
  using assms
proof (cases a rule: socks5_encodable.cases)
  case (3 d p)
  with assms have "from_utf8 (as_bytes d) = Some d" "unat (word_of_nat (length d) :: byte) = length d"
    by (simp_all add: from_utf8_as_bytes unat_length_byte)
  with 3 show ?thesis by (simp add: read_address_def from_socks5_def talk_result_def codec_simps)
qed (simp_all add: read_address_def from_socks5_def talk_result_def sock_new_def v4_octets_def v6_octets_def codec_simps)

lemma advance_bind_addr [codec_simps]:
  assumes "socks5_encodable a"
  shows "advance read_bind_addr (encode_socks5 a [] @ r) = ([], Ret a, r)"
  using assms
proof (cases a rule: socks5_encodable.cases)
  case (3 d p)
  with assms have "from_utf8_lossy (as_bytes d) = d" "unat (word_of_nat (length d) :: byte) = length d"
    by (simp_all add: from_utf8_lossy_as_bytes unat_length_byte)
  with 3 show ?thesis by (simp add: read_bind_addr_def codec_simps)
qed (simp_all add: read_bind_addr_def sock_new_def v4_octets_def v6_octets_def codec_simps)

subsection \<open>The conversation\<close>

lemma socks_request_bytes: "encode_socks5 a [5, c, 0] = [5, c, 0] @ encode_socks5 a []"
  by (rule encode_socks5_append)

lemma advance_request:
  assumes "socks5_encodable target"
  shows "advance (socks5_request i source bound) (encode_socks5 target [5, 1, 0] @ r) =
      ([5, 0, 0, 1, 0, 0, 0, 0, 0, 0], Ret (inbound_session (si_tag i) source target Tcp, None), r)"
  using advance_read_address [OF assms, of r]
  by (simp add: socks5_request_def socks_request_bytes advance_then)

lemma advance_auth:
  assumes "length u \<le> 255" and "length p \<le> 255" and "valid_utf8 (as_bytes u)" and "valid_utf8 (as_bytes p)"
  shows "advance (socks5_auth i) ([1, word_of_nat (length u)] @ as_bytes u @ [word_of_nat (length p)] @ as_bytes p @ r) =
      (if (u, p) \<in> set (si_users i) then ([1, 0], Ret (), r) else ([1, 1], Fail (WrongCredentials u), r))"
  using assms by (simp add: socks5_auth_def unat_length_byte from_utf8_lossy_as_bytes)

lemma advance_greeting:
  "advance (socks5_handle i source bound) [5, 1, 0] =
     (if si_users i = [] then ([5, 0], socks5_request i source bound, []) else ([5, 0xFF], Fail NoAcceptableMethod, []))"
  "advance (socks5_handle i source bound) [5, 2, 0, 2] =
     (if si_users i = [] then ([5, 0], socks5_request i source bound, [])
      else ([5, 2], talk_then (socks5_auth i) (\<lambda>_. socks5_request i source bound), []))"
  by (simp_all add: socks5_handle_def socks5_request_def socks5_auth_def)

lemma reply_address: "[1, 0, 0, 0, 0, 0, 0] = encode_socks5 (Ip (SockV4 0 0)) []"
  by (simp add: v4_octets_def numeral_eq_Suc)

lemma advance_reply:
  "advance read_bind_addr [1, 0, 0, 0, 0, 0, 0] = ([], Ret (Ip (SockV4 0 0)), [])"
  "advance (talk_then read_bind_addr (\<lambda>_. Ret ())) [1, 0, 0, 0, 0, 0, 0] = ([], Ret (), [])"
  by (simp_all add: read_bind_addr_def sock_new_def from_be_def)

definition credentials :: "socks5_outbound \<Rightarrow> (string \<times> string) option" where
  "credentials ob = (case (so_username ob, so_password ob) of (Some u, Some p) \<Rightarrow> Some (u, p) | _ \<Rightarrow> None)"

lemma credentials_simps:
  "credentials ob = Some (u, p) \<longleftrightarrow> so_username ob = Some u \<and> so_password ob = Some p"
  "credentials ob = None \<longleftrightarrow> so_username ob = None \<or> so_password ob = None"
  by (auto simp: credentials_def split: option.splits)

lemma request_waits: "advance (socks5_request i source bound) [] = ([], socks5_request i source bound, [])"
  by (simp add: socks5_request_def)

lemmas client_defs = socks5_connect_def socks5_handshake_def socks5_send_request_def

lemma agree_without_users:
  assumes "socks5_encodable target" and "si_users i = []"
  shows "converse 4 (socks5_connect ob target) [] (socks5_handle i source bound) [] =
    ((Ret (), []), (Ret (inbound_session (si_tag i) source target Tcp, None), []))"
  using assms(2) advance_request [OF assms(1), where r = "[]"]
  by (simp add: numeral_eq_Suc) (simp add: client_defs advance_greeting advance_reply)

lemma agree_with_user:
  assumes "socks5_encodable target" and "si_users i \<noteq> []" and "credentials ob = Some (u, p)"
    and "length u \<le> 255" and "length p \<le> 255" and "valid_utf8 (as_bytes u)" and "valid_utf8 (as_bytes p)"
  shows "converse 4 (socks5_connect ob target) [] (socks5_handle i source bound) [] =
    (if (u, p) \<in> set (si_users i)
     then ((Ret (), []), (Ret (inbound_session (si_tag i) source target Tcp, None), []))
     else ((Fail (AuthStatus 1), []), (Fail (WrongCredentials u), [])))"
  using assms(2,3) advance_request [OF assms(1), where r = "[]"] advance_auth [OF assms(4-7), where r = "[]"]
  by (simp add: numeral_eq_Suc credentials_simps) (simp add: client_defs advance_greeting advance_reply advance_then request_waits)

lemma agree_refused:
  assumes "si_users i \<noteq> []" and "credentials ob = None"
  shows "converse 4 (socks5_connect ob target) [] (socks5_handle i source bound) [] =
    ((Fail AllMethodsRejected, []), (Fail NoAcceptableMethod, []))"
  using assms by (simp add: numeral_eq_Suc credentials_simps) (auto simp: client_defs advance_greeting)

subsection \<open>What the server has seen\<close>

lemma auth_sound:
  assumes "advance (socks5_auth i) input = (out, Ret x, r)"
  shows "\<exists>u p a b. input = [1, a] @ u @ [b] @ p @ r \<and> length u = unat a \<and> length p = unat b \<and>
    (from_utf8_lossy u, from_utf8_lossy p) \<in> set (si_users i)"
  using assms unfolding socks5_auth_def
  by (auto simp: advance_Ret_iffs length_Suc_conv simp del: advance.simps(4,5) split: if_splits)

lemma then_Ret:
  assumes "advance (talk_then t f) buf = (out, Ret y, r)"
  obtains out1 x mid out2 where "advance t buf = (out1, Ret x, mid)" "advance (f x) mid = (out2, Ret y, r)" "out = out1 @ out2"
  using assms by (auto simp: advance_then split: prod.splits talk.splits)

subsection \<open>Datagrams\<close>

lemma drop_header: "drop (3 + length (encode_socks5 a [])) (encode_socks5 a [0, 0, 0] @ d) = d"
  by (simp add: encode_socks5_append [of a "[0, 0, 0]"] numeral_3_eq_3)

lemma header_parsed:
  assumes "socks5_encodable a"
  shows "parse_socks5_udp_addr (drop 3 (encode_socks5 a [0, 0, 0] @ d)) = Inr (a, length (encode_socks5 a []))"
  using parse_encode_socks5 [OF assms, of d] by (simp add: encode_socks5_append [of a "[0, 0, 0]"])

lemma header_shape:
  "(encode_socks5 a [0, 0, 0] @ d) ! 2 = 0" "\<not> length (encode_socks5 a [0, 0, 0] @ d) < 4"
  "\<not> 3 + length (encode_socks5 a []) > length (encode_socks5 a [0, 0, 0] @ d)"
proof -
  have "encode_socks5 a [] \<noteq> []" by (cases a rule: socks5_encodable.cases) auto
  then show "(encode_socks5 a [0, 0, 0] @ d) ! 2 = 0" "\<not> length (encode_socks5 a [0, 0, 0] @ d) < 4"
    "\<not> 3 + length (encode_socks5 a []) > length (encode_socks5 a [0, 0, 0] @ d)"
    by (cases "encode_socks5 a []"; simp add: encode_socks5_append [of a "[0, 0, 0]"])+
qed

section \<open>Properties\<close>

text \<open>C36. A SOCKS5 client and a SOCKS5 server of this program understand each other, whatever their settings: the
  conversation ends after four turns on both sides, without a deadlock and with nothing left unread.  It succeeds
  exactly if the server has no users or the client has the name and password of one of them, and then the server holds
  a session for the target of the client; otherwise both sides end with an error.\<close>

theorem socks5_client_server_agree:
  assumes "socks5_encodable target"
    and "\<And>u p. credentials ob = Some (u, p) \<Longrightarrow>
      length u \<le> 255 \<and> length p \<le> 255 \<and> valid_utf8 (as_bytes u) \<and> valid_utf8 (as_bytes p)"
  shows "converse 4 (socks5_connect ob target) [] (socks5_handle i source bound) [] =
    (if si_users i = [] then ((Ret (), []), (Ret (inbound_session (si_tag i) source target Tcp, None), []))
     else case credentials ob of
       None \<Rightarrow> ((Fail AllMethodsRejected, []), (Fail NoAcceptableMethod, []))
     | Some (u, p) \<Rightarrow>
         if (u, p) \<in> set (si_users i)
         then ((Ret (), []), (Ret (inbound_session (si_tag i) source target Tcp, None), []))
         else ((Fail (AuthStatus 1), []), (Fail (WrongCredentials u), [])))"
proof (cases "si_users i = []")
  case True
  then show ?thesis using agree_without_users [OF assms(1)] by simp
next
  case users: False
  show ?thesis
  proof (cases "credentials ob")
    case None
    then show ?thesis using agree_refused users by simp
  next
    case (Some up)
    then obtain u p where "credentials ob = Some (u, p)" by (cases up) auto
    then show ?thesis using agree_with_user [OF assms(1) users] assms(2) users by simp
  qed
qed

theorem socks5_client_server_agree_witness:
  "converse 4 (socks5_connect \<lparr>so_tag = ''out'', so_server_addr = ''h'', so_server_port = 1080, so_username = Some ''me'',
       so_password = Some ''pw''\<rparr> (Domain ''a.b'' 443)) []
     (socks5_handle \<lparr>si_tag = ''in'', si_users = [(''me'', ''pw'')]\<rparr> (SockV4 1 2) None) [] =
   ((Ret (), []), (Ret (inbound_session ''in'' (SockV4 1 2) (Domain ''a.b'' 443) Tcp, None), []))"
  using socks5_client_server_agree [of "Domain ''a.b'' 443" "\<lparr>so_tag = ''out'', so_server_addr = ''h'', so_server_port = 1080,
      so_username = Some ''me'', so_password = Some ''pw''\<rparr>" "\<lparr>si_tag = ''in'', si_users = [(''me'', ''pw'')]\<rparr>" "SockV4 1 2" None]
  by (simp add: credentials_def as_bytes_def)

text \<open>C37. A SOCKS5 server with users opens no session without credentials: whatever bytes a client sends, if the
  handler returns a session then they contain, after the greeting, the name and the password of a registered user.\<close>

theorem socks5_needs_credentials:
  assumes "advance (socks5_handle i source bound) input = (out, Ret s, rest)" and "si_users i \<noteq> []"
  shows "\<exists>n methods a u b p tail. input = [5, n] @ methods @ [1, a] @ u @ [b] @ p @ tail \<and>
    length methods = unat n \<and> length u = unat a \<and> length p = unat b \<and> (from_utf8_lossy u, from_utf8_lossy p) \<in> set (si_users i)"
proof -
  from assms obtain n methods mid out' where m: "input = [5, n] @ methods @ mid" "length methods = unat n"
    "advance (talk_then (socks5_auth i) (\<lambda>_. socks5_request i source bound)) mid = (out', Ret s, rest)"
    unfolding socks5_handle_def
    by (auto simp: advance_Ret_iffs length_Suc_conv simp del: advance.simps(4,5) split: if_splits)
  from m(3) obtain out1 x tail where "advance (socks5_auth i) mid = (out1, Ret x, tail)" by (rule then_Ret)
  from auth_sound [OF this] m(1,2) show ?thesis by fastforce
qed

theorem socks5_needs_credentials_witness:
  "\<exists>n methods a u b p tail. [5, 1, 2, 1, 1, 97, 1, 98, 5, 1, 0, 1, 1, 2, 3, 4, 0, 80] = [5, n] @ methods @ [1, a] @ u @ [b] @ p @ tail \<and>
    length methods = unat n \<and> length u = unat a \<and> length p = unat b \<and>
    (from_utf8_lossy u, from_utf8_lossy p) \<in> set (si_users \<lparr>si_tag = ''in'', si_users = [(''a'', ''b'')]\<rparr>)"
proof (rule socks5_needs_credentials)
  have "from_utf8_lossy [97] = ''a''" "from_utf8_lossy [98] = ''b''" "from_socks5 1 [1, 2, 3, 4] (from_be [0, 80]) = Inr (Ip (SockV4 0x01020304 80))"
    by code_simp+
  then show "advance (socks5_handle \<lparr>si_tag = ''in'', si_users = [(''a'', ''b'')]\<rparr> (SockV4 1 2) None)
      [5, 1, 2, 1, 1, 97, 1, 98, 5, 1, 0, 1, 1, 2, 3, 4, 0, 80] =
    ([5, 2, 1, 0, 5, 0, 0, 1, 0, 0, 0, 0, 0, 0], Ret (inbound_session ''in'' (SockV4 1 2) (Ip (SockV4 0x01020304 80)) Tcp, None), [])"
    by (simp add: socks5_handle_def socks5_auth_def socks5_request_def read_address_def talk_result_def)
qed simp

text \<open>Datagrams pass both ways unchanged: what the outbound sends for a packet is received by the relay of the
  inbound as that packet when it comes from the host of the control connection, and the answer of the relay, which goes
  to the address the first datagram came from, is received by the outbound as it was sent.\<close>

theorem socks5_datagrams_round_trip:
  assumes "socks5_encodable a" and "socks5_encodable b" and "sock_ip from = sock_ip (sr_source r)" and "sr_client r = None"
  shows "relay_recv r ((from, out_send (a, d)) # ds) = (Some (Inr (a, d), ds), r\<lparr>sr_client := Some from\<rparr>) \<and>
    (\<exists>reply. relay_send (r\<lparr>sr_client := Some from\<rparr>) (b, e) = Inr (from, reply) \<and> out_recv (reply # es) = Some ((b, e), es))"
proof -
  have "relay_recv r ((from, out_send (a, d)) # ds) = (Some (Inr (a, d), ds), r\<lparr>sr_client := Some from\<rparr>)"
    using assms(3,4) header_parsed [OF assms(1)] header_shape [of a d] drop_header [of a d]
    by (simp add: out_send_def Let_def del: drop_append)
  moreover have "out_recv ((encode_socks5 b [0, 0, 0] @ e) # es) = Some ((b, e), es)"
    using header_parsed [OF assms(2)] header_shape [of b e] drop_header [of b e] by (simp del: drop_append)
  ultimately show ?thesis by (simp add: relay_send_def)
qed

theorem socks5_datagrams_round_trip_witness:
  "relay_recv \<lparr>sr_client = None, sr_source = SockV4 7 1000\<rparr> [(SockV4 7 2000, out_send (Domain ''a'' 53, [1, 2]))] =
     (Some (Inr (Domain ''a'' 53, [1, 2]), []), \<lparr>sr_client = Some (SockV4 7 2000), sr_source = SockV4 7 1000\<rparr>)"
  using socks5_datagrams_round_trip [of "Domain ''a'' 53" "Ip (SockV4 1 1)" "SockV4 7 2000"
      "\<lparr>sr_client = None, sr_source = SockV4 7 1000\<rparr>" "[1, 2]" "[]" "[]" "[]"]
  by (simp add: as_bytes_def)

end
