(* ===== verification/TextNum.thy ===== *)
theory TextNum
  imports IpText
begin

text \<open>
  Numbers and IPv4 addresses as text: the parsers of the standard library invert its printers.  Shared by the components
  that read what another one prints.
\<close>

section \<open>Lemmas\<close>

subsection \<open>Numbers\<close>

lemma digit_char_digit [simp]: "n < 10 \<Longrightarrow> is_digit (digit_char n)"
  by (simp add: digit_char_def is_digit_def Let_def)

lemma digit_char_value [simp]: "n < 10 \<Longrightarrow> of_char (digit_char n) = (48 + n :: nat)"
  by (simp add: digit_char_def)

lemma digits_value_snoc [simp]: "digits_value (s @ [c]) = 10 * digits_value s + (of_char c - 48)"
  by (simp add: digits_value_def)

lemma show_nat_small: "n < 10 \<Longrightarrow> show_nat n = [digit_char n]"
  by (simp add: show_nat_def show_nat_base.simps)

lemma show_nat_step: "10 \<le> n \<Longrightarrow> show_nat n = show_nat (n div 10) @ [digit_char (n mod 10)]"
  by (simp add: show_nat_def show_nat_base.simps [of 10 n])

lemma show_nat_induct [case_names small step]:
  assumes "\<And>n. n < 10 \<Longrightarrow> P n" and "\<And>n. 10 \<le> n \<Longrightarrow> P (n div 10) \<Longrightarrow> P n"
  shows "P (n :: nat)"
proof (induction n rule: less_induct)
  case (less n)
  show ?case
  proof (cases "n < 10")
    case False
    then show ?thesis using assms(2) less [of "n div 10"] by simp
  qed (rule assms(1))
qed

lemma show_nat_not_Nil [simp]: "show_nat n \<noteq> []"
  by (cases "n < 10") (simp_all add: show_nat_small show_nat_step)

lemma show_nat_digits [simp]: "list_all is_digit (show_nat n)"
  by (induction n rule: show_nat_induct) (simp_all add: show_nat_small show_nat_step)

lemma digits_value_show_nat [simp]: "digits_value (show_nat n) = n"
proof (induction n rule: show_nat_induct)
  case (small n)
  then show ?case using digits_value_snoc [of "[]" "digit_char n"] by (simp add: show_nat_small digits_value_def)
next
  case (step n)
  then show ?case by (simp add: show_nat_step)
qed

lemma hd_show_nat: "0 < n \<Longrightarrow> hd (show_nat n) \<noteq> CHR ''0''"
proof (induction n rule: show_nat_induct)
  case (small n)
  have "digit_char n \<noteq> CHR ''0''"
  proof
    assume "digit_char n = CHR ''0''"
    then have "of_char (digit_char n) = (of_char (CHR ''0'') :: nat)" by simp
    with small show False by simp
  qed
  with small show ?case by (simp add: show_nat_small)
next
  case (step n)
  then show ?case by (simp add: show_nat_step)
qed

lemma digit_in_show_nat: "c \<in> set (show_nat n) \<Longrightarrow> is_digit c"
  using show_nat_digits [of n] by (simp add: list_all_iff)

lemma hd_show_nat_digit: "is_digit (hd (show_nat n))"
  by (rule digit_in_show_nat [OF hd_in_set]) simp

lemma parse_uint_show_nat [simp]: "n \<le> m \<Longrightarrow> parse_uint m (show_nat n) = Some n"
proof -
  assume "n \<le> m"
  obtain c cs where s: "show_nat n = c # cs" by (cases "show_nat n") auto
  moreover have "c \<noteq> CHR ''+''" using hd_show_nat_digit [of n] s by (auto simp: is_digit_def)
  ultimately have "(case show_nat n of c # cs \<Rightarrow> if c = CHR ''+'' then cs else show_nat n | [] \<Rightarrow> []) = show_nat n" by simp
  with \<open>n \<le> m\<close> show ?thesis by (simp add: parse_uint_def)
qed

lemma length_show_nat: "n < 10 ^ k \<Longrightarrow> 0 < k \<Longrightarrow> length (show_nat n) \<le> k"
proof (induction n arbitrary: k rule: show_nat_induct)
  case (step n)
  then obtain j where "k = Suc j" by (cases k) auto
  moreover from this step have "0 < j" by (cases j) auto
  ultimately show ?case using step by (simp add: show_nat_step less_mult_imp_div_less)
qed (simp add: show_nat_small)

subsection \<open>Separators\<close>

lemma split_on_append: "d \<notin> set w \<Longrightarrow> split_on d (w @ d # s) = w # split_on d s"
  by (induction w) auto

lemma split_on_single: "d \<notin> set w \<Longrightarrow> split_on d w = [w]"
  by (induction w) auto

lemma split_on_join: "ws \<noteq> [] \<Longrightarrow> \<forall>w \<in> set ws. d \<notin> set w \<Longrightarrow> split_on d (join_with [d] ws) = ws"
  by (induction "[d]" ws rule: join_with.induct) (simp_all add: split_on_single split_on_append)

lemma split_once_append: "d \<notin> set a \<Longrightarrow> split_once d (a @ d # b) = Some (a, b)"
  by (induction a) auto

lemma split_once_None: "d \<notin> set s \<Longrightarrow> split_once d s = None"
  by (induction s) auto

subsection \<open>IPv4 addresses\<close>

lemma parse_show_byte [simp]: "parse_dec_octet (show_byte b) = Some b"
proof -
  have b: "unat b < 256" using unsigned_less [of b, where 'a = nat] by simp
  have "length (show_nat (unat b)) \<le> 3" using length_show_nat [of "unat b" 3] b by simp
  moreover have "hd (show_nat (unat b)) \<noteq> CHR ''0''" if "length (show_nat (unat b)) > 1"
    using that hd_show_nat [of "unat b"] by (cases "unat b") (simp_all add: show_nat_small)
  ultimately show ?thesis using b by (simp add: parse_dec_octet_def show_byte_def)
qed

lemma dot_not_in_show_nat: "CHR ''.'' \<notin> set (show_nat n)" "CHR '':'' \<notin> set (show_nat n)"
  using digit_in_show_nat by (fastforce simp: is_digit_def)+

lemma parse_show_v4 [simp]: "parse_ipv4 (show_v4 a) = Some a"
proof -
  have len: "length (v4_octets a) = 4" by simp
  then obtain b c d e where o: "v4_octets a = [b, c, d, e]" by (auto simp del: length_v4_octets simp: numeral_eq_Suc length_Suc_conv)
  have "split_on CHR ''.'' (show_v4 a) = map show_byte (v4_octets a)"
    unfolding show_v4_def by (rule split_on_join) (use o dot_not_in_show_nat in \<open>auto simp: show_byte_def\<close>)
  moreover have "from_be [b, c, d, e] = a" using from_be_v4_octets [of a] o by simp
  ultimately show ?thesis by (simp add: parse_ipv4_def o)
qed

lemma set_join_with: "set (join_with d ws) \<subseteq> set d \<union> \<Union> (set ` set ws)"
  by (induction d ws rule: join_with.induct) auto

lemma show_v4_chars: "c \<in> set (show_v4 a) \<Longrightarrow> is_digit c \<or> c = CHR ''.''"
  using set_join_with [of "''.''" "map show_byte (v4_octets a)"] digit_in_show_nat
  by (fastforce simp: show_v4_def show_byte_def)

end
