(* ===== verification/HttpProxy.thy ===== *)
theory HttpProxy
  imports TextNum Protocols Sniff
begin

text \<open>
  The HTTP proxy, both sides: the inbound \<^verbatim>\<open>src/src/proxy/inbound/http.rs\<close> with CONNECT tunnels and plain requests,
  and the outbound \<^verbatim>\<open>src/src/proxy/outbound/http.rs\<close>.  Both read lines through a buffered reader, which takes from the
  socket a chunk at a time; when the reader is taken apart again what it holds in its buffer is dropped.  A socket is
  the list of chunks that its reads return, none larger than the buffer of the reader, and the end of the list is the end
  of the stream.  The Base64 codec is an
  argument.
\<close>

section \<open>Definitions\<close>

subsection \<open>The buffered reader\<close>

record buf_reader =
  br_buf :: "byte list"
  br_chunks :: "byte list list"

definition reader_new :: "byte list list \<Rightarrow> buf_reader" where
  "reader_new cs = \<lparr>br_buf = [], br_chunks = cs\<rparr>"

fun cut_line :: "byte list \<Rightarrow> (byte list \<times> byte list) option" where
  "cut_line [] = None"
| "cut_line (b # bs) = (if b = 10 then Some ([10], bs) else map_option (\<lambda>(l, r). (b # l, r)) (cut_line bs))"

fun read_until_newline :: "byte list \<Rightarrow> byte list list \<Rightarrow> byte list \<times> buf_reader" where
  "read_until_newline buf [] =
     (case cut_line buf of Some (l, r) \<Rightarrow> (l, \<lparr>br_buf = r, br_chunks = []\<rparr>) | None \<Rightarrow> (buf, \<lparr>br_buf = [], br_chunks = []\<rparr>))"
| "read_until_newline buf (c # cs) =
     (case cut_line buf of
        Some (l, r) \<Rightarrow> (l, \<lparr>br_buf = r, br_chunks = c # cs\<rparr>)
      | None \<Rightarrow> (case read_until_newline c cs of (l, rd) \<Rightarrow> (buf @ l, rd)))"

datatype http_error =
    BadUtf8
  | BadRequestLine
  | AuthRequired
  | BadConnectTarget string
  | MissingHost
  | BadScheme string
  | BodyTooShort
  | BadStatusLine
  | ConnectRefused nat
  | NoUdp
  | NoAddress
  | NoPort

text \<open>\<^verbatim>\<open>read_line\<close>: a line that is not UTF-8 is an error.\<close>

definition read_line :: "buf_reader \<Rightarrow> (http_error, string \<times> buf_reader) result" where
  "read_line r =
     (case read_until_newline (br_buf r) (br_chunks r) of
        (l, r') \<Rightarrow> (case from_utf8 l of Some s \<Rightarrow> Inr (s, r') | None \<Rightarrow> Inl BadUtf8))"

text \<open>\<^verbatim>\<open>read_exact\<close> of a body and taking the reader apart: what its last chunk holds beyond the body is dropped.\<close>

fun read_from_chunks :: "nat \<Rightarrow> byte list list \<Rightarrow> (byte list \<times> byte list list) option" where
  "read_from_chunks n [] = (if n = 0 then Some ([], []) else None)"
| "read_from_chunks n (c # cs) =
     (if n = 0 then Some ([], c # cs)
      else if n \<le> length c then Some (take n c, cs)
      else map_option (\<lambda>(d, r). (c @ d, r)) (read_from_chunks (n - length c) cs))"

definition read_body :: "nat \<Rightarrow> buf_reader \<Rightarrow> (http_error, byte list \<times> byte list list) result" where
  "read_body n r =
     (if n \<le> length (br_buf r) then Inr (take n (br_buf r), br_chunks r)
      else (case read_from_chunks (n - length (br_buf r)) (br_chunks r) of
          Some (d, cs) \<Rightarrow> Inr (br_buf r @ d, cs)
        | None \<Rightarrow> Inl BodyTooShort))"

subsection \<open>Targets\<close>

definition parse_port_digits :: "string \<Rightarrow> u16 option" where
  "parse_port_digits s =
     (if s \<noteq> [] \<and> list_all is_digit s \<and> digits_value s \<le> 65535 then Some (word_of_nat (digits_value s)) else None)"

text \<open>\<^verbatim>\<open>SocketAddr\<close> from a string: an IPv4 address, or an IPv6 address in brackets with an optional scope.\<close>

definition parse_scoped_v6 :: "string \<Rightarrow> (u128 \<times> u32) option" where
  "parse_scoped_v6 s =
     (case split_once CHR ''%'' s of
        None \<Rightarrow> map_option (\<lambda>a. (a, 0)) (parse_ipv6 s)
      | Some (a, sc) \<Rightarrow>
          if sc \<noteq> [] \<and> list_all is_digit sc \<and> digits_value sc < 2 ^ 32
          then map_option (\<lambda>x. (x, word_of_nat (digits_value sc))) (parse_ipv6 a) else None)"

definition parse_socket_addr :: "string \<Rightarrow> socket_addr option" where
  "parse_socket_addr s =
     (case rsplit_colon s of
        None \<Rightarrow> None
      | Some (h, p) \<Rightarrow>
          (case parse_port_digits p of
             None \<Rightarrow> None
           | Some q \<Rightarrow>
               (case parse_ipv4 h of
                  Some a \<Rightarrow> Some (SockV4 a q)
                | None \<Rightarrow>
                    if h \<noteq> [] \<and> hd h = CHR ''['' \<and> length h \<ge> 2 \<and> last h = CHR '']''
                    then map_option (\<lambda>(a, sc). SockV6 a q 0 sc) (parse_scoped_v6 (butlast (tl h)))
                    else None)))"

definition parse_u16 :: "string \<Rightarrow> u16 option" where
  "parse_u16 s = map_option word_of_nat (parse_uint 65535 s)"

definition parse_connect_target :: "string \<Rightarrow> (http_error, address) result" where
  "parse_connect_target s =
     (case parse_socket_addr s of
        Some a \<Rightarrow> Inr (Ip a)
      | None \<Rightarrow>
          (case rsplit_colon s of
             None \<Rightarrow> Inl (BadConnectTarget s)
           | Some (h, p) \<Rightarrow>
               (case parse_u16 p of
                  None \<Rightarrow> Inl (BadConnectTarget s)
                | Some q \<Rightarrow>
                    (case parse_ip h of
                       Some ip \<Rightarrow> Inr (Ip (sock_new ip q))
                     | None \<Rightarrow> Inr (Domain h q)))))"

definition parse_host_port :: "string \<Rightarrow> u16 \<Rightarrow> address" where
  "parse_host_port s default_port =
     (case (case rsplit_colon s of
              None \<Rightarrow> None
            | Some (h, p) \<Rightarrow>
                (case parse_u16 p of
                   None \<Rightarrow> None
                 | Some q \<Rightarrow> Some (case parse_ip h of Some ip \<Rightarrow> Ip (sock_new ip q) | None \<Rightarrow> Domain h q))) of
        Some a \<Rightarrow> a
      | None \<Rightarrow> (case parse_ip s of Some ip \<Rightarrow> Ip (sock_new ip default_port) | None \<Rightarrow> Domain s default_port))"

definition parse_http_url :: "string \<Rightarrow> string option \<Rightarrow> (http_error, address \<times> string) result" where
  "parse_http_url url host_header =
     (if starts_with url ''/'' then
        (case host_header of None \<Rightarrow> Inl MissingHost | Some h \<Rightarrow> Inr (parse_host_port h 80, url))
      else
        (case (case strip_prefix url ''http://'' of Some r \<Rightarrow> Some r | None \<Rightarrow> strip_prefix url ''HTTP://'') of
           None \<Rightarrow> Inl (BadScheme url)
         | Some rest \<Rightarrow>
             (case split_once CHR ''/'' rest of
                Some (h, p) \<Rightarrow> Inr (parse_host_port h 80, CHR ''/'' # p)
              | None \<Rightarrow> Inr (parse_host_port rest 80, ''/''))))"

subsection \<open>The inbound\<close>

record http_inbound =
  hi_tag :: string
  hi_users :: "(string \<times> string) list"

text \<open>\<^term>\<open>dec\<close> is the decoder of the standard Base64 alphabet.\<close>

definition verify_basic_auth :: "(string \<Rightarrow> byte list option) \<Rightarrow> http_inbound \<Rightarrow> string \<Rightarrow> bool" where
  "verify_basic_auth dec i v =
     (case (case strip_prefix v ''Basic '' of Some e \<Rightarrow> Some e | None \<Rightarrow> strip_prefix v ''basic '') of
        None \<Rightarrow> False
      | Some e \<Rightarrow>
          (case dec (trim e) of
             None \<Rightarrow> False
           | Some d \<Rightarrow>
               (case from_utf8 d of
                  None \<Rightarrow> False
                | Some cred \<Rightarrow>
                    (case split_once CHR '':'' cred of
                       None \<Rightarrow> False
                     | Some (u, p) \<Rightarrow> (u, p) \<in> set (hi_users i)))))"

record http_headers =
  hh_forward :: "string list"
  hh_proxy_auth :: "string option"
  hh_host :: "string option"
  hh_content_length :: nat

definition no_headers :: http_headers where
  "no_headers = \<lparr>hh_forward = [], hh_proxy_auth = None, hh_host = None, hh_content_length = 0\<rparr>"

definition after_name :: "string \<Rightarrow> string \<Rightarrow> string" where
  "after_name n line = trim (drop (length n) line)"

definition is_header :: "string \<Rightarrow> string \<Rightarrow> bool" where
  "is_header n line = starts_with (to_lowercase line) n"

definition add_header :: "string \<Rightarrow> http_headers \<Rightarrow> http_headers" where
  "add_header line h =
     (if is_header ''proxy-authorization:'' line then h\<lparr>hh_proxy_auth := Some (after_name ''proxy-authorization:'' line)\<rparr>
      else if is_header ''proxy-connection:'' line then h
      else
        let h1 = (if is_header ''host:'' line then h\<lparr>hh_host := Some (after_name ''host:'' line)\<rparr> else h);
            h2 = (if is_header ''content-length:'' line then
                    (case parse_uint (2 ^ 64 - 1) (after_name ''content-length:'' line) of
                       Some n \<Rightarrow> h1\<lparr>hh_content_length := n\<rparr>
                     | None \<Rightarrow> h1)
                  else h1)
        in h2\<lparr>hh_forward := hh_forward h2 @ [line]\<rparr>)"

text \<open>The loop over the header lines; the end of the stream reads as an empty line, which ends it.  Each turn consumes
  bytes, so that the number of bytes left is a bound on the turns.\<close>

definition bytes_left :: "buf_reader \<Rightarrow> nat" where
  "bytes_left r = length (br_buf r) + length (concat (br_chunks r))"

fun read_headers :: "nat \<Rightarrow> http_headers \<Rightarrow> buf_reader \<Rightarrow> (http_error, http_headers \<times> buf_reader) result option" where
  "read_headers 0 h r = None"
| "read_headers (Suc n) h r =
     (case read_line r of
        Inl e \<Rightarrow> Some (Inl e)
      | Inr (line, r') \<Rightarrow> if trim line = [] then Some (Inr (h, r')) else read_headers n (add_header line h) r')"

text \<open>What the handler hands on: the session, the bytes put in front of the stream, and the chunks still to come; and
  what it has written.  A body length beyond the address space makes the allocation panic.\<close>

record proxy_outcome =
  ho_session :: session
  ho_prefix :: "byte list"
  ho_stream :: "byte list list"

definition reply_407 :: string where
  "reply_407 = ''HTTP/1.1 407 Proxy Authentication Required'' @ [CHR 0x0D, CHR 0x0A] @
     ''Proxy-Authenticate: Basic realm='' @ [CHR 0x22] @ ''proxy'' @ [CHR 0x22, CHR 0x0D, CHR 0x0A] @
     ''Content-Length: 0'' @ [CHR 0x0D, CHR 0x0A, CHR 0x0D, CHR 0x0A]"

definition reply_200 :: string where
  "reply_200 = ''HTTP/1.1 200 Connection Established'' @ [CHR 0x0D, CHR 0x0A, CHR 0x0D, CHR 0x0A]"

definition crlf_str :: string where
  "crlf_str = [CHR 0x0D, CHR 0x0A]"

definition reconstruct :: "string \<Rightarrow> string \<Rightarrow> string \<Rightarrow> string list \<Rightarrow> string" where
  "reconstruct m p version hs = m @ '' '' @ p @ '' '' @ version @ crlf_str @ concat hs @ crlf_str"

definition http_forward :: "http_inbound \<Rightarrow> socket_addr \<Rightarrow> string list \<Rightarrow> http_headers \<Rightarrow> buf_reader \<Rightarrow> (http_error, proxy_outcome) result option" where
  "http_forward i source parts h r =
     (case parse_http_url (parts ! 1) (hh_host h) of
        Inl e \<Rightarrow> Some (Inl e)
      | Inr (target, p) \<Rightarrow>
          if hh_content_length h > 2 ^ 63 - 1 then None
          else (case read_body (hh_content_length h) r of
              Inl e \<Rightarrow> Some (Inl e)
            | Inr (body, cs) \<Rightarrow>
                Some (Inr \<lparr>ho_session = (inbound_session (hi_tag i) source target Tcp)\<lparr>s_detected_protocol := Some ''http''\<rparr>,
                  ho_prefix = as_bytes (reconstruct (parts ! 0) p (parts ! 2) (hh_forward h)) @ body, ho_stream = cs\<rparr>)))"

definition http_handle ::
  "(string \<Rightarrow> byte list option) \<Rightarrow> http_inbound \<Rightarrow> socket_addr \<Rightarrow> byte list list \<Rightarrow> (byte list \<times> (http_error, proxy_outcome) result) option" where
  "http_handle dec i source cs =
     (case read_line (reader_new cs) of
        Inl e \<Rightarrow> Some ([], Inl e)
      | Inr (line, r) \<Rightarrow>
          let parts = split_whitespace (trim line) in
          if length parts < 3 then Some ([], Inl BadRequestLine)
          else (case read_headers (bytes_left r + 1) no_headers r of
              None \<Rightarrow> None
            | Some (Inl e) \<Rightarrow> Some ([], Inl e)
            | Some (Inr (h, r')) \<Rightarrow>
                if hi_users i \<noteq> [] \<and> \<not> (case hh_proxy_auth h of Some v \<Rightarrow> verify_basic_auth dec i v | None \<Rightarrow> False)
                then Some (as_bytes reply_407, Inl AuthRequired)
                else if eq_ignore_ascii_case (parts ! 0) ''CONNECT'' then
                  (case parse_connect_target (parts ! 1) of
                     Inl e \<Rightarrow> Some ([], Inl e)
                   | Inr target \<Rightarrow>
                       Some (as_bytes reply_200, Inr \<lparr>ho_session = inbound_session (hi_tag i) source target Tcp,
                         ho_prefix = [], ho_stream = br_chunks r'\<rparr>))
                else map_option (Pair []) (http_forward i source parts h r')))"

subsection \<open>The outbound\<close>

record http_outbound =
  hb_tag :: string
  hb_server_addr :: string
  hb_server_port :: u16
  hb_username :: "string option"
  hb_password :: "string option"

definition http_outbound_new ::
  "string \<Rightarrow> string option \<Rightarrow> u16 option \<Rightarrow> string option \<Rightarrow> string option \<Rightarrow> (http_error, http_outbound) result" where
  "http_outbound_new tag address p uuid password =
     (case address of
        None \<Rightarrow> Inl NoAddress
      | Some a \<Rightarrow> (case p of
          None \<Rightarrow> Inl NoPort
        | Some q \<Rightarrow> Inr \<lparr>hb_tag = tag, hb_server_addr = a, hb_server_port = q, hb_username = uuid, hb_password = password\<rparr>))"

text \<open>\<^term>\<open>enc\<close> is the Base64 encoder.\<close>

definition connect_request :: "(byte list \<Rightarrow> string) \<Rightarrow> string option \<Rightarrow> string option \<Rightarrow> address \<Rightarrow> string" where
  "connect_request enc user pass target =
     ''CONNECT '' @ show_address target @ '' HTTP/1.1'' @ crlf_str @ ''Host: '' @ show_address target @ crlf_str @
     (case (user, pass) of
        (Some u, Some p) \<Rightarrow> ''Proxy-Authorization: Basic '' @ enc (as_bytes (u @ '':'' @ p)) @ crlf_str
      | _ \<Rightarrow> []) @ crlf_str"

definition status_code :: "string \<Rightarrow> nat option" where
  "status_code line =
     (case split_whitespace line of _ # s # _ \<Rightarrow> parse_uint 65535 s | _ \<Rightarrow> None)"

fun skip_headers :: "nat \<Rightarrow> buf_reader \<Rightarrow> (http_error, buf_reader) result option" where
  "skip_headers 0 r = None"
| "skip_headers (Suc n) r =
     (case read_line r of
        Inl e \<Rightarrow> Some (Inl e)
      | Inr (line, r') \<Rightarrow> if trim line = [] then Some (Inr r') else skip_headers n r')"

definition http_connect :: "(byte list \<Rightarrow> string) \<Rightarrow> http_outbound \<Rightarrow> address \<Rightarrow> byte list list \<Rightarrow>
    byte list \<times> (http_error, byte list list) result option" where
  "http_connect enc ob target cs =
     (as_bytes (connect_request enc (hb_username ob) (hb_password ob) target),
      (case read_line (reader_new cs) of
         Inl e \<Rightarrow> Some (Inl e)
       | Inr (line, r) \<Rightarrow>
           (case status_code line of
              None \<Rightarrow> Some (Inl BadStatusLine)
            | Some c \<Rightarrow>
                if c \<noteq> 200 then Some (Inl (ConnectRefused c))
                else map_option (map_sum id br_chunks) (skip_headers (bytes_left r + 1) r))))"

section \<open>Lemmas\<close>

subsection \<open>Lines\<close>

lemma cut_line_None: "cut_line b = None \<longleftrightarrow> 10 \<notin> set b"
  by (induction b) auto

lemma cut_line_Some: "10 \<notin> set l \<Longrightarrow> cut_line (l @ 10 # r) = Some (l @ [10], r)"
  by (induction l) auto

lemma cut_line_split: "cut_line b = Some (l, r) \<Longrightarrow> b = l @ r \<and> l \<noteq> []"
  by (induction b arbitrary: l r) (auto split: if_splits)

lemma first_separator: "d \<notin> set u \<Longrightarrow> d \<notin> set l \<Longrightarrow> u @ d # v = l @ d # w \<longleftrightarrow> u = l \<and> v = w"
proof (induction u arbitrary: l)
  case Nil
  then show ?case by (cases l) auto
next
  case (Cons x u)
  then show ?case by (cases l) auto
qed

lemma separator_later: "d \<notin> set b \<Longrightarrow> b @ x = l @ d # r \<Longrightarrow> \<exists>l'. l = b @ l' \<and> x = l' @ d # r"
proof (induction b arbitrary: l)
  case (Cons y b)
  then show ?case by (cases l) auto
qed simp

lemma read_newline_spec:
  assumes "10 \<notin> set l" and "buf @ concat cs = l @ 10 # rst"
  shows "\<exists>rest cs'. read_until_newline buf cs = (l @ [10], \<lparr>br_buf = rest, br_chunks = cs'\<rparr>) \<and> rest @ concat cs' = rst \<and> suffix cs' cs"
  using assms
proof (induction cs arbitrary: buf l)
  case Nil
  then show ?case by (simp add: cut_line_Some)
next
  case (Cons c cs)
  show ?case
  proof (cases "10 \<in> set buf")
    case True
    then obtain u v where uv: "buf = u @ 10 # v" "10 \<notin> set u" by (meson split_list_first)
    with Cons.prems have "u @ 10 # (v @ concat (c # cs)) = l @ 10 # rst" by simp
    with first_separator [OF uv(2) Cons.prems(1)] have "u = l" "v @ concat (c # cs) = rst" by blast+
    with uv show ?thesis by (simp add: cut_line_Some)
  next
    case False
    then obtain l' where l': "l = buf @ l'" "c @ concat cs = l' @ 10 # rst"
      using separator_later [of 10 buf "c @ concat cs" l rst] Cons.prems by auto
    with Cons.IH [of l' c] Cons.prems(1) obtain rest cs' where
      "read_until_newline c cs = (l' @ [10], \<lparr>br_buf = rest, br_chunks = cs'\<rparr>)" "rest @ concat cs' = rst" "suffix cs' cs"
      by auto
    with False l'(1) show ?thesis by (auto simp: cut_line_None [symmetric] intro: suffix_ConsI)
  qed
qed

lemma read_newline_bytes:
  "read_until_newline buf cs = (l, r) \<Longrightarrow> length l + bytes_left r = length buf + length (concat cs)"
proof (induction buf cs arbitrary: l r rule: read_until_newline.induct)
  case (1 buf)
  then show ?case by (auto simp: bytes_left_def split: option.splits dest: cut_line_split)
next
  case (2 buf c cs)
  then show ?case
    by (fastforce simp: bytes_left_def split: option.splits prod.splits dest: cut_line_split)
qed

lemma read_line_bytes: "read_line r = Inr (line, r') \<Longrightarrow> length line + bytes_left r' = bytes_left r"
proof -
  assume h: "read_line r = Inr (line, r')"
  then obtain l where l: "read_until_newline (br_buf r) (br_chunks r) = (l, r')" "from_utf8 l = Some line"
    by (auto simp: read_line_def split: prod.splits option.splits)
  then have "length line = length l" by (auto simp: from_utf8_def split: if_splits)
  with read_newline_bytes [OF l(1)] show ?thesis by (simp add: bytes_left_def)
qed

lemma trim_Nil [simp]: "trim [] = []"
  by (simp add: trim_def)

lemma read_headers_total: "bytes_left r < n \<Longrightarrow> read_headers n h r \<noteq> None"
proof (induction n arbitrary: h r)
  case (Suc n)
  show ?case
  proof (cases "read_line r")
    case (Inr x)
    then obtain line r' where x: "read_line r = Inr (line, r')" by (cases x) auto
    show ?thesis
    proof (cases "trim line = []")
      case False
      then have "1 \<le> length line" by (cases line) auto
      with read_line_bytes [OF x] Suc.prems have "bytes_left r' < n" by linarith
      with Suc.IH x False show ?thesis by simp
    qed (simp add: x)
  qed simp
qed simp

lemma skip_is_read: "skip_headers n r = map_option (map_sum id snd) (read_headers n h r)"
  by (induction n arbitrary: h r) (simp_all split: sum.split prod.split)

lemma skip_headers_total: "bytes_left r < n \<Longrightarrow> skip_headers n r \<noteq> None"
  using read_headers_total [of r n no_headers] by (simp add: skip_is_read [of n r no_headers])

subsection \<open>Text\<close>

lemma valid_utf8_append: "valid_utf8 a \<Longrightarrow> valid_utf8 b \<Longrightarrow> valid_utf8 (a @ b)"
proof (induction a rule: valid_utf8.induct)
  case (2 a bs)
  note valid = "2.prems"(1)
  consider (one) "a < 128" | (two) "\<not> a < 128" "194 \<le> a \<and> a \<le> 223" | (three) "\<not> a < 128" "\<not> (194 \<le> a \<and> a \<le> 223)" "224 \<le> a \<and> a \<le> 239"
    | (four) "\<not> a < 128" "\<not> (194 \<le> a \<and> a \<le> 223)" "\<not> (224 \<le> a \<and> a \<le> 239)" "240 \<le> a \<and> a \<le> 244"
    | (bad) "\<not> a < 128" "\<not> (194 \<le> a \<and> a \<le> 223)" "\<not> (224 \<le> a \<and> a \<le> 239)" "\<not> (240 \<le> a \<and> a \<le> 244)" by blast
  then show ?case
  proof cases
    case one
    with 2 show ?thesis by simp
  next
    case two
    from two valid obtain x r where "bs = x # r" "cont_byte x" "valid_utf8 r" by (auto simp: if_not_P split: list.splits)
    with 2 two show ?thesis by (simp add: if_not_P)
  next
    case three
    from three valid obtain x y r where "bs = x # y # r" "cont_byte x \<and> cont_byte y \<and> (a = 224 \<longrightarrow> 160 \<le> x) \<and> (a = 237 \<longrightarrow> x \<le> 159)" "valid_utf8 r"
      by (auto simp: if_not_P split: list.splits)
    with 2 three show ?thesis by (simp add: if_not_P)
  next
    case four
    from four valid obtain x y z r where "bs = x # y # z # r"
      "cont_byte x \<and> cont_byte y \<and> cont_byte z \<and> (a = 240 \<longrightarrow> 144 \<le> x) \<and> (a = 244 \<longrightarrow> x \<le> 143)" "valid_utf8 r"
      by (auto simp: if_not_P split: list.splits)
    with 2 four show ?thesis by (simp add: if_not_P)
  next
    case bad
    from bad valid show ?thesis by (simp add: if_not_P)
  qed
qed simp

lemma as_bytes_append [simp]: "as_bytes (a @ b) = as_bytes a @ as_bytes b"
  by (simp add: as_bytes_def)

lemma as_bytes_Cons [simp]: "as_bytes (c # s) = word_of_nat (of_char c) # as_bytes s"
  by (simp add: as_bytes_def)

lemma as_bytes_newline: "10 \<in> set (as_bytes s) \<longleftrightarrow> CHR 0x0A \<in> set s"
proof -
  have "(word_of_nat (of_char c) :: byte) = 10 \<longleftrightarrow> c = CHR 0x0A" for c
  proof
    assume "(word_of_nat (of_char c) :: byte) = 10"
    then have "unat (word_of_nat (of_char c) :: byte) = 10" by simp
    then have "(of_char c :: nat) = of_char (CHR 0x0A)" by (simp add: unat_of_nat)
    then show "c = CHR 0x0A" by (rule of_char_eq_iff [THEN iffD1])
  qed simp
  then show ?thesis by (auto simp: as_bytes_def image_iff)
qed

lemma trim_pad:
  assumes "list_all is_ws a" and "list_all is_ws b" and "w \<noteq> []" and "\<not> is_ws (hd w)" and "\<not> is_ws (last w)"
  shows "trim (a @ w @ b) = w"
proof -
  have "dropWhile is_ws (a @ w @ b) = w @ b"
    using assms(1,3,4) by (cases w) (simp_all add: dropWhile_append2 list_all_iff)
  moreover have "dropWhile is_ws (rev (w @ b)) = rev w"
    using assms(2,3,5) by (cases w rule: rev_cases) (simp_all add: dropWhile_append2 dropWhile_append list_all_iff)
  ultimately show ?thesis by (simp add: trim_def)
qed

lemma trim_ws: "list_all is_ws s \<Longrightarrow> trim s = []"
  by (auto simp: trim_def list_all_iff dest: set_dropWhileD)

lemma split_ws_word: "list_all (\<lambda>c. \<not> is_ws c) w \<Longrightarrow> split_ws acc (w @ s) = split_ws (rev w @ acc) s"
  by (induction w arbitrary: acc) simp_all

lemma split_whitespace_word:
  assumes "list_all (\<lambda>c. \<not> is_ws c) w" and "w \<noteq> []" and "is_ws c"
  shows "split_whitespace (w @ c # s) = w # split_whitespace s"
  using assms split_ws_word [of w "[]" "c # s"] by (simp add: split_whitespace_def)

lemma split_whitespace_last: "list_all (\<lambda>c. \<not> is_ws c) w \<Longrightarrow> w \<noteq> [] \<Longrightarrow> split_whitespace w = [w]"
  using split_ws_word [of w "[]" "[]"] by (simp add: split_whitespace_def)

lemma rsplit_colon_port: "rsplit_colon (h @ CHR '':'' # show_nat n) = Some (h, show_nat n)"
  using split_once_append [of "CHR '':''" "rev (show_nat n)" "rev h"] dot_not_in_show_nat(2) [of n]
  by (simp add: rsplit_colon_def)

subsection \<open>Reading what was written\<close>

definition stream_of :: "buf_reader \<Rightarrow> byte list" where
  "stream_of r = br_buf r @ concat (br_chunks r)"

definition plain_line :: "string \<Rightarrow> bool" where
  "plain_line l \<longleftrightarrow> CHR 0x0A \<notin> set l \<and> valid_utf8 (as_bytes l)"

lemma read_line_written:
  assumes "stream_of r = as_bytes (l @ [CHR 0x0A]) @ rst" and "plain_line l"
  obtains r' where "read_line r = Inr (l @ [CHR 0x0A], r')" "stream_of r' = rst" "suffix (br_chunks r') (br_chunks r)"
proof -
  have "10 \<notin> set (as_bytes l)" using assms(2) by (simp add: as_bytes_newline plain_line_def)
  moreover have "br_buf r @ concat (br_chunks r) = as_bytes l @ 10 # rst" using assms(1) by (simp add: stream_of_def)
  ultimately obtain rest cs where rd: "read_until_newline (br_buf r) (br_chunks r) = (as_bytes l @ [10], \<lparr>br_buf = rest, br_chunks = cs\<rparr>)"
    "rest @ concat cs = rst" "suffix cs (br_chunks r)"
    using read_newline_spec by blast
  have "valid_utf8 (as_bytes (l @ [CHR 0x0A]))" using assms(2) by (simp add: plain_line_def valid_utf8_append)
  then have "from_utf8 (as_bytes l @ [10]) = Some (l @ [CHR 0x0A])" using from_utf8_as_bytes [of "l @ [CHR 0x0A]"] by simp
  with rd show thesis by (intro that [of "\<lparr>br_buf = rest, br_chunks = cs\<rparr>"]) (simp_all add: read_line_def stream_of_def)
qed

lemma read_headers_written:
  assumes "stream_of r = concat (map (\<lambda>l. as_bytes (l @ [CHR 0x0A])) ls) @ as_bytes crlf_str @ rst"
    and "list_all (\<lambda>l. plain_line l \<and> trim (l @ [CHR 0x0A]) \<noteq> []) ls" and "length ls < n"
  shows "\<exists>r'. read_headers n h r = Some (Inr (fold add_header (map (\<lambda>l. l @ [CHR 0x0A]) ls) h, r')) \<and> stream_of r' = rst \<and>
    suffix (br_chunks r') (br_chunks r)"
  using assms
proof (induction ls arbitrary: n h r)
  case Nil
  then obtain m where n: "n = Suc m" by (cases n) auto
  have "stream_of r = as_bytes ([CHR 0x0D] @ [CHR 0x0A]) @ rst" using Nil.prems(1) by (simp add: crlf_str_def)
  moreover have "plain_line [CHR 0x0D]" by (simp add: plain_line_def)
  ultimately obtain r' where "read_line r = Inr ([CHR 0x0D] @ [CHR 0x0A], r')" "stream_of r' = rst" "suffix (br_chunks r') (br_chunks r)"
    by (rule read_line_written)
  with n show ?case by (simp add: trim_ws is_ws_def)
next
  case (Cons l ls)
  then obtain m where n: "n = Suc m" by (cases n) auto
  let ?rest = "concat (map (\<lambda>l. as_bytes (l @ [CHR 0x0A])) ls) @ as_bytes crlf_str @ rst"
  have "stream_of r = as_bytes (l @ [CHR 0x0A]) @ ?rest" using Cons.prems(1) by simp
  moreover have "plain_line l" using Cons.prems(2) by simp
  ultimately obtain r1 where r1: "read_line r = Inr (l @ [CHR 0x0A], r1)" "stream_of r1 = ?rest" "suffix (br_chunks r1) (br_chunks r)"
    by (rule read_line_written)
  from Cons.IH [OF r1(2)] Cons.prems n obtain r' where
    "read_headers m (add_header (l @ [CHR 0x0A]) h) r1 =
       Some (Inr (fold add_header (map (\<lambda>l. l @ [CHR 0x0A]) ls) (add_header (l @ [CHR 0x0A]) h), r'))"
    "stream_of r' = rst" "suffix (br_chunks r') (br_chunks r1)" by auto
  with r1 n Cons.prems(2) show ?case by (auto intro: suffix_order.trans)
qed

subsection \<open>Targets\<close>

text \<open>The targets whose text names them: IPv4 addresses, and names without white space and colons that are not the text
  of an IPv4 address.\<close>

fun http_target :: "address \<Rightarrow> bool" where
  "http_target (Ip (SockV4 _ _)) = True"
| "http_target (Ip (SockV6 _ _ _ _)) = False"
| "http_target (Domain d _) =
     (d \<noteq> [] \<and> list_all (\<lambda>c. \<not> is_ws c \<and> c \<noteq> CHR '':'') d \<and> valid_utf8 (as_bytes d) \<and> parse_ipv4 d = None)"

lemma split_double_colon_None: "CHR '':'' \<notin> set s \<Longrightarrow> split_double_colon s = None"
  by (induction s) auto

lemma length_hex_group: "parse_hex_group g = Some bs \<Longrightarrow> length bs = 2"
  by (auto simp: parse_hex_group_def Let_def split: if_splits)

lemma parse_ipv6_no_colon: "CHR '':'' \<notin> set s \<Longrightarrow> parse_ipv6 s = None"
  by (auto simp: parse_ipv6_def split_double_colon_None split_on_single dest: length_hex_group split: option.splits)

lemma parse_scoped_no_colon: "CHR '':'' \<notin> set s \<Longrightarrow> parse_scoped_v6 s = None"
proof -
  assume c: "CHR '':'' \<notin> set s"
  have "set a \<subseteq> set s" if "split_once CHR ''%'' s = Some (a, b)" for a b
    using that by (induction s arbitrary: a) (auto split: if_splits)
  with c have "parse_ipv6 a = None" if "split_once CHR ''%'' s = Some (a, b)" for a b
    using that by (intro parse_ipv6_no_colon) blast
  with c show ?thesis by (auto simp: parse_scoped_v6_def parse_ipv6_no_colon split: option.split)
qed

lemma port_text:
  "parse_port_digits (show_nat (unat (p :: u16))) = Some p" "parse_u16 (show_nat (unat p)) = Some p"
proof -
  have "unat p \<le> 65535" using unsigned_less [of p, where 'a = nat] by simp
  then show "parse_port_digits (show_nat (unat p)) = Some p" "parse_u16 (show_nat (unat p)) = Some p"
    by (simp_all add: parse_port_digits_def parse_u16_def)
qed

lemma parse_shown_target:
  assumes "http_target t"
  shows "parse_connect_target (show_address t) = Inr t"
  using assms
proof (cases t rule: http_target.cases)
  case (1 a p)
  then show ?thesis by (simp add: parse_connect_target_def parse_socket_addr_def rsplit_colon_port port_text)
next
  case (3 d p)
  then have d: "CHR '':'' \<notin> set d" "parse_ipv4 d = None" using assms by (auto simp: list_all_iff)
  then have "CHR '':'' \<notin> set (butlast (tl d))" by (cases d) (auto dest: in_set_butlastD)
  with d have "parse_socket_addr (show_address t) = None" "parse_ip d = None"
    using 3 by (simp_all add: parse_socket_addr_def rsplit_colon_port port_text parse_scoped_no_colon parse_ip_def parse_ipv6_no_colon)
  with 3 show ?thesis by (simp add: parse_connect_target_def rsplit_colon_port port_text)
qed simp

lemma digit_plain: "is_digit c \<Longrightarrow> \<not> is_ws c \<and> c \<noteq> CHR 0x0A \<and> (of_char c :: nat) < 128"
  by (auto simp: is_digit_def is_ws_def Let_def)

lemma ascii_utf8: "\<forall>c \<in> set s. (of_char c :: nat) < 128 \<Longrightarrow> valid_utf8 (as_bytes s)"
proof (rule valid_utf8_ascii, rule ballI)
  fix b
  assume "\<forall>c \<in> set s. (of_char c :: nat) < 128" "b \<in> set (as_bytes s)"
  then show "b < 128" by (auto simp: as_bytes_def word_less_nat_alt unat_of_nat)
qed

lemma show_nat_plain: "list_all (\<lambda>c. \<not> is_ws c) (show_nat n)" "valid_utf8 (as_bytes (show_nat n))"
  using digit_plain digit_in_show_nat by (auto simp: list_all_iff intro!: ascii_utf8)

lemma shown_target_plain:
  assumes "http_target t"
  shows "list_all (\<lambda>c. \<not> is_ws c) (show_address t)" "valid_utf8 (as_bytes (show_address t))" "show_address t \<noteq> []"
proof -
  have v4: "list_all (\<lambda>c. \<not> is_ws c) (show_v4 a)" "valid_utf8 (as_bytes (show_v4 a))" for a
  proof -
    have "\<not> is_ws c \<and> (of_char c :: nat) < 128" if "c \<in> set (show_v4 a)" for c
      using show_v4_chars [OF that] digit_plain [of c] by (auto simp: is_ws_def)
    then show "list_all (\<lambda>c. \<not> is_ws c) (show_v4 a)" "valid_utf8 (as_bytes (show_v4 a))"
      by (auto simp: list_all_iff intro!: ascii_utf8)
  qed
  show "list_all (\<lambda>c. \<not> is_ws c) (show_address t)" "valid_utf8 (as_bytes (show_address t))" "show_address t \<noteq> []"
    using assms v4 show_nat_plain
    by (cases t rule: http_target.cases; fastforce simp: list_all_iff is_ws_def intro!: valid_utf8_append)+
qed

subsection \<open>The request\<close>

text \<open>What is relied on of Base64: decoding inverts encoding, and the encoding is a text of ASCII characters without white
  space, empty only for nothing.\<close>

definition base64_like :: "(byte list \<Rightarrow> string) \<Rightarrow> (string \<Rightarrow> byte list option) \<Rightarrow> bool" where
  "base64_like enc dec \<longleftrightarrow>
     (\<forall>x. dec (enc x) = Some x \<and> list_all (\<lambda>c. \<not> is_ws c \<and> (of_char c :: nat) < 128) (enc x) \<and> (enc x = [] \<longrightarrow> x = []))"

abbreviation cr :: char where
  "cr \<equiv> CHR 0x0D"

definition request_line :: "address \<Rightarrow> string" where
  "request_line t = ''CONNECT '' @ show_address t @ '' HTTP/1.1'' @ [cr]"

definition request_headers :: "(byte list \<Rightarrow> string) \<Rightarrow> string option \<Rightarrow> string option \<Rightarrow> address \<Rightarrow> string list" where
  "request_headers enc user pass t =
     [''Host: '' @ show_address t @ [cr]] @
     (case (user, pass) of (Some u, Some p) \<Rightarrow> [''Proxy-Authorization: Basic '' @ enc (as_bytes (u @ '':'' @ p)) @ [cr]] | _ \<Rightarrow> [])"

lemma request_text:
  "connect_request enc user pass t =
     (request_line t @ [CHR 0x0A]) @ concat (map (\<lambda>l. l @ [CHR 0x0A]) (request_headers enc user pass t)) @ crlf_str"
  by (auto simp: connect_request_def request_line_def request_headers_def crlf_str_def split: option.split)

lemma http_request_bytes:
  "as_bytes (connect_request enc user pass t) =
     as_bytes (request_line t @ [CHR 0x0A]) @ concat (map (\<lambda>l. as_bytes (l @ [CHR 0x0A])) (request_headers enc user pass t)) @ as_bytes crlf_str"
proof -
  have "as_bytes (concat ls) = concat (map as_bytes ls)" for ls by (induction ls) simp_all
  then show ?thesis by (simp add: request_text comp_def)
qed

lemma ws_newline: "is_ws (CHR 0x0A)" "is_ws cr" "is_ws (CHR '' '')"
  by (simp_all add: is_ws_def)

lemma no_newline: "list_all (\<lambda>c. \<not> is_ws c) s \<Longrightarrow> CHR 0x0A \<notin> set s"
  using ws_newline(1) by (auto simp: list_all_iff)

lemma request_line_plain:
  assumes "http_target t"
  shows "plain_line (request_line t)" "split_whitespace (trim (request_line t @ [CHR 0x0A])) = [''CONNECT'', show_address t, ''HTTP/1.1'']"
proof -
  note t = shown_target_plain [OF assms]
  have h: "split_whitespace ''HTTP/1.1'' = [''HTTP/1.1'']" by (rule split_whitespace_last) (simp_all add: is_ws_def)
  show "plain_line (request_line t)"
    using t no_newline [OF t(1)] by (auto simp: plain_line_def request_line_def intro!: valid_utf8_append)
  have "trim ([] @ (''CONNECT '' @ show_address t @ '' HTTP/1.1'') @ [cr, CHR 0x0A]) = ''CONNECT '' @ show_address t @ '' HTTP/1.1''"
    by (rule trim_pad) (simp_all add: is_ws_def)
  then have "trim (request_line t @ [CHR 0x0A]) = ''CONNECT'' @ CHR '' '' # (show_address t @ CHR '' '' # ''HTTP/1.1'')"
    by (simp add: request_line_def)
  moreover have "split_whitespace (''CONNECT'' @ CHR '' '' # (show_address t @ CHR '' '' # ''HTTP/1.1'')) =
      ''CONNECT'' # split_whitespace (show_address t @ CHR '' '' # ''HTTP/1.1'')"
    by (rule split_whitespace_word) (simp_all add: is_ws_def)
  moreover have "split_whitespace (show_address t @ CHR '' '' # ''HTTP/1.1'') = show_address t # split_whitespace ''HTTP/1.1''"
    by (rule split_whitespace_word [OF t(1,3) ws_newline(3)])
  ultimately show "split_whitespace (trim (request_line t @ [CHR 0x0A])) = [''CONNECT'', show_address t, ''HTTP/1.1'']"
    using h by simp
qed

lemma trim_nonempty: "c \<in> set s \<Longrightarrow> \<not> is_ws c \<Longrightarrow> trim s \<noteq> []"
proof
  assume c: "c \<in> set s" "\<not> is_ws c" and "trim s = []"
  then have "\<forall>x \<in> set (dropWhile is_ws s). is_ws x" by (simp add: trim_def)
  with c show False by (metis dropWhile_eq_Nil_conv hd_dropWhile list.set_sel(1))
qed

lemma request_headers_plain:
  assumes "http_target t" and "base64_like enc dec"
  shows "list_all (\<lambda>l. plain_line l \<and> trim (l @ [CHR 0x0A]) \<noteq> []) (request_headers enc user pass t)"
proof -
  note t = shown_target_plain [OF assms(1)]
  have e: "list_all (\<lambda>c. \<not> is_ws c) (enc x)" "valid_utf8 (as_bytes (enc x))" for x
    using assms(2) by (auto simp: base64_like_def list_all_iff intro!: ascii_utf8)
  have "plain_line (''Host: '' @ show_address t @ [cr])"
    using t no_newline [OF t(1)] by (auto simp: plain_line_def intro!: valid_utf8_append)
  moreover have "plain_line (''Proxy-Authorization: Basic '' @ enc x @ [cr])" for x
    using e [of x] no_newline [OF e(1) [of x]] by (auto simp: plain_line_def intro!: valid_utf8_append)
  moreover have "trim (''Host: '' @ show_address t @ [cr, CHR 0x0A]) \<noteq> []"
    by (rule trim_nonempty [of "CHR ''H''"]) (simp_all add: is_ws_def)
  moreover have "trim (''Proxy-Authorization: Basic '' @ enc x @ [cr, CHR 0x0A]) \<noteq> []" for x
    by (rule trim_nonempty [of "CHR ''P''"]) (simp_all add: is_ws_def)
  ultimately show ?thesis by (simp add: request_headers_def split: option.split)
qed

lemma host_keeps_auth: "hh_proxy_auth (add_header (''Host: '' @ s) h) = hh_proxy_auth h"
  by (simp add: add_header_def is_header_def starts_with_def to_lowercase_def to_lower_char_def Let_def split: option.split)

lemma is_header_name: "to_lowercase n' = n \<Longrightarrow> is_header n (n' @ s)"
  by (auto simp: is_header_def starts_with_def to_lowercase_def)

lemma auth_header:
  assumes "e \<noteq> []" and "list_all (\<lambda>c. \<not> is_ws c) e"
  shows "hh_proxy_auth (add_header (''Proxy-Authorization: Basic '' @ e @ [cr, CHR 0x0A]) h) = Some (''Basic '' @ e)"
proof -
  have "is_ws (last e) = False" using assms by (simp add: list_all_iff)
  then have "trim ('' '' @ (''Basic '' @ e) @ [cr, CHR 0x0A]) = ''Basic '' @ e"
    using assms(1) by (intro trim_pad) (simp_all add: is_ws_def)
  moreover have "to_lowercase ''Proxy-Authorization:'' = ''proxy-authorization:''" by code_simp
  then have "is_header ''proxy-authorization:'' (''Proxy-Authorization: Basic '' @ e @ [cr, CHR 0x0A])"
    using is_header_name [of "''Proxy-Authorization:''" _ "'' Basic '' @ e @ [cr, CHR 0x0A]"] by simp
  ultimately show ?thesis by (simp add: add_header_def after_name_def)
qed

lemma verify_credentials:
  assumes "base64_like enc dec" and "CHR '':'' \<notin> set u" and "valid_utf8 (as_bytes (u @ '':'' @ p))"
  shows "verify_basic_auth dec i (''Basic '' @ enc (as_bytes (u @ '':'' @ p))) \<longleftrightarrow> (u, p) \<in> set (hi_users i)"
proof -
  let ?e = "enc (as_bytes (u @ '':'' @ p))"
  have e: "dec ?e = Some (as_bytes (u @ '':'' @ p))" "list_all (\<lambda>c. \<not> is_ws c) ?e" "?e \<noteq> []"
    using assms(1) by (auto simp: base64_like_def list_all_iff)
  then have "trim ?e = ?e" using trim_pad [of "[]" "[]" ?e] by (simp add: list_all_iff)
  moreover have "from_utf8 (as_bytes (u @ '':'' @ p)) = Some (u @ '':'' @ p)" using assms(3) by (rule from_utf8_as_bytes)
  moreover have "split_once CHR '':'' (u @ '':'' @ p) = Some (u, p)" using split_once_append [OF assms(2), of p] by simp
  moreover have "strip_prefix (''Basic '' @ ?e) ''Basic '' = Some ?e" by (simp add: strip_prefix_def starts_with_def)
  ultimately show ?thesis unfolding verify_basic_auth_def using e(1) by (simp del: as_bytes_append append.simps)
qed

lemma request_auth:
  assumes "base64_like enc dec"
  shows "hh_proxy_auth (fold add_header (map (\<lambda>l. l @ [CHR 0x0A]) (request_headers enc user pass t)) no_headers) =
    (case (user, pass) of (Some u, Some p) \<Rightarrow> Some (''Basic '' @ enc (as_bytes (u @ '':'' @ p))) | _ \<Rightarrow> None)"
proof -
  have e: "list_all (\<lambda>c. \<not> is_ws c) (enc (as_bytes (u @ '':'' @ p)))" "enc (as_bytes (u @ '':'' @ p)) \<noteq> []" for u p
    using assms by (auto simp: base64_like_def list_all_iff)
  have h: "hh_proxy_auth (add_header (''Host: '' @ show_address t @ [cr, CHR 0x0A]) no_headers) = None"
    using host_keeps_auth [of "show_address t @ [cr, CHR 0x0A]" no_headers] by (simp add: no_headers_def)
  show ?thesis
  proof (cases "(user, pass)")
    case (Pair x y)
    then show ?thesis
      using h auth_header [OF e(2) e(1)] by (cases x; cases y) (simp_all add: request_headers_def)
  qed
qed

subsection \<open>The tunnel\<close>

lemma handle_connect:
  assumes "read_line (reader_new cs) = Inr (line, r)" and "split_whitespace (trim line) = [m, t, v]"
    and "read_headers (bytes_left r + 1) no_headers r = Some (Inr (h, r'))" and "eq_ignore_ascii_case m ''CONNECT''"
    and "parse_connect_target t = Inr a" and "hi_users i = [] \<or> (\<exists>x. hh_proxy_auth h = Some x \<and> verify_basic_auth dec i x)"
  shows "http_handle dec i source cs = Some (as_bytes reply_200,
    Inr \<lparr>ho_session = inbound_session (hi_tag i) source a Tcp, ho_prefix = [], ho_stream = br_chunks r'\<rparr>)"
  using assms by (auto simp: http_handle_def Let_def simp del: read_headers.simps)

lemma handle_forward:
  assumes "read_line (reader_new cs) = Inr (line, r)" and "split_whitespace (trim line) = [m, t, v]"
    and "read_headers (bytes_left r + 1) no_headers r = Some (Inr (h, r'))" and "\<not> eq_ignore_ascii_case m ''CONNECT''"
    and "http_forward i source [m, t, v] h r' = Some (Inr out)" and "hi_users i = []"
  shows "http_handle dec i source cs = Some ([], Inr out)"
  using assms by (auto simp: http_handle_def Let_def simp del: read_headers.simps)

lemma length_lines: "length ls \<le> length (concat (map (\<lambda>l. as_bytes (l @ [CHR 0x0A])) ls))"
  by (induction ls) simp_all

lemma request_read:
  assumes "base64_like enc dec" and "http_target t" and "concat cs = as_bytes (connect_request enc user pass t) @ early"
  obtains r r' where "read_line (reader_new cs) = Inr (request_line t @ [CHR 0x0A], r)"
    "read_headers (bytes_left r + 1) no_headers r =
       Some (Inr (fold add_header (map (\<lambda>l. l @ [CHR 0x0A]) (request_headers enc user pass t)) no_headers, r'))"
    "stream_of r' = early" "suffix (br_chunks r') cs"
proof -
  let ?ls = "request_headers enc user pass t"
  let ?rest = "concat (map (\<lambda>l. as_bytes (l @ [CHR 0x0A])) ?ls) @ as_bytes crlf_str @ early"
  have "stream_of (reader_new cs) = as_bytes (request_line t @ [CHR 0x0A]) @ ?rest"
    using assms(3) by (simp add: stream_of_def reader_new_def http_request_bytes)
  then obtain r where r: "read_line (reader_new cs) = Inr (request_line t @ [CHR 0x0A], r)" "stream_of r = ?rest"
    "suffix (br_chunks r) (br_chunks (reader_new cs))"
    using request_line_plain(1) [OF assms(2)] by (rule read_line_written)
  have "length ?ls \<le> length (stream_of r)" using length_lines [of ?ls] by (simp add: r(2))
  then have "length ?ls < bytes_left r + 1" by (simp add: stream_of_def bytes_left_def)
  from read_headers_written [OF r(2) request_headers_plain [OF assms(2,1)] this, of no_headers] obtain r' where
    "read_headers (bytes_left r + 1) no_headers r = Some (Inr (fold add_header (map (\<lambda>l. l @ [CHR 0x0A]) ?ls) no_headers, r'))"
    "stream_of r' = early" "suffix (br_chunks r') (br_chunks r)" by blast
  then show thesis using suffix_order.trans [of "br_chunks r'" "br_chunks r" cs] r(3) by (intro that [OF r(1)]) (simp_all add: reader_new_def)
qed

lemma one_chunk_consumed:
  assumes "suffix (br_chunks r) cs" and "length cs = 1" and "length (stream_of r) < length (concat cs)"
  shows "br_chunks r = []"
proof (rule ccontr)
  assume "br_chunks r \<noteq> []"
  with assms(1,2) have "br_chunks r = cs" by (cases cs) (auto simp: suffix_Cons)
  with assms(3) show False by (simp add: stream_of_def)
qed

lemma client_accepts: "snd (http_connect enc ob t [as_bytes reply_200]) = Some (Inr [])"
proof -
  let ?l = "''HTTP/1.1 200 Connection Established'' @ [cr]" and ?cs = "[as_bytes reply_200]"
  have "stream_of (reader_new ?cs) = as_bytes (?l @ [CHR 0x0A]) @ as_bytes crlf_str"
    by (simp add: stream_of_def reader_new_def reply_200_def crlf_str_def)
  moreover have "plain_line ?l" by (simp add: plain_line_def)
  ultimately obtain r where r: "read_line (reader_new ?cs) = Inr (?l @ [CHR 0x0A], r)" "stream_of r = as_bytes crlf_str"
    "suffix (br_chunks r) (br_chunks (reader_new ?cs))" by (rule read_line_written)
  from read_headers_written [of r "[]" "[]" "bytes_left r + 1" no_headers] r(2) obtain r' where
    "read_headers (bytes_left r + 1) no_headers r = Some (Inr (no_headers, r'))" "stream_of r' = []" "suffix (br_chunks r') (br_chunks r)"
    by auto
  moreover from this r(3) have "br_chunks r' = []"
    by (intro one_chunk_consumed [of r' ?cs]) (auto simp: reader_new_def reply_200_def intro: suffix_order.trans)
  moreover have "status_code (?l @ [CHR 0x0A]) = Some 200"
    by (simp add: status_code_def split_whitespace_def is_ws_def parse_uint_def digits_value_def is_digit_def)
  ultimately show ?thesis by (simp add: http_connect_def r(1) skip_is_read [of _ _ no_headers] del: skip_headers.simps read_headers.simps)
qed

lemma read_headers_clean:
  assumes "read_headers n h r = Some (Inr (h', r'))"
    and "list_all (\<lambda>l. \<not> is_header ''proxy-authorization:'' l \<and> \<not> is_header ''proxy-connection:'' l) (hh_forward h)"
  shows "list_all (\<lambda>l. \<not> is_header ''proxy-authorization:'' l \<and> \<not> is_header ''proxy-connection:'' l) (hh_forward h')"
  using assms
proof (induction n arbitrary: h r)
  case (Suc n)
  have "list_all (\<lambda>l. \<not> is_header ''proxy-authorization:'' l \<and> \<not> is_header ''proxy-connection:'' l) (hh_forward (add_header line h))" for line
    using Suc.prems(2) by (simp add: add_header_def Let_def split: option.split)
  with Suc show ?case by (auto split: sum.splits prod.splits if_splits)
qed simp

text \<open>A codec with the laws relied on: two letters for the two halves of each byte.\<close>

fun pairs_of :: "'a list \<Rightarrow> ('a \<times> 'a) list" where
  "pairs_of (a # b # r) = (a, b) # pairs_of r"
| "pairs_of _ = []"

definition nibbles_enc :: "byte list \<Rightarrow> string" where
  "nibbles_enc = (\<lambda>bs. concat (map (\<lambda>b. [char_of (64 + unat b div 16), char_of (64 + unat b mod 16)]) bs))"

definition nibbles_dec :: "string \<Rightarrow> byte list option" where
  "nibbles_dec = (\<lambda>s. Some (map (\<lambda>(a, b). word_of_nat (16 * (of_char a - 64) + (of_char b - 64))) (pairs_of s)))"

lemma nibbles_base64_like: "base64_like nibbles_enc nibbles_dec"
proof -
  have b: "unat b div 16 < 16" for b :: byte
    using unsigned_less [of b, where 'a = nat] by (simp add: less_mult_imp_div_less)
  have "nibbles_dec (nibbles_enc x) = Some x" for x
  proof (induction x)
    case (Cons a x)
    have "16 * word_of_nat (unat a div 16) + word_of_nat (unat a mod 16) = (word_of_nat (16 * (unat a div 16) + unat a mod 16) :: byte)"
      by (simp only: of_nat_add of_nat_mult of_nat_numeral)
    also have "\<dots> = a" by (simp only: mult_div_mod_eq) simp
    finally show ?case using b [of a] Cons by (simp add: nibbles_enc_def nibbles_dec_def)
  qed (simp add: nibbles_enc_def nibbles_dec_def)
  moreover have "list_all (\<lambda>c. \<not> is_ws c \<and> (of_char c :: nat) < 128) (nibbles_enc x)" for x
  proof (induction x)
    case (Cons a x)
    then show ?case using b [of a] by (simp add: nibbles_enc_def is_ws_def Let_def)
  qed (simp add: nibbles_enc_def)
  moreover have "nibbles_enc x = [] \<longrightarrow> x = []" for x by (cases x) (simp_all add: nibbles_enc_def)
  ultimately show ?thesis by (simp add: base64_like_def)
qed

section \<open>Properties\<close>





end
