(* ===== verification/Chain.thy ===== *)
theory Chain
  imports Socks HttpProxy OutboundManager
begin

text \<open>
  Proxy chains, \<^verbatim>\<open>src/src/proxy/outbound/chain.rs\<close>: the first hop is asked for the server of the second one, each
  further hop for the server of the hop after it, and the last one for the target of the session.  The handshake with
  a hop is a party of a conversation over the stream the hops before it have opened.  The TLS handshake, the parser of
  identifiers, the digest and the Base64 encoder are arguments.
\<close>

section \<open>Definitions\<close>

datatype chain_error =
    EmptyChain
  | NoEndpoint string
  | HopMissingAddress string
  | HopMissingPort string
  | UnknownHop string
  | UnsupportedHop string string
  | HopSocks socks_error
  | SocksRefused "byte list"
  | HopHttpTooLarge
  | HopHttpStatus string
  | HopBadStatus
  | HopTransport string
  | HopReality
  | HopNoSni
  | HopTls string
  | HopMissingUuid
  | HopBadUuid string
  | HopMissingPassword
  | HopVersion byte
  | FirstHop string

record hop_config = outbound_config +
  hp_address :: "string option"
  hp_port :: "u16 option"
  hp_socks_port :: "u16 option"
  hp_uuid :: "string option"
  hp_password :: "string option"
  hp_tls_sni :: "string option"
  hp_sni :: "string option"

text \<open>What a handshake wraps around the stream; the bytes of a conversation are those inside the layers opened so far.\<close>

datatype layer = TlsLayer string | VisionLayer "byte list"

record chain_env =
  ce_tls :: "string \<Rightarrow> string option"
  ce_uuid :: "string \<Rightarrow> byte list option"
  ce_sha224 :: "byte list \<Rightarrow> byte list"
  ce_base64 :: "byte list \<Rightarrow> string"

definition chain_new :: "string list \<Rightarrow> (chain_error, string list) result" where
  "chain_new tags = (if tags = [] then Inl EmptyChain else Inr tags)"

text \<open>The health of a chain: hops are tested in order until one fails; \<^term>\<open>test\<close> is the measured latency.\<close>

record hop_result =
  hr_name :: string
  hr_latency :: "nat option"
  hr_healthy :: bool

record chain_health =
  cr_healthy :: bool
  cr_hops :: "hop_result list"
  cr_total :: "nat option"

fun test_hops :: "(string \<Rightarrow> nat option) \<Rightarrow> hop_result list \<Rightarrow> string list \<Rightarrow> chain_health" where
  "test_hops test acc [] =
     \<lparr>cr_healthy = True, cr_hops = acc, cr_total = Some (sum_list (map (\<lambda>r. case hr_latency r of Some l \<Rightarrow> l | None \<Rightarrow> 0) acc))\<rparr>"
| "test_hops test acc (h # hs) =
     (let r = \<lparr>hr_name = h, hr_latency = test h, hr_healthy = (test h \<noteq> None)\<rparr> in
      if test h = None then \<lparr>cr_healthy = False, cr_hops = acc @ [r], cr_total = None\<rparr>
      else test_hops test (acc @ [r]) hs)"

definition chain_health_check :: "(string \<Rightarrow> nat option) \<Rightarrow> string list \<Rightarrow> chain_health" where
  "chain_health_check test tags = test_hops test [] tags"

definition build_hop_session :: "session \<Rightarrow> address \<Rightarrow> session" where
  "build_hop_session base target = base\<lparr>s_target := target, s_detected_protocol := None\<rparr>"

definition resolve_hop_server_target :: "hop_config \<Rightarrow> (chain_error, address) result" where
  "resolve_hop_server_target c =
     (let protocol = to_lowercase (oc_protocol c) in
      if protocol = ''tor'' then
        Inr (Domain (case hp_address c of Some a \<Rightarrow> a | None \<Rightarrow> ''127.0.0.1'') (case hp_socks_port c of Some p \<Rightarrow> p | None \<Rightarrow> 9050))
      else if protocol = ''direct'' then Inl (NoEndpoint (oc_tag c))
      else (case hp_address c of
          None \<Rightarrow> Inl (HopMissingAddress (oc_tag c))
        | Some a \<Rightarrow> (case hp_port c of None \<Rightarrow> Inl (HopMissingPort (oc_tag c)) | Some p \<Rightarrow> Inr (Domain a p))))"

subsection \<open>The handshakes\<close>

primrec read_http_header :: "nat \<Rightarrow> byte list \<Rightarrow> (chain_error, byte list) talk" where
  "read_http_header 0 acc = Fail HopHttpTooLarge"
| "read_http_header (Suc n) acc =
     Get 1 (\<lambda>b. if suffix [13, 10, 13, 10] (acc @ b) then Ret (acc @ b) else read_http_header n (acc @ b))"

definition http_connect_over_stream :: "chain_env \<Rightarrow> hop_config \<Rightarrow> address \<Rightarrow> (chain_error, layer list) talk" where
  "http_connect_over_stream e c target =
     Put (as_bytes (connect_request (ce_base64 e) (hp_uuid c) (hp_password c) target))
       (talk_then (read_http_header 16384 []) (\<lambda>header.
          let line = (case str_lines (from_utf8_lossy header) of l # _ \<Rightarrow> l | [] \<Rightarrow> []) in
          (case status_code line of
             None \<Rightarrow> Fail HopBadStatus
           | Some s \<Rightarrow> if s \<noteq> 200 then Fail (HopHttpStatus line) else Ret [])))"

fun socks5_target_bytes :: "address \<Rightarrow> byte list" where
  "socks5_target_bytes (Ip (SockV4 a p)) = [1] @ v4_octets a @ to_be 2 p"
| "socks5_target_bytes (Ip (SockV6 a p _ _)) = [4] @ v6_octets a @ to_be 2 p"
| "socks5_target_bytes (Domain d p) = [3, word_of_nat (length d)] @ as_bytes d @ to_be 2 p"

text \<open>The reply of a server is skipped by its address type; an unknown type is taken for an empty address.\<close>

definition socks5_connect_over_stream :: "address \<Rightarrow> (chain_error, layer list) talk" where
  "socks5_connect_over_stream target =
     Put [5, 1, 0] (Get 2 (\<lambda>auth.
       if auth \<noteq> [5, 0] then Fail (SocksRefused auth)
       else Put ([5, 1, 0] @ socks5_target_bytes target) (Get 4 (\<lambda>resp.
         if resp ! 1 \<noteq> 0 then Fail (SocksRefused resp)
         else if resp ! 3 = 1 then Get 6 (\<lambda>_. Ret [])
         else if resp ! 3 = 3 then Get 1 (\<lambda>n. Get (unat (hd n) + 2) (\<lambda>_. Ret []))
         else if resp ! 3 = 4 then Get 18 (\<lambda>_. Ret [])
         else Ret []))))"

definition effective_transport :: "hop_config \<Rightarrow> string" where
  "effective_transport c = (case oc_transport c of Some t \<Rightarrow> t | None \<Rightarrow> [])"

definition effective_tls :: "hop_config \<Rightarrow> bool \<times> string" where
  "effective_tls c =
     (case oc_tls c of
        Some t \<Rightarrow> t
      | None \<Rightarrow>
          let security = (case oc_security c of Some s \<Rightarrow> s | None \<Rightarrow> []) in
          (security \<noteq> [] \<and> security \<noteq> ''none'', if security = [] then ''tls'' else security))"

definition effective_sni :: "hop_config \<Rightarrow> string option" where
  "effective_sni c = (case oc_tls c of Some _ \<Rightarrow> hp_tls_sni c | None \<Rightarrow> hp_sni c)"

definition maybe_wrap_tls :: "chain_env \<Rightarrow> hop_config \<Rightarrow> bool \<times> string \<Rightarrow> (chain_error, layer list) result" where
  "maybe_wrap_tls e c tls =
     (if effective_transport c \<noteq> ''tcp'' \<and> effective_transport c \<noteq> [] then Inl (HopTransport (effective_transport c))
      else if \<not> fst tls then Inr []
      else if snd tls = ''reality'' then Inl HopReality
      else (case (case effective_sni c of Some s \<Rightarrow> Some s | None \<Rightarrow> hp_address c) of
          None \<Rightarrow> Inl HopNoSni
        | Some sni \<Rightarrow> (case ce_tls e sni of Some err \<Rightarrow> Inl (HopTls err) | None \<Rightarrow> Inr [TlsLayer sni])))"

definition vless_connect_over_stream :: "chain_env \<Rightarrow> hop_config \<Rightarrow> address \<Rightarrow> (chain_error, layer list) talk" where
  "vless_connect_over_stream e c target =
     (let tls0 = effective_tls c; tls = (if \<not> fst tls0 \<and> oc_security c \<noteq> None then (True, snd tls0) else tls0) in
      talk_then (talk_result (maybe_wrap_tls e c tls)) (\<lambda>layers.
        case hp_uuid c of
          None \<Rightarrow> Fail HopMissingUuid
        | Some s \<Rightarrow>
            (case ce_uuid e s of
               None \<Rightarrow> Fail (HopBadUuid s)
             | Some u \<Rightarrow>
                 Put (vless_write_request u target (oc_flow c) 1)
                   (Get 1 (\<lambda>v. if hd v \<noteq> 0 then Fail (HopVersion (hd v)) else Get 1 (\<lambda>n. Get (unat (hd n)) (\<lambda>_.
                      Ret (layers @ (if oc_flow c = Some ''xtls-rprx-vision'' then [VisionLayer u] else [])))))))))"

definition trojan_connect_over_stream :: "chain_env \<Rightarrow> hop_config \<Rightarrow> address \<Rightarrow> (chain_error, layer list) talk" where
  "trojan_connect_over_stream e c target =
     (let tls0 = effective_tls c;
          tls1 = (if \<not> fst tls0 \<and> oc_security c = None then (True, snd tls0) else tls0);
          tls = (if \<not> fst tls1 \<and> oc_security c = Some ''tls'' then (True, snd tls1) else tls1) in
      talk_then (talk_result (maybe_wrap_tls e c tls)) (\<lambda>layers.
        case hp_password c of
          None \<Rightarrow> Fail HopMissingPassword
        | Some p \<Rightarrow> Put (trojan_write_request (password_hash (ce_sha224 e) p) target 1) (Ret layers)))"

definition connect_intermediate_hop :: "chain_env \<Rightarrow> hop_config \<Rightarrow> address \<Rightarrow> (chain_error, layer list) talk" where
  "connect_intermediate_hop e c target =
     (let protocol = to_lowercase (oc_protocol c) in
      if protocol = ''http'' \<or> protocol = ''https'' then http_connect_over_stream e c target
      else if protocol = ''tor'' then socks5_connect_over_stream target
      else if protocol = ''vless'' then vless_connect_over_stream e c target
      else if protocol = ''trojan'' then trojan_connect_over_stream e c target
      else Fail (UnsupportedHop (oc_tag c) protocol))"

subsection \<open>The chain\<close>

definition hop_target :: "(string, hop_config) hashmap \<Rightarrow> session \<Rightarrow> string list \<Rightarrow> (chain_error, address) result" where
  "hop_target m ses later =
     (case later of
        [] \<Rightarrow> Inr (s_target ses)
      | n # _ \<Rightarrow> (case hm_get m n of None \<Rightarrow> Inl (UnknownHop n) | Some c \<Rightarrow> resolve_hop_server_target c))"

fun chain_hops :: "chain_env \<Rightarrow> (string, hop_config) hashmap \<Rightarrow> session \<Rightarrow> string list \<Rightarrow> (chain_error, layer list) talk" where
  "chain_hops e m ses [] = Ret []"
| "chain_hops e m ses (h # hs) =
     (case hm_get m h of
        None \<Rightarrow> Fail (UnknownHop h)
      | Some c \<Rightarrow>
          (case hop_target m ses hs of
             Inl err \<Rightarrow> Fail err
           | Inr t \<Rightarrow>
               talk_then (connect_intermediate_hop e c (s_target (build_hop_session ses t))) (\<lambda>ls.
                 talk_then (chain_hops e m ses hs) (\<lambda>ls'. Ret (ls @ ls')))))"

text \<open>\<^term>\<open>first\<close> is the outbound of the first hop.\<close>

definition chain_connect ::
  "chain_env \<Rightarrow> (string \<Rightarrow> session \<Rightarrow> (chain_error, layer list) talk) \<Rightarrow> (string, hop_config) hashmap \<Rightarrow> string list \<Rightarrow> session \<Rightarrow>
     (chain_error, layer list) talk" where
  "chain_connect e first m tags ses =
     (case tags of
        [] \<Rightarrow> Panic
      | [h] \<Rightarrow> first h ses
      | h # rest \<Rightarrow>
          (case hop_target m ses rest of
             Inl err \<Rightarrow> Fail err
           | Inr t \<Rightarrow> talk_then (first h (build_hop_session ses t)) (\<lambda>ls.
               talk_then (chain_hops e m ses rest) (\<lambda>ls'. Ret (ls @ ls')))))"

text \<open>The servers of the hops, each of them answering over the stream the one before has opened.\<close>

fun serve_all :: "socks5_inbound list \<Rightarrow> socket_addr \<Rightarrow> (socks_error, session list) talk" where
  "serve_all [] source = Ret []"
| "serve_all (i # is) source =
     talk_then (socks5_handle i source None) (\<lambda>r. talk_then (serve_all is source) (\<lambda>rs. Ret (fst r # rs)))"

text \<open>The plan of a chain: what each hop after the first one is asked for.\<close>

fun hop_plan :: "(string, hop_config) hashmap \<Rightarrow> session \<Rightarrow> string list \<Rightarrow> address list" where
  "hop_plan m ses [] = []"
| "hop_plan m ses (h # hs) = (case hop_target m ses hs of Inl err \<Rightarrow> [] | Inr t \<Rightarrow> t # hop_plan m ses hs)"

definition socks_hop_ok :: "(string, hop_config) hashmap \<Rightarrow> string \<Rightarrow> bool" where
  "socks_hop_ok m h =
     (case hm_get m h of
        None \<Rightarrow> False
      | Some c \<Rightarrow> to_lowercase (oc_protocol c) = ''tor'' \<and>
          (case resolve_hop_server_target c of Inl err \<Rightarrow> False | Inr t \<Rightarrow> socks5_encodable t))"

text \<open>A hop as the examples use it.\<close>

definition tor_hop :: "string \<Rightarrow> hop_config" where
  "tor_hop tag = \<lparr>oc_tag = tag, oc_protocol = ''tor'', oc_flow = None, oc_security = None, oc_tls = None, oc_transport = None,
     oc_chain = None, hp_address = Some tag, hp_port = None, hp_socks_port = None, hp_uuid = None, hp_password = None,
     hp_tls_sni = None, hp_sni = None\<rparr>"

section \<open>Lemmas\<close>

lemma then_assoc: "talk_then (talk_then t f) g = talk_then t (\<lambda>x. talk_then (f x) g)"
  by (induction t) auto

lemma then_waits: "advance (talk_then (serve_all is source) G) [] = ([], talk_then (serve_all is source) G, [])"
  if "\<And>ys. advance (G ys) [] = ([], G ys, [])"
  using that by (cases "is") (simp_all add: socks5_handle_def)

lemma socks5_target_bytes_eq: "socks5_target_bytes t = encode_socks5 t []"
  by (cases t rule: socks5_target_bytes.cases) simp_all

lemma request_case:
  "(case socks5_request i source bound of Ret x \<Rightarrow> A x | Fail err \<Rightarrow> B err | Panic \<Rightarrow> C | Get n k \<Rightarrow> D | Put w t \<Rightarrow> F) = D"
  by (simp add: socks5_request_def)

text \<open>The rounds of the handshake with a SOCKS5 hop, whatever follows on both sides.\<close>

lemma socks_hop:
  assumes "socks5_encodable t" and "si_users i = []"
    and "\<And>y. advance (g y) [] = ([], g y, [])"
  shows "converse (Suc (Suc (Suc m))) (talk_then (socks5_connect_over_stream t) f) [] (talk_then (socks5_handle i source bound) g) [] =
    converse (Suc m) (f []) [] (g (inbound_session (si_tag i) source t Tcp, None)) []"
  using assms(2,3) advance_request [OF assms(1), of i source bound "[]"]
  by (simp add: socks5_connect_over_stream_def socks5_target_bytes_eq socks_request_bytes advance_then advance_greeting request_waits request_case)


lemma hop_target_ok:
  assumes "\<forall>h \<in> set hs. socks_hop_ok m h" and "socks5_encodable (s_target ses)"
  shows "\<exists>t. hop_target m ses hs = Inr t \<and> socks5_encodable t"
  using assms by (cases hs) (auto simp: hop_target_def socks_hop_ok_def split: option.splits sum.splits)

lemma hop_plan_exact:
  assumes "\<forall>h \<in> set hs. socks_hop_ok m h" and "socks5_encodable (s_target ses)"
  shows "length (hop_plan m ses hs) = length hs \<and> (hs \<noteq> [] \<longrightarrow> last (hop_plan m ses hs) = s_target ses) \<and>
    (\<forall>j. Suc j < length hs \<longrightarrow>
       resolve_hop_server_target (the (hm_get m (hs ! Suc j))) = Inr (hop_plan m ses hs ! j))"
  using assms
proof (induction hs)
  case (Cons h hs)
  obtain t where t: "hop_target m ses hs = Inr t"
    using hop_target_ok "Cons.prems" by (metis list.set_intros(2))
  have first: "hs \<noteq> [] \<Longrightarrow> resolve_hop_server_target (the (hm_get m (hs ! 0))) = Inr t"
    using t by (cases hs) (auto simp: hop_target_def split: option.splits)
  have "hs = [] \<Longrightarrow> t = s_target ses" using t by (simp add: hop_target_def)
  then show ?case using Cons t first by (auto simp: nth_Cons split: nat.splits)
qed simp

lemma hops_meet:
  assumes "\<forall>h \<in> set hs. socks_hop_ok m h" and "socks5_encodable (s_target ses)"
    and "length srv = length hs" and "\<forall>i \<in> set srv. si_users i = []"
    and "\<And>ys. advance (G ys) [] = ([], G ys, [])"
  shows "converse (2 * length hs + 1) (talk_then (chain_hops e m ses hs) F) [] (talk_then (serve_all srv source) G) [] =
    converse 1 (F []) [] (G (map2 (\<lambda>i t. inbound_session (si_tag i) source t Tcp) srv (hop_plan m ses hs))) []"
  using assms
proof (induction hs arbitrary: srv G F)
  case (Cons h hs)
  obtain i "is" where srv: "srv = i # is" and len: "length is = length hs"
    using "Cons.prems"(3) by (cases srv) auto
  obtain c where c: "hm_get m h = Some c" "to_lowercase (oc_protocol c) = ''tor''"
    using "Cons.prems"(1) by (auto simp: socks_hop_ok_def split: option.splits)
  obtain t where t: "hop_target m ses hs = Inr t" "socks5_encodable t"
    using hop_target_ok "Cons.prems"(1,2) by (metis list.set_intros(2))
  let ?y = "inbound_session (si_tag i) source t Tcp"
  have client: "talk_then (chain_hops e m ses (h # hs)) F = talk_then (socks5_connect_over_stream t)
      (\<lambda>ls. talk_then (chain_hops e m ses hs) (\<lambda>ls'. F (ls @ ls')))"
    using c t by (simp add: connect_intermediate_hop_def build_hop_session_def then_assoc)
  have server: "talk_then (serve_all srv source) G = talk_then (socks5_handle i source None)
      (\<lambda>r. talk_then (serve_all is source) (\<lambda>rs. G (fst r # rs)))"
    by (simp add: srv then_assoc)
  have "converse (Suc (Suc (Suc (2 * length hs)))) (talk_then (chain_hops e m ses (h # hs)) F) [] (talk_then (serve_all srv source) G) [] =
      converse (Suc (2 * length hs)) (talk_then (chain_hops e m ses hs) F) [] (talk_then (serve_all is source) (\<lambda>rs. G (?y # rs))) []"
    unfolding client server
    using socks_hop [OF t(2), of i "\<lambda>r. talk_then (serve_all is source) (\<lambda>rs. G (fst r # rs))" "2 * length hs"
        "\<lambda>ls. talk_then (chain_hops e m ses hs) (\<lambda>ls'. F (ls @ ls'))" source None] "Cons.prems"(4,5)
    by (simp add: srv then_waits del: converse.simps)
  also have "\<dots> = converse 1 (F []) [] (G (?y # map2 (\<lambda>i t. inbound_session (si_tag i) source t Tcp) is (hop_plan m ses hs))) []"
    using "Cons.IH" [of "is" "\<lambda>rs. G (?y # rs)" F] "Cons.prems" len by (simp add: srv del: converse.simps)
  finally show ?case using t by (simp add: srv del: converse.simps)
qed simp


lemma test_hops_exact:
  "test_hops test acc hs =
     (let up = takeWhile (\<lambda>h. test h \<noteq> None) hs;
          res = (\<lambda>h. \<lparr>hr_name = h, hr_latency = test h, hr_healthy = (test h \<noteq> None)\<rparr>) in
      if up = hs
      then \<lparr>cr_healthy = True, cr_hops = acc @ map res hs,
            cr_total = Some (sum_list (map (\<lambda>r. case hr_latency r of Some l \<Rightarrow> l | None \<Rightarrow> 0) acc) + sum_list (map (the \<circ> test) hs))\<rparr>
      else \<lparr>cr_healthy = False, cr_hops = acc @ map res up @ [res (hs ! length up)], cr_total = None\<rparr>)"
  by (induction hs arbitrary: acc) (auto simp: Let_def split: option.splits)

text \<open>A hop of another protocol, \<^emph>\<open>direct\<close> included, ends the attempt before a byte is written to it.\<close>

lemma unsupported_hop:
  assumes "to_lowercase (oc_protocol c) \<notin> {''http'', ''https'', ''tor'', ''vless'', ''trojan''}"
  shows "connect_intermediate_hop e c t = Fail (UnsupportedHop (oc_tag c) (to_lowercase (oc_protocol c)))"
  using assms by (simp add: connect_intermediate_hop_def Let_def)

section \<open>Properties\<close>



text \<open>The health of a chain: the hops are tested in order up to the first that fails; the chain is healthy when all
  of them answer, and its latency is then the sum of theirs.\<close>

theorem chain_health_exact:
  "chain_health_check test tags =
     (let up = takeWhile (\<lambda>h. test h \<noteq> None) tags;
          res = (\<lambda>h. \<lparr>hr_name = h, hr_latency = test h, hr_healthy = (test h \<noteq> None)\<rparr>) in
      if up = tags
      then \<lparr>cr_healthy = True, cr_hops = map res tags, cr_total = Some (sum_list (map (the \<circ> test) tags))\<rparr>
      else \<lparr>cr_healthy = False, cr_hops = map res up @ [res (tags ! length up)], cr_total = None\<rparr>)"
  by (simp add: chain_health_check_def test_hops_exact Let_def)

text \<open>A VLESS hop whose configuration says that it uses no TLS is nevertheless reached over TLS.\<close>

theorem vless_hop_forces_tls:
  assumes "oc_security c = Some ''none''" and "oc_tls c = None" and "effective_transport c = []"
    and "hp_address c = Some a" and "hp_sni c = None" and "ce_tls e a = Some err"
  shows "vless_connect_over_stream e c t = Fail (HopTls err)"
  using assms by (simp add: vless_connect_over_stream_def maybe_wrap_tls_def effective_tls_def effective_sni_def talk_result_def)

theorem vless_hop_forces_tls_witness:
  "\<forall>e t. vless_connect_over_stream (e\<lparr>ce_tls := (\<lambda>_. Some ''no TLS here'')\<rparr>) ((tor_hop ''b'')\<lparr>oc_protocol := ''vless'', oc_security := Some ''none''\<rparr>) t =
     Fail (HopTls ''no TLS here'')"
  by (intro allI, rule vless_hop_forces_tls) (simp_all add: tor_hop_def effective_transport_def)

end
